(* ===== verification/Prelude.thy ===== *)
theory Prelude
  imports Main "HOL-Library.Word" "HOL-Library.Multiset"
begin

text \<open>
  What every component shares: the ways the Rust code can stop abnormally, the result type
  that carries them, machine integers with the overflow checks of a debug build, indexing,
  and a few lemmas on lists and words that the component proofs rest on.

  A panic, and an operation whose behaviour Rust leaves undefined, are both values of
  \<open>fault\<close>. A fallible operation returns \<open>fault + 'a\<close>, the fault on the left.
\<close>

subsection \<open>Faults and results\<close>

datatype fault =
    ArithOverflow       \<comment> \<open>a checked \<open>+\<close>, \<open>-\<close> or \<open>*\<close> of a debug build\<close>
  | DivideByZero
  | UnwrapFailed        \<comment> \<open>\<open>unwrap\<close> of \<open>None\<close> or of an \<open>Err\<close>\<close>
  | AssertFailed        \<comment> \<open>\<open>assert!\<close>, \<open>assert_eq!\<close>, \<open>assert_ne!\<close>\<close>
  | IndexOutOfBounds
  | Unimplemented       \<comment> \<open>\<open>unimplemented!\<close>\<close>
  | ExplicitPanic       \<comment> \<open>\<open>panic!\<close>\<close>
  | UnreachableCode     \<comment> \<open>\<open>unreachable!\<close>\<close>
  | UndefinedBehaviour  \<comment> \<open>an \<open>unsafe\<close> call outside its contract\<close>

type_synonym 'a res = "fault + 'a"

abbreviation Ok :: "'a \<Rightarrow> 'a res" where "Ok x \<equiv> Inr x"
abbreviation Fault :: "fault \<Rightarrow> 'a res" where "Fault e \<equiv> Inl e"

named_theorems res_simps \<open>evaluation rules of the result type\<close>
named_theorems word_facts \<open>unsigned readings of the machine-integer operations\<close>

definition rbind :: "'a res \<Rightarrow> ('a \<Rightarrow> 'b res) \<Rightarrow> 'b res" where
  "rbind m f = (case m of Fault e \<Rightarrow> Fault e | Ok x \<Rightarrow> f x)"

lemma rbind_Ok [simp, res_simps]: "rbind (Ok x) f = f x"
  by (simp add: rbind_def)

lemma rbind_Fault [simp, res_simps]: "rbind (Fault e) f = Fault e"
  by (simp add: rbind_def)

lemma rbind_eq_Ok [simp]: "rbind m f = Ok y \<longleftrightarrow> (\<exists>x. m = Ok x \<and> f x = Ok y)"
  by (cases m) auto

lemma rbind_eq_Fault [simp]:
  "rbind m f = Fault e \<longleftrightarrow> m = Fault e \<or> (\<exists>x. m = Ok x \<and> f x = Fault e)"
  by (cases m) auto

lemma rbind_cong [fundef_cong]:
  "m = m' \<Longrightarrow> (\<And>x. m' = Ok x \<Longrightarrow> f x = f' x) \<Longrightarrow> rbind m f = rbind m' f'"
  by (cases m') auto

definition is_ok :: "'a res \<Rightarrow> bool" where
  "is_ok m = (case m of Fault _ \<Rightarrow> False | Ok _ \<Rightarrow> True)"

lemma is_ok_simps [simp, res_simps]: "is_ok (Ok x)" "\<not> is_ok (Fault e)"
  by (simp_all add: is_ok_def)

lemma is_ok_iff: "is_ok m \<longleftrightarrow> (\<exists>x. m = Ok x)"
  by (cases m) auto

definition unwrap :: "'a option \<Rightarrow> 'a res" where
  "unwrap x = (case x of None \<Rightarrow> Fault UnwrapFailed | Some y \<Rightarrow> Ok y)"

lemma unwrap_simps [simp, res_simps]:
  "unwrap None = Fault UnwrapFailed" "unwrap (Some x) = Ok x"
  by (simp_all add: unwrap_def)

lemma unwrap_eq_Ok [simp]: "unwrap x = Ok y \<longleftrightarrow> x = Some y"
  by (cases x) auto

definition guard :: "fault \<Rightarrow> bool \<Rightarrow> unit res" where
  "guard e b = (if b then Ok () else Fault e)"

lemma guard_simps [simp, res_simps]: "guard e True = Ok ()" "guard e False = Fault e"
  by (simp_all add: guard_def)

lemma guard_eq_Ok [simp]: "guard e b = Ok u \<longleftrightarrow> b"
  by (simp add: guard_def)

lemma guard_eq_Fault [simp]: "guard e b = Fault e' \<longleftrightarrow> \<not> b \<and> e' = e"
  by (auto simp: guard_def)

text \<open>Mapping a fallible function over a list, left to right, stopping at the first fault.\<close>

fun rmap :: "('a \<Rightarrow> 'b res) \<Rightarrow> 'a list \<Rightarrow> 'b list res" where
  "rmap f [] = Ok []"
| "rmap f (x # xs) = rbind (f x) (\<lambda>y. rbind (rmap f xs) (\<lambda>ys. Ok (y # ys)))"

lemma rmap_eq_Ok: "rmap f xs = Ok ys \<longleftrightarrow> list_all2 (\<lambda>x y. f x = Ok y) xs ys"
  by (induction xs arbitrary: ys) (auto simp: list_all2_Cons1)

lemma rmap_append: "rmap f (xs @ ys) = rbind (rmap f xs) (\<lambda>as. rbind (rmap f ys) (\<lambda>bs. Ok (as @ bs)))"
  by (induction xs) (auto simp: rbind_def split: sum.splits)

lemma rmap_length: "rmap f xs = Ok ys \<Longrightarrow> length ys = length xs"
  by (auto simp: rmap_eq_Ok dest: list_all2_lengthD)

lemma rmap_nth: "rmap f xs = Ok ys \<Longrightarrow> i < length xs \<Longrightarrow> f (xs ! i) = Ok (ys ! i)"
  by (auto simp: rmap_eq_Ok list_all2_conv_all_nth)

lemma rmap_cong [fundef_cong]:
  "xs = ys \<Longrightarrow> (\<And>x. x \<in> set ys \<Longrightarrow> f x = g x) \<Longrightarrow> rmap f xs = rmap g ys"
  by (induction ys arbitrary: xs) auto

subsection \<open>Indexing\<close>

definition vec_get :: "'a list \<Rightarrow> nat \<Rightarrow> 'a res" where
  "vec_get xs i = (if i < length xs then Ok (xs ! i) else Fault IndexOutOfBounds)"

lemma vec_get_eq_Ok [simp]: "vec_get xs i = Ok x \<longleftrightarrow> i < length xs \<and> x = xs ! i"
  by (auto simp: vec_get_def)

lemma vec_get_eq_Fault [simp]:
  "vec_get xs i = Fault e \<longleftrightarrow> length xs \<le> i \<and> e = IndexOutOfBounds"
  by (auto simp: vec_get_def)

subsection \<open>Machine integers\<close>

type_synonym u32 = "32 word"
type_synonym usize = "64 word"

text \<open>
  Arithmetic of a debug build: \<open>+\<close> and \<open>-\<close> panic where the exact result does not fit.
  (The example application loads its actors from \<open>target/.../debug\<close>.)
\<close>

definition uadd :: "'w::len word \<Rightarrow> 'w word \<Rightarrow> 'w word res" where
  "uadd a b = (if unat a + unat b < 2 ^ LENGTH('w) then Ok (a + b) else Fault ArithOverflow)"

definition usub :: "'w::len word \<Rightarrow> 'w word \<Rightarrow> 'w word res" where
  "usub a b = (if b \<le> a then Ok (a - b) else Fault ArithOverflow)"

definition urem :: "'w::len word \<Rightarrow> 'w word \<Rightarrow> 'w word res" where
  "urem a b = (if b = 0 then Fault DivideByZero else Ok (a mod b))"

lemma uadd_Ok:
  "unat a + unat b < 2 ^ LENGTH('w) \<Longrightarrow> uadd a b = Ok (a + b)" for a b :: "'w::len word"
  by (simp add: uadd_def)

lemma usub_Ok: "unat b \<le> unat a \<Longrightarrow> usub a b = Ok (a - b)"
  by (simp add: usub_def word_le_nat_alt)

lemma urem_Ok: "b \<noteq> 0 \<Longrightarrow> urem a b = Ok (a mod b)"
  by (simp add: urem_def)

lemma unat_add_exact [word_facts]:
  "unat a + unat b < 2 ^ LENGTH('w) \<Longrightarrow> unat (a + b) = unat a + unat b" for a b :: "'w::len word"
  by (simp add: unat_word_ariths)

lemma unat_sub_exact [word_facts]: "unat b \<le> unat a \<Longrightarrow> unat (a - b) = unat a - unat b"
  by (simp add: unat_sub word_le_nat_alt)

lemma unat_mod_exact [word_facts]: "unat (a mod b) = unat a mod unat b"
  by (rule unat_mod)

text \<open>\<open>usize as u32\<close> conversions: \<open>try_into().unwrap()\<close> panics where \<open>as\<close> truncates.\<close>

definition to_u32 :: "usize \<Rightarrow> u32 res" where
  "to_u32 x = (if unat x < 2 ^ 32 then Ok (ucast x) else Fault UnwrapFailed)"

lemma unat_less_2_64: "unat (x :: usize) < 2 ^ 64"
  using unsigned_less [of x] by simp

lemma unat_less_2_32: "unat (x :: u32) < 2 ^ 32"
  using unsigned_less [of x] by simp

lemma unat_ucast_u32 [word_facts]:
  "unat x < 2 ^ 32 \<Longrightarrow> unat (ucast x :: u32) = unat x" for x :: usize
  by (simp add: unsigned_ucast_eq take_bit_nat_eq_self)

lemma unat_ucast_usize [word_facts, simp]: "unat (ucast x :: usize) = unat x" for x :: u32
proof -
  have "unat x < 2 ^ 64" using unat_less_2_32 [of x] by (rule less_trans) simp
  then show ?thesis by (simp add: unsigned_ucast_eq take_bit_nat_eq_self)
qed

lemma unat_of_nat_u32: "n < 2 ^ 32 \<Longrightarrow> unat (of_nat n :: u32) = n"
  by (simp add: unat_of_nat take_bit_nat_eq_self)

lemma unat_of_nat_usize: "n < 2 ^ 64 \<Longrightarrow> unat (of_nat n :: usize) = n"
  by (simp add: unat_of_nat take_bit_nat_eq_self)

lemma to_u32_of_nat:
  assumes "n < 2 ^ 64"
  shows "to_u32 (of_nat n) = (if n < 2 ^ 32 then Ok (of_nat n) else Fault UnwrapFailed)"
proof -
  have n: "unat (of_nat n :: usize) = n" by (rule unat_of_nat_usize [OF assms])
  have "(ucast (of_nat n :: usize) :: u32) = of_nat n" if "n < 2 ^ 32"
  proof -
    have "unat (ucast (of_nat n :: usize) :: u32) = unat (of_nat n :: u32)"
      using that n by (simp only: unat_ucast_u32 unat_of_nat_u32)
    then show ?thesis by (simp only: word_unat_eq_iff)
  qed
  then show ?thesis by (simp only: to_u32_def n split: if_split) simp
qed

subsection \<open>Maps\<close>

lemma map_add_upd_first:
  "k \<notin> fst ` set xs \<Longrightarrow> m(k \<mapsto> v) ++ map_of xs = m ++ (map_of xs)(k \<mapsto> v)"
  by (auto simp: fun_eq_iff map_add_def map_of_eq_None_iff [symmetric] split: option.splits)

lemma sum_list_map_update:
  "k < length xs \<Longrightarrow> sum_list (map f (xs[k := y])) + f (xs ! k) = sum_list (map f xs) + (f y :: nat)"
  by (induction xs arbitrary: k) (auto split: nat.splits)

lemma nth_update_if: "xs[i := x] ! j = (if i = j \<and> j < length xs then x else xs ! j)"
  by (cases "i = j"; cases "j < length xs") (simp_all add: list_update_beyond)

end
