(* ===== verification/Alloc.thy ===== *)
theory Alloc
  imports Prelude
begin

text \<open>
  The parts of \<open>std::alloc\<close> the program uses: \<open>Layout\<close> with its validity check, the
  alignment of a byte pointer, and the contract of the global allocator. The addresses the
  allocator hands out are the environment's choice: they are a parameter of the
  definitions that allocate, and \<open>alloc_ok\<close> states what its documentation promises of a
  returned block.
\<close>

subsection \<open>Layouts\<close>

record layout =
  lay_size :: usize
  lay_align :: usize

definition is_pow2 :: "usize \<Rightarrow> bool" where
  "is_pow2 a \<longleftrightarrow> list_ex (\<lambda>k. a = 2 ^ k) [0..<64]"

text \<open>
  \<open>Layout::from_size_align\<close>: the alignment is a power of two and the size, rounded up to
  it, does not exceed \<open>isize::MAX\<close>.
\<close>

definition wf_layout :: "layout \<Rightarrow> bool" where
  "wf_layout l \<longleftrightarrow> is_pow2 (lay_align l) \<and> unat (lay_size l) + unat (lay_align l) \<le> 2 ^ 63"

definition from_size_align :: "usize \<Rightarrow> usize \<Rightarrow> layout option" where
  "from_size_align s a =
     (let l = \<lparr>lay_size = s, lay_align = a\<rparr> in if wf_layout l then Some l else None)"

lemma unat_2_power: "k < 64 \<Longrightarrow> unat ((2 :: usize) ^ k) = 2 ^ k"
proof -
  assume k: "k < 64"
  then have "(2 :: nat) ^ k < 2 ^ 64" by (rule power_strict_increasing) simp
  then have "(2 :: nat) ^ k mod 2 ^ 64 = 2 ^ k" by simp
  moreover have "(2 :: usize) ^ k = of_nat (2 ^ k)" by simp
  ultimately show "unat ((2 :: usize) ^ k) = 2 ^ k"
    by (simp only: unat_of_nat) (simp add: take_bit_eq_mod)
qed

lemma is_pow2_unat: "is_pow2 a \<longleftrightarrow> (\<exists>k<64. unat a = 2 ^ k)"
proof
  assume "is_pow2 a"
  then show "\<exists>k<64. unat a = 2 ^ k"
    by (auto simp: is_pow2_def list_ex_iff unat_2_power)
next
  assume "\<exists>k<64. unat a = 2 ^ k"
  then obtain k where k: "k < 64" "unat a = 2 ^ k" by blast
  then have "a = 2 ^ k" using unat_2_power [of k] by (metis word_unat_eq_iff)
  with k show "is_pow2 a" by (auto simp: is_pow2_def list_ex_iff)
qed

lemma is_pow2_1 [simp]: "is_pow2 1"
  by (auto simp: is_pow2_unat intro: exI [of _ 0])

lemma is_pow2_small [simp]: "is_pow2 2" "is_pow2 4" "is_pow2 8" "is_pow2 16"
  by code_simp+

lemma wf_layout_pos: "wf_layout l \<Longrightarrow> 0 < unat (lay_align l)"
  by (auto simp: wf_layout_def is_pow2_unat)

lemma wf_layout_align: "wf_layout l \<Longrightarrow> \<exists>k. unat (lay_align l) = 2 ^ k"
  by (auto simp: wf_layout_def is_pow2_unat)

lemma wf_layout_bounds:
  "wf_layout l \<Longrightarrow> unat (lay_size l) + unat (lay_align l) \<le> 2 ^ 63"
  by (simp add: wf_layout_def)

subsection \<open>Alignment of byte pointers\<close>

text \<open>
  \<open>align_offset\<close> on a \<open>*mut u8\<close>: the number of bytes to add (wrapping) to reach the next
  multiple of the alignment.
\<close>

definition align_offset :: "usize \<Rightarrow> usize \<Rightarrow> usize" where
  "align_offset p a = (- p) mod a"

definition round_up :: "nat \<Rightarrow> nat \<Rightarrow> nat" where
  "round_up c a = c + (a - c mod a) mod a"

lemma round_up_ge: "c \<le> round_up c a"
  by (simp add: round_up_def)

lemma round_up_dvd: "0 < a \<Longrightarrow> a dvd round_up c a"
proof -
  assume a: "0 < a"
  have "round_up c a mod a = (c mod a + (a - c mod a)) mod a"
    by (simp add: round_up_def mod_simps)
  also have "\<dots> = 0" using a by (simp add: less_imp_le)
  finally show ?thesis by (simp add: mod_eq_0_iff_dvd)
qed

lemma unat_align_offset:
  assumes "is_pow2 a"
  shows "unat (align_offset p a) = (unat a - unat p mod unat a) mod unat a"
proof -
  from assms obtain k where k: "k < 64" "unat a = 2 ^ k" by (auto simp: is_pow2_unat)
  have dvd: "(2 :: int) ^ k dvd 2 ^ 64" using k(1) by (intro le_imp_power_dvd) simp
  have "int (unat (align_offset p a)) = uint ((- p) mod a)"
    by (simp add: align_offset_def)
  also have "\<dots> = uint (- p) mod uint a" by (rule uint_mod)
  also have "uint a = 2 ^ k" using k by (metis of_nat_numeral of_nat_power uint_nat)
  also have "uint (- p) = (- uint p) mod 2 ^ 64"
    by (simp add: uint_word_ariths)
  also have "(- uint p) mod 2 ^ 64 mod 2 ^ k = (- uint p) mod 2 ^ k"
    using dvd by (simp add: mod_mod_cancel)
  also have "\<dots> = (2 ^ k - uint p mod 2 ^ k) mod 2 ^ k"
    by (simp add: mod_simps)
  also have "\<dots> = int ((2 ^ k - unat p mod 2 ^ k) mod 2 ^ k)"
  proof -
    have "unat p mod 2 ^ k \<le> 2 ^ k" by (simp add: less_imp_le)
    then have "int (2 ^ k - unat p mod 2 ^ k) = 2 ^ k - int (unat p mod 2 ^ k)"
      by (simp only: of_nat_diff of_nat_power of_nat_numeral)
    also have "int (unat p mod 2 ^ k) = uint p mod 2 ^ k"
      by (simp only: zmod_int of_nat_power of_nat_numeral uint_nat)
    finally show ?thesis by (simp only: zmod_int of_nat_power of_nat_numeral)
  qed
  finally show ?thesis using k by (simp only: of_nat_eq_iff)
qed

lemma align_offset_0_iff:
  assumes "is_pow2 a"
  shows "align_offset p a = 0 \<longleftrightarrow> unat a dvd unat p"
proof -
  have pos: "0 < unat a" using assms by (auto simp: is_pow2_unat)
  then have lt: "unat p mod unat a < unat a" by simp
  have "align_offset p a = 0 \<longleftrightarrow> (unat a - unat p mod unat a) mod unat a = 0"
    using unat_align_offset [OF assms, of p] by (metis unat_eq_zero)
  also have "\<dots> \<longleftrightarrow> unat p mod unat a = 0"
  proof (cases "unat p mod unat a = 0")
    case False
    then have "unat a - unat p mod unat a < unat a" using pos by simp
    with False lt show ?thesis by (simp add: not_le)
  qed simp
  finally show ?thesis by (simp add: mod_eq_0_iff_dvd)
qed

subsection \<open>The global allocator\<close>

text \<open>
  \<open>std::alloc::alloc\<close> must not be called with a layout of size zero. \<open>alloc_ok\<close> is the
  documented outcome for a block that is handed out: not null, aligned, and inside the
  address space.
\<close>

definition alloc_call :: "(layout \<Rightarrow> usize) \<Rightarrow> layout \<Rightarrow> usize res" where
  "alloc_call alloc l = (if lay_size l = 0 then Fault UndefinedBehaviour else Ok (alloc l))"

definition nonnull_new :: "usize \<Rightarrow> usize option" where
  "nonnull_new p = (if p = 0 then None else Some p)"

definition alloc_ok :: "(layout \<Rightarrow> usize) \<Rightarrow> layout \<Rightarrow> bool" where
  "alloc_ok alloc l \<longleftrightarrow> alloc l \<noteq> 0 \<and> unat (lay_align l) dvd unat (alloc l) \<and>
     unat (alloc l) + unat (lay_size l) < 2 ^ 64"

text \<open>
  \<open>std::alloc::dealloc\<close> must be called with the layout the block was allocated with.
\<close>

definition dealloc_call :: "layout \<Rightarrow> layout \<Rightarrow> unit res" where
  "dealloc_call allocated_with l = guard UndefinedBehaviour (l = allocated_with)"

end
