(* ===== verification/Ids.thy ===== *)
theory Ids
  imports Prelude
begin

text \<open>
  The identifiers of \<open>context.rs\<close>: \<open>ActorId\<close> and \<open>ContextId\<close>, newtypes over
  \<open>NonZeroU32\<close> that share the operations of the macro \<open>impl_inner_ops\<close>. An identifier is one
  more than the index it stands for.
\<close>

subsection \<open>\<open>NonZeroU32\<close>\<close>

typedef nonzero_u32 = "{w :: u32. w \<noteq> 0}"
  morphisms nz_get nz_make
  by (rule exI [of _ 1]) simp

lemma nz_get_nonzero [simp]: "nz_get x \<noteq> 0"
  using nz_get [of x] by simp

definition nz_new :: "u32 \<Rightarrow> nonzero_u32 option" where
  "nz_new x = (if x = 0 then None else Some (nz_make x))"

lemma nz_get_make [simp]: "x \<noteq> 0 \<Longrightarrow> nz_get (nz_make x) = x"
  by (simp add: nz_make_inverse)

lemma nz_new_Some: "nz_new x = Some n \<longleftrightarrow> nz_get n = x"
  by (auto simp: nz_new_def nz_make_inverse nz_get_inverse)

lemma nz_eq_iff: "x = y \<longleftrightarrow> nz_get x = nz_get y"
  by (simp add: nz_get_inject)

instantiation nonzero_u32 :: linorder
begin

definition less_eq_nonzero_u32 :: "nonzero_u32 \<Rightarrow> nonzero_u32 \<Rightarrow> bool" where
  "less_eq_nonzero_u32 a b \<longleftrightarrow> nz_get a \<le> nz_get b"

definition less_nonzero_u32 :: "nonzero_u32 \<Rightarrow> nonzero_u32 \<Rightarrow> bool" where
  "less_nonzero_u32 a b \<longleftrightarrow> nz_get a < nz_get b"

instance
  by standard (auto simp: less_eq_nonzero_u32_def less_nonzero_u32_def nz_eq_iff)

end

subsection \<open>The two identifier types\<close>

datatype actor_id = ActorId (actor_inner: nonzero_u32)
datatype context_id = ContextId (context_inner: nonzero_u32)

instantiation actor_id :: linorder
begin

definition less_eq_actor_id :: "actor_id \<Rightarrow> actor_id \<Rightarrow> bool" where
  "less_eq_actor_id a b \<longleftrightarrow> actor_inner a \<le> actor_inner b"

definition less_actor_id :: "actor_id \<Rightarrow> actor_id \<Rightarrow> bool" where
  "less_actor_id a b \<longleftrightarrow> actor_inner a < actor_inner b"

instance
  by standard (auto simp: less_eq_actor_id_def less_actor_id_def actor_id.expand)

end

instantiation context_id :: linorder
begin

definition less_eq_context_id :: "context_id \<Rightarrow> context_id \<Rightarrow> bool" where
  "less_eq_context_id a b \<longleftrightarrow> context_inner a \<le> context_inner b"

definition less_context_id :: "context_id \<Rightarrow> context_id \<Rightarrow> bool" where
  "less_context_id a b \<longleftrightarrow> context_inner a < context_inner b"

instance
  by standard (auto simp: less_eq_context_id_def less_context_id_def context_id.expand)

end

definition actor_new :: "u32 \<Rightarrow> actor_id option" where
  "actor_new x = map_option ActorId (nz_new x)"

definition actor_as_u32 :: "actor_id \<Rightarrow> u32" where
  "actor_as_u32 a = nz_get (actor_inner a)"

definition actor_as_index :: "actor_id \<Rightarrow> nat" where
  "actor_as_index a = unat (actor_as_u32 a - 1)"

definition context_new :: "u32 \<Rightarrow> context_id option" where
  "context_new x = map_option ContextId (nz_new x)"

definition context_as_u32 :: "context_id \<Rightarrow> u32" where
  "context_as_u32 c = nz_get (context_inner c)"

definition context_as_index :: "context_id \<Rightarrow> nat" where
  "context_as_index c = unat (context_as_u32 c - 1)"

text \<open>
  The identifier made for the element at an index of a vector, as in
  \<open>ActorId::new(i as u32 + 1).unwrap()\<close>: the index is truncated to 32 bits, and adding one
  to the largest one overflows.
\<close>

definition id_for_index :: "(u32 \<Rightarrow> 'i option) \<Rightarrow> nat \<Rightarrow> 'i res" where
  "id_for_index new i = rbind (uadd (of_nat i :: u32) 1) (\<lambda>x. unwrap (new x))"

subsection \<open>The contract of \<open>impl_inner_ops\<close>\<close>

locale inner_ops =
  fixes new :: "u32 \<Rightarrow> 'i::linorder option"
    and as_u32 :: "'i \<Rightarrow> u32"
    and as_index :: "'i \<Rightarrow> nat"
  assumes new_Some: "new x = Some a \<longleftrightarrow> as_u32 a = x"
    and as_u32_nonzero: "as_u32 a \<noteq> 0"
    and new_nonzero: "x \<noteq> 0 \<Longrightarrow> \<exists>a. new x = Some a"
    and index_u32: "as_index a = unat (as_u32 a - 1)"
    and less_u32: "a < b \<longleftrightarrow> as_u32 a < as_u32 b"
begin

lemma new_0: "new 0 = None"
  using new_Some as_u32_nonzero by (cases "new 0") auto

lemma Suc_index: "Suc (as_index a) = unat (as_u32 a)"
proof -
  have "0 < unat (as_u32 a)" using as_u32_nonzero [of a] by (simp add: unat_gt_0)
  then show ?thesis by (simp add: index_u32 unat_sub_exact)
qed

lemma index_less: "as_index a < 2 ^ 32 - 1"
  using Suc_index [of a] unat_less_2_32 [of "as_u32 a"] by simp

lemma u32_eq: "as_u32 a = as_u32 b \<longleftrightarrow> a = b"
  using new_Some by (metis option.inject)

lemma index_eq: "as_index a = as_index b \<longleftrightarrow> a = b"
  using Suc_index u32_eq by (metis word_unat_eq_iff old.nat.inject)

lemma index_mono: "a < b \<longleftrightarrow> as_index a < as_index b"
  using Suc_index [of a] Suc_index [of b] by (simp add: less_u32 word_less_nat_alt) linarith

lemma id_for_index_Ok:
  assumes "id_for_index new i = Ok a" "i < 2 ^ 32"
  shows "as_index a = i"
proof -
  have i: "unat (of_nat i :: u32) = i" by (rule unat_of_nat_u32 [OF assms(2)])
  have a: "as_u32 a = of_nat i + 1" "unat (of_nat i :: u32) + unat (1 :: u32) < 2 ^ 32"
    using assms(1) by (auto simp: id_for_index_def new_Some uadd_def simp del: unat_of_nat split: if_splits)
  then have "unat (as_u32 a) = i + 1" using i by (simp only: a(1)) (simp add: unat_add_exact)
  then show ?thesis using Suc_index [of a] by simp
qed

lemma id_for_index_total: "i < 2 ^ 32 - 1 \<Longrightarrow> \<exists>a. id_for_index new i = Ok a \<and> as_index a = i"
proof -
  assume i: "i < 2 ^ 32 - 1"
  then have u: "unat (of_nat i :: u32) = i" by (simp add: unat_of_nat_u32)
  with i have nz: "unat (of_nat i + 1 :: u32) = Suc i" by (simp add: unat_add_exact)
  then have "(of_nat i + 1 :: u32) \<noteq> 0" by (metis unat_0 Zero_not_Suc)
  then obtain a where "new (of_nat i + 1) = Some a" using new_nonzero by blast
  then have "id_for_index new i = Ok a" using i u by (simp add: id_for_index_def uadd_def)
  with i show ?thesis using id_for_index_Ok by auto
qed

lemma id_for_index_roundtrip: "id_for_index new (as_index a) = Ok a"
proof -
  obtain b where b: "id_for_index new (as_index a) = Ok b" "as_index b = as_index a"
    using id_for_index_total index_less by blast
  then show ?thesis using index_eq by simp
qed

lemma id_for_index_last: "id_for_index new (2 ^ 32 - 1) = Fault ArithOverflow"
  by (simp add: id_for_index_def uadd_def)

end

interpretation act: inner_ops actor_new actor_as_u32 actor_as_index
  by unfold_locales
    (auto simp: actor_new_def actor_as_u32_def actor_as_index_def nz_new_Some less_actor_id_def
      less_nonzero_u32_def nz_new_def nz_get_inverse actor_id.expand)

interpretation ctx: inner_ops context_new context_as_u32 context_as_index
  by unfold_locales
    (auto simp: context_new_def context_as_u32_def context_as_index_def nz_new_Some less_context_id_def
      less_nonzero_u32_def nz_new_def nz_get_inverse context_id.expand)

text \<open>Concrete identifiers, for evaluation.\<close>

definition aid :: "nat \<Rightarrow> actor_id" where
  "aid i = ActorId (nz_make (of_nat i + 1))"

definition cid :: "nat \<Rightarrow> context_id" where
  "cid i = ContextId (nz_make (of_nat i + 1))"

lemma of_nat_Suc_nonzero: "i < 2 ^ 32 - 1 \<Longrightarrow> (of_nat i + 1 :: u32) \<noteq> 0"
proof
  assume i: "i < 2 ^ 32 - 1" and "(of_nat i + 1 :: u32) = 0"
  then have "unat (of_nat i + 1 :: u32) = 0" by simp
  then show False using i by (simp add: unat_add_exact unat_of_nat_u32)
qed

lemma actor_index_aid [simp]: "i < 2 ^ 32 - 1 \<Longrightarrow> actor_as_index (aid i) = i"
  using of_nat_Suc_nonzero [of i]
  by (simp add: actor_as_index_def actor_as_u32_def aid_def unat_of_nat_u32)

lemma context_index_cid [simp]: "i < 2 ^ 32 - 1 \<Longrightarrow> context_as_index (cid i) = i"
  using of_nat_Suc_nonzero [of i]
  by (simp add: context_as_index_def context_as_u32_def cid_def unat_of_nat_u32)

lemma aid_eq [simp]: "i < 2 ^ 32 - 1 \<Longrightarrow> j < 2 ^ 32 - 1 \<Longrightarrow> aid i = aid j \<longleftrightarrow> i = j"
  by (metis actor_index_aid)

lemma cid_eq [simp]: "i < 2 ^ 32 - 1 \<Longrightarrow> j < 2 ^ 32 - 1 \<Longrightarrow> cid i = cid j \<longleftrightarrow> i = j"
  by (metis context_index_cid)

end
