(* ===== verification/Arena.thy ===== *)
theory Arena
  imports Alloc
begin

text \<open>
  The arena of \<open>arena.rs\<close>: one allocation per context that holds all of its actors.
  \<open>compute_space_required\<close> bounds the space for any start address, \<open>get_offsets\<close> places the
  actors once the address is known, \<open>at_offset\<close> hands out the bytes of one actor.

  The word-level code is first related to two functions on natural numbers, \<open>space_nat\<close> and
  \<open>place\<close>; the properties are proved of those and carried back.
\<close>

subsection \<open>The code\<close>

datatype offset = Offset (offset_val: u32)

instantiation offset :: linorder
begin

definition less_eq_offset :: "offset \<Rightarrow> offset \<Rightarrow> bool" where
  "less_eq_offset a b \<longleftrightarrow> offset_val a \<le> offset_val b"

definition less_offset :: "offset \<Rightarrow> offset \<Rightarrow> bool" where
  "less_offset a b \<longleftrightarrow> offset_val a < offset_val b"

instance
  by standard (auto simp: less_eq_offset_def less_offset_def offset.expand)

end

record arena =
  arena_data :: usize
  arena_capacity :: u32

text \<open>
  One round of the loop of \<open>compute_space_required\<close>: the padding (either the worst case over
  all start addresses, or exact where the alignment is already known), and the new known
  alignment and offset modulo it.
\<close>

definition space_pad :: "usize \<Rightarrow> usize \<Rightarrow> usize \<Rightarrow> usize \<Rightarrow> (usize \<times> usize \<times> usize) res" where
  "space_pad align res known_align curr_offset =
     (if align > known_align then
        rbind (usub align known_align) (\<lambda>d.
        rbind (usub known_align curr_offset) (\<lambda>g.
        rbind (urem g known_align) (\<lambda>r.
        rbind (uadd d r) (\<lambda>inc.
        rbind (uadd res inc) (\<lambda>res'.
        Ok (res', align, 0))))))
      else
        rbind (uadd curr_offset align) (\<lambda>s.
        rbind (usub s 1) (\<lambda>t.
        rbind (urem t align) (\<lambda>m.
        rbind (usub align m) (\<lambda>q.
        rbind (usub q 1) (\<lambda>padding.
        rbind (uadd res padding) (\<lambda>res'.
        rbind (uadd curr_offset padding) (\<lambda>c.
        rbind (urem c known_align) (\<lambda>c'.
        Ok (res', known_align, c'))))))))))"

fun space_loop :: "layout list \<Rightarrow> usize \<Rightarrow> usize \<Rightarrow> usize \<Rightarrow> usize res" where
  "space_loop [] res known_align curr_offset = Ok res"
| "space_loop (layout # layouts) res known_align curr_offset =
     rbind (space_pad (lay_align layout) res known_align curr_offset)
       (\<lambda>(res1, known_align1, curr_offset1).
         rbind (uadd res1 (lay_size layout)) (\<lambda>res2.
         rbind (uadd curr_offset1 (lay_size layout)) (\<lambda>c.
         rbind (urem c known_align1) (\<lambda>curr_offset2.
         space_loop layouts res2 known_align1 curr_offset2))))"

definition compute_space_required :: "layout list \<Rightarrow> u32 res" where
  "compute_space_required layouts = rbind (space_loop layouts 0 1 0) to_u32"

text \<open>
  \<open>addr.offset_from(start)\<close> is an \<open>isize\<close>; the conversion to \<open>u32\<close> fails where it is negative
  or too large.
\<close>

definition offset_from_u32 :: "usize \<Rightarrow> usize \<Rightarrow> u32 res" where
  "offset_from_u32 addr start =
     (let d = sint (addr - start)
      in if 0 \<le> d \<and> d < 2 ^ 32 then Ok (word_of_int d) else Fault UnwrapFailed)"

fun get_offsets_from :: "usize \<Rightarrow> usize \<Rightarrow> layout list \<Rightarrow> offset list res" where
  "get_offsets_from start cur [] = Ok []"
| "get_offsets_from start cur (layout # layouts) =
     (let addr = cur + align_offset cur (lay_align layout) in
      rbind (offset_from_u32 addr start) (\<lambda>offset.
      rbind (get_offsets_from start (addr + lay_size layout) layouts) (\<lambda>res.
      Ok (Offset offset # res))))"

definition get_offsets :: "usize \<Rightarrow> layout list \<Rightarrow> offset list res" where
  "get_offsets start layouts = get_offsets_from start start layouts"

definition arena_offset :: "arena \<Rightarrow> offset \<Rightarrow> usize" where
  "arena_offset a off = arena_data a + ucast (offset_val off)"

text \<open>The bytes of one actor, as the pair of its address and its length.\<close>

definition at_offset :: "arena \<Rightarrow> offset \<Rightarrow> layout \<Rightarrow> (usize \<times> usize) res" where
  "at_offset a off layout =
     (let ptr = arena_data a + ucast (offset_val off) in
      rbind (guard AssertFailed (align_offset ptr (lay_align layout) = 0)) (\<lambda>_.
      rbind (guard AssertFailed
        (arena_data a + ucast (arena_capacity a) > ptr + lay_size layout)) (\<lambda>_.
      Ok (ptr, lay_size layout))))"

definition from_layouts :: "(layout \<Rightarrow> usize) \<Rightarrow> layout list \<Rightarrow> (arena \<times> offset list) res" where
  "from_layouts alloc layouts =
     rbind (compute_space_required layouts) (\<lambda>capacity.
     rbind (unwrap (from_size_align (ucast capacity) 1)) (\<lambda>layout.
     rbind (alloc_call alloc layout) (\<lambda>ptr.
     rbind (unwrap (nonnull_new ptr)) (\<lambda>data.
     rbind (get_offsets ptr layouts) (\<lambda>offsets.
     Ok (\<lparr>arena_data = data, arena_capacity = capacity\<rparr>, offsets))))))"

text \<open>\<open>Drop\<close> frees the block with the layout rebuilt from the capacity.\<close>

definition arena_drop :: "layout \<Rightarrow> arena \<Rightarrow> unit res" where
  "arena_drop allocated_with a =
     rbind (unwrap (from_size_align (ucast (arena_capacity a)) 1)) (\<lambda>layout.
     dealloc_call allocated_with layout)"

subsection \<open>The same computations on natural numbers\<close>

type_synonym extent = "nat \<times> nat"  \<comment> \<open>size and alignment\<close>

definition extent :: "layout \<Rightarrow> extent" where
  "extent l = (unat (lay_size l), unat (lay_align l))"

fun space_nat :: "nat \<Rightarrow> nat \<Rightarrow> extent list \<Rightarrow> nat" where
  "space_nat ka co [] = 0"
| "space_nat ka co ((s, a) # es) =
     (if a > ka then (a - ka + (ka - co) mod ka) + s + space_nat a (s mod a) es
      else (a - co mod a) mod a + s + space_nat ka ((co + (a - co mod a) mod a + s) mod ka) es)"

fun place :: "nat \<Rightarrow> extent list \<Rightarrow> nat list" where
  "place c [] = []"
| "place c ((s, a) # es) = round_up c a # place (round_up c a + s) es"

fun place_end :: "nat \<Rightarrow> extent list \<Rightarrow> nat" where
  "place_end c [] = c"
| "place_end c ((s, a) # es) = place_end (round_up c a + s) es"

fun pow2_aligned :: "extent list \<Rightarrow> bool" where
  "pow2_aligned [] = True"
| "pow2_aligned ((s, a) # es) = ((\<exists>k. a = 2 ^ k) \<and> pow2_aligned es)"

lemma pow2_aligned_extent: "\<forall>l \<in> set ls. wf_layout l \<Longrightarrow> pow2_aligned (map extent ls)"
  by (induction ls) (auto simp: extent_def wf_layout_align)

lemma pow2_dvd: "(a :: nat) = 2 ^ j \<Longrightarrow> b = 2 ^ k \<Longrightarrow> a \<le> b \<Longrightarrow> a dvd b"
  by (auto intro: le_imp_power_dvd dest: power_le_imp_le_exp [rotated])

text \<open>Rounding up pads by at most what the loop charges for it.\<close>

lemma round_up_known:
  assumes "a dvd ka"
  shows "round_up c a = c + (a - c mod ka mod a) mod a"
  using assms by (simp add: round_up_def mod_mod_cancel)

lemma round_up_unknown:
  assumes "ka dvd a" "0 < ka" "ka < a"
  shows "round_up c a \<le> c + (a - ka + (ka - c mod ka) mod ka)"
proof (cases "c mod a = 0")
  case True
  then show ?thesis by (simp add: round_up_def)
next
  case False
  let ?x = "c mod a"
  have x: "?x mod ka = c mod ka" using assms by (simp add: mod_mod_cancel)
  have "?x < a" using assms by simp
  have "a - ?x \<le> a - ka + (ka - c mod ka) mod ka"
  proof (cases "c mod ka = 0")
    case True
    with x have "ka dvd ?x" by (simp add: mod_eq_0_iff_dvd)
    moreover have "0 < ?x" using False by (simp only: neq0_conv)
    ultimately have "ka \<le> ?x" by (rule dvd_imp_le)
    then show ?thesis by simp
  next
    case c: False
    have "c mod ka \<le> ?x" using x by (metis mod_less_eq_dividend)
    moreover have "(ka - c mod ka) mod ka = ka - c mod ka" using c assms by simp
    moreover have "c mod ka < ka" using assms by simp
    ultimately show ?thesis using assms by linarith
  qed
  moreover have "(a - ?x) mod a = a - ?x" using False \<open>?x < a\<close> by simp
  ultimately show ?thesis by (simp add: round_up_def)
qed

lemma round_up_mod_0: "0 < a \<Longrightarrow> round_up c a mod a = 0"
  using round_up_dvd by (simp add: mod_eq_0_iff_dvd)

text \<open>
  The loop's invariant, on natural numbers: \<open>co\<close> is the address modulo the known alignment
  \<open>ka\<close>, and from there the actors still to come take at most \<open>space_nat ka co\<close> bytes.
\<close>

lemma place_end_le:
  assumes "pow2_aligned es" and "ka = 2 ^ k" and "c mod ka = co"
  shows "place_end c es \<le> c + space_nat ka co es"
  using assms
proof (induction es arbitrary: c ka co k)
  case (Cons e es)
  obtain s a where e: "e = (s, a)" by (cases e)
  with Cons.prems obtain j where a: "a = 2 ^ j" and es: "pow2_aligned es" by auto
  have pos: "0 < a" "0 < ka" using a Cons.prems by auto
  show ?case
  proof (cases "a > ka")
    case True
    then have "ka dvd a" using pow2_dvd [OF Cons.prems(2) a] by simp
    from round_up_unknown [OF this pos(2) True, of c]
    have pad: "round_up c a \<le> c + (a - ka + (ka - co) mod ka)" using Cons.prems(3) by simp
    have "(round_up c a + s) mod a = s mod a"
      using round_up_mod_0 [OF pos(1), of c] by (metis add.left_neutral mod_add_left_eq)
    from Cons.IH [OF es a this]
    show ?thesis using e True pad by simp
  next
    case False
    then have "a dvd ka" using pow2_dvd [OF a Cons.prems(2)] by simp
    from round_up_known [OF this, of c]
    have pad: "round_up c a = c + (a - co mod a) mod a" using Cons.prems(3) by simp
    have "(round_up c a + s) mod ka = (co + (a - co mod a) mod a + s) mod ka"
      using pad Cons.prems(3) by (metis mod_add_left_eq add.assoc)
    from Cons.IH [OF es Cons.prems(2) this]
    show ?thesis using e False pad by simp
  qed
qed simp

text \<open>What the placement itself guarantees: order, disjointness, alignment, bounds.\<close>

lemma place_length [simp]: "length (place c es) = length es"
  by (induction es arbitrary: c) auto

lemma place_end_ge: "c \<le> place_end c es"
proof (induction es arbitrary: c)
  case (Cons e es)
  obtain s a where e: "e = (s, a)" by (cases e)
  have "c \<le> round_up c a + s" using round_up_ge [of c a] by simp
  also have "\<dots> \<le> place_end (round_up c a + s) es" by (rule Cons.IH)
  finally show ?case using e by simp
qed simp

lemma place_ge: "i < length es \<Longrightarrow> c \<le> place c es ! i"
proof (induction es arbitrary: c i)
  case (Cons e es)
  obtain s a where e: "e = (s, a)" by (cases e)
  show ?case
  proof (cases i)
    case 0
    then show ?thesis using e round_up_ge [of c a] by simp
  next
    case (Suc j)
    then show ?thesis using e Cons.prems Cons.IH [of j "round_up c a + s"] round_up_ge [of c a] by simp
  qed
qed simp

lemma place_in_bounds: "i < length es \<Longrightarrow> place c es ! i + fst (es ! i) \<le> place_end c es"
proof (induction es arbitrary: c i)
  case (Cons e es)
  obtain s a where e: "e = (s, a)" by (cases e)
  show ?case using e Cons.prems Cons.IH place_end_ge [of "round_up c a + s" es]
    by (cases i) auto
qed simp

lemma place_end_last:
  "es \<noteq> [] \<Longrightarrow> place_end c es = place c es ! (length es - 1) + fst (es ! (length es - 1))"
proof (induction es arbitrary: c)
  case (Cons e es)
  obtain s a where e: "e = (s, a)" by (cases e)
  show ?case using e Cons.IH by (cases es) (auto simp: nth_Cons')
qed simp

lemma place_aligned: "pow2_aligned es \<Longrightarrow> i < length es \<Longrightarrow> snd (es ! i) dvd place c es ! i"
proof (induction es arbitrary: c i)
  case (Cons e es)
  obtain s a where e: "e = (s, a)" by (cases e)
  with Cons.prems have "0 < a" by auto
  then show ?case using e Cons.prems Cons.IH round_up_dvd [of a c] by (cases i) auto
qed simp

lemma place_ordered:
  "i < j \<Longrightarrow> j < length es \<Longrightarrow> place c es ! i + fst (es ! i) \<le> place c es ! j"
proof (induction es arbitrary: c i j)
  case (Cons e es)
  obtain s a where e: "e = (s, a)" by (cases e)
  from Cons.prems obtain j' where j: "j = Suc j'" by (cases j) auto
  show ?case
  proof (cases i)
    case 0
    then show ?thesis using e j Cons.prems place_ge [of j' es "round_up c a + s"] by simp
  next
    case (Suc i')
    then show ?thesis using e j Cons.prems Cons.IH [of i' j' "round_up c a + s"] by simp
  qed
qed simp

subsection \<open>The bound is attained\<close>

lemma round_up_unique:
  assumes "a dvd d" "c \<le> d" "d < c + a"
  shows "round_up c a = d"
proof -
  let ?r = "round_up c a"
  have a: "0 < a" using assms by simp
  have lt: "?r < c + a" using a by (simp add: round_up_def)
  have "a dvd ?r" using round_up_dvd [OF a] .
  then obtain m n where m: "?r = a * m" and n: "d = a * n"
    using assms(1) by (auto elim!: dvdE)
  have "a * m < a * Suc n" using m n lt assms(2) by simp
  moreover have "a * n < a * Suc m" using m n assms(3) round_up_ge [of c a] by simp
  ultimately have "m = n" using mult_less_cancel1 [of a m "Suc n"] mult_less_cancel1 [of a n "Suc m"]
    by linarith
  with m n show ?thesis by simp
qed

lemma mod_cancel:
  fixes x y g m :: nat
  assumes "(x + g) mod m = (y + g) mod m"
  shows "x mod m = y mod m"
proof -
  have "int (x + g) mod int m = int (y + g) mod int m"
    using assms by (metis zmod_int)
  then have "(int (x + g) - int g) mod int m = (int (y + g) - int g) mod int m"
    by (rule mod_diff_cong) simp
  then show ?thesis by (simp flip: zmod_int)
qed

text \<open>Some start address, beyond any bound \<open>B\<close>, needs every byte that \<open>space_nat\<close> charges.\<close>

lemma place_end_attained:
  assumes "pow2_aligned es" and "ka = 2 ^ k" and "co < ka"
  shows "\<exists>c \<ge> B. c mod ka = co \<and> place_end c es = c + space_nat ka co es"
  using assms
proof (induction es arbitrary: ka co k B)
  case Nil
  have "B \<le> B * ka + co" using Nil by (simp add: trans_le_add1)
  moreover have "(B * ka + co) mod ka = co" using Nil by simp
  ultimately show ?case by (intro exI [of _ "B * ka + co"]) simp
next
  case (Cons e es)
  obtain s a where e: "e = (s, a)" by (cases e)
  with Cons.prems obtain j where a: "a = 2 ^ j" and es: "pow2_aligned es" by auto
  have pos: "0 < a" "0 < ka" using a Cons.prems by auto
  show ?case
  proof (cases "a > ka")
    case True
    let ?g = "(ka - co) mod ka"
    let ?pad = "a - ka + ?g"
    have ka_a: "ka dvd a" using pow2_dvd [OF Cons.prems(2) a] True by simp
    have "s mod a < a" using pos by simp
    from Cons.IH [OF es a this, of "B + ?pad + s"] obtain c'
      where c': "B + ?pad + s \<le> c'" "c' mod a = s mod a"
        "place_end c' es = c' + space_nat a (s mod a) es" by blast
    define c where "c = c' - s - ?pad"
    have split: "c' = c + ?pad + s" and "B \<le> c" using c' c_def by auto
    have "(c + ?pad + s) mod a = (0 + s) mod a" using c'(2) split by simp
    then have dvd: "a dvd c + ?pad" by (metis mod_cancel mod_0 mod_eq_0_iff_dvd)
    have "?pad < a" using pos True mod_less_divisor [OF pos(2), of "ka - co"] by linarith
    with dvd have up: "round_up c a = c + ?pad" by (intro round_up_unique) auto
    have "ka dvd a - ka" using ka_a by (simp add: dvd_diff_nat)
    moreover have "ka dvd (c + ?g) + (a - ka)" using dvd ka_a by (metis dvd_trans add.assoc add.commute)
    ultimately have "ka dvd c + ?g" by (simp add: dvd_add_left_iff)
    moreover have "(co + ?g) mod ka = 0" using Cons.prems(3) by (simp add: mod_simps)
    ultimately have "(c + ?g) mod ka = (co + ?g) mod ka" by (simp add: mod_eq_0_iff_dvd)
    then have "c mod ka = co" using mod_cancel Cons.prems(3) by (metis mod_less)
    moreover have "place_end c (e # es) = c + space_nat ka co (e # es)"
    proof -
      have "place_end c (e # es) = place_end c' es" by (simp only: e place_end.simps up split)
      also have "\<dots> = c + (?pad + s + space_nat a (s mod a) es)"
        by (simp only: c'(3)) (simp only: split add.assoc)
      also have "\<dots> = c + space_nat ka co (e # es)" using e True by simp
      finally show ?thesis .
    qed
    ultimately show ?thesis using \<open>B \<le> c\<close> by blast
  next
    case False
    have a_ka: "a dvd ka" using pow2_dvd [OF a Cons.prems(2)] False by simp
    let ?p = "(a - co mod a) mod a"
    let ?co = "(co + ?p + s) mod ka"
    have "?co < ka" using pos by simp
    from Cons.IH [OF es Cons.prems(2) this, of "B + ?p + s"] obtain c'
      where c': "B + ?p + s \<le> c'" "c' mod ka = ?co"
        "place_end c' es = c' + space_nat ka ?co es" by blast
    define c where "c = c' - s - ?p"
    have split: "c' = c + (?p + s)" and "B \<le> c" using c' c_def by auto
    have "(c + (?p + s)) mod ka = (co + (?p + s)) mod ka" using c'(2) split by (simp add: add.assoc)
    then have c: "c mod ka = co" using mod_cancel Cons.prems(3) by (metis mod_less)
    then have "round_up c a = c + ?p" using round_up_known [OF a_ka, of c] by simp
    then have "place_end c (e # es) = c + space_nat ka co (e # es)"
      using e split c'(3) False by (simp add: add.assoc)
    with c \<open>B \<le> c\<close> show ?thesis by blast
  qed
qed

text \<open>Moving the start address by a common multiple of the alignments moves everything.\<close>

lemma round_up_shift: "a dvd m \<Longrightarrow> round_up (c + m) a = round_up c a + m"
  by (auto simp: round_up_def elim!: dvdE)

lemma place_end_shift: "\<forall>e \<in> set es. snd e dvd m \<Longrightarrow> place_end (c + m) es = place_end c es + m"
proof (induction es arbitrary: c)
  case (Cons e es)
  obtain s a where e: "e = (s, a)" by (cases e)
  with Cons.prems have "round_up (c + m) a + s = (round_up c a + s) + m"
    by (simp add: round_up_shift)
  then show ?case using e Cons by (simp only: place_end.simps) simp
qed simp

lemma place_end_shift_mult:
  "\<forall>e \<in> set es. snd e dvd m \<Longrightarrow> place_end (c + q * m) es = place_end c es + q * m"
  by (rule place_end_shift) auto

subsection \<open>The word-level loop computes the same bound\<close>

lemma uadd_cases:
  "uadd x y = (if unat x + n < 2 ^ LENGTH('w) then Ok (x + of_nat n) else Fault ArithOverflow)"
  if "unat y = n" for x y :: "'w::len word"
  using that by (auto simp: uadd_def)

lemma exact_padding:
  assumes "0 < a"
  shows "a - (co + a - 1) mod a - 1 = (a - co mod a) mod (a :: nat)"
proof (cases "co mod a = 0")
  case True
  then have "(co + a - 1) mod a = (a - 1) mod a" using assms
    by (metis Nat.add_diff_assoc One_nat_def Suc_leI add.left_neutral mod_add_left_eq)
  then show ?thesis using True assms by simp
next
  case False
  have "co + a - 1 = (co - 1) + a" using False by (cases co) auto
  then have "(co + a - 1) mod a = (co - 1) mod a" by simp
  also have "\<dots> = co mod a - 1"
  proof -
    have eq: "a * (co div a) + co mod a = co" by simp
    then have "co - 1 = a * (co div a) + (co mod a - 1)" using False by linarith
    then have "(co - 1) mod a = (co mod a - 1) mod a" by simp
    moreover have "co mod a - 1 < a" using assms by (simp add: less_imp_diff_less)
    ultimately show ?thesis by simp
  qed
  finally show ?thesis using False assms by simp
qed

lemma space_pad_unknown:
  assumes "align > known" and "unat co < unat known" and "unat align \<le> 2 ^ 63"
  defines "p \<equiv> unat align - unat known + (unat known - unat co) mod unat known"
  shows "space_pad align res known co =
    (if unat res + p < 2 ^ 64 then Ok (res + of_nat p, align, 0) else Fault ArithOverflow)"
proof -
  have lt: "unat known < unat align" using assms(1) by (simp add: word_less_nat_alt)
  have nz: "known \<noteq> 0" using assms(2) by auto
  let ?d = "align - known" and ?r = "(known - co) mod known"
  have d: "unat ?d = unat align - unat known" using lt by (simp add: unat_sub_exact)
  have r: "unat ?r = (unat known - unat co) mod unat known"
    using assms(2) by (simp add: unat_mod_exact unat_sub_exact)
  have "unat ?r < unat known" using r assms(2) by simp
  then have sum: "unat ?d + unat ?r < 2 ^ 64" using d lt assms(3) by simp
  then have inc: "uadd ?d ?r = Ok (?d + ?r)" "unat (?d + ?r) = p"
    using d r p_def by (simp_all add: uadd_def unat_add_exact)
  show ?thesis
    using assms(1,2) lt nz inc(1) uadd_cases [OF inc(2), of res]
    by (simp add: space_pad_def usub_Ok urem_Ok)
qed

lemma space_pad_known:
  assumes "\<not> align > known" and "unat co < unat known" and "unat known \<le> 2 ^ 63" and "0 < unat align"
  defines "p \<equiv> (unat align - unat co mod unat align) mod unat align"
  shows "space_pad align res known co =
    (if unat res + p < 2 ^ 64
     then Ok (res + of_nat p, known, of_nat ((unat co + p) mod unat known))
     else Fault ArithOverflow)"
proof -
  have le: "unat align \<le> unat known" using assms(1) by (simp add: word_le_nat_alt not_less)
  have nz: "known \<noteq> 0" "align \<noteq> 0" using assms(2,4) by auto
  let ?s = "co + align" and ?m = "(co + align - 1) mod align" and ?pad = "align - (co + align - 1) mod align - 1"
  have s: "unat ?s = unat co + unat align" using le assms(2,3) by (simp add: unat_add_exact)
  have t: "unat (?s - 1) = unat co + unat align - 1" using s assms(4) by (simp add: unat_sub_exact)
  have m: "unat ?m = (unat co + unat align - 1) mod unat align" using t by (simp add: unat_mod_exact)
  have mlt: "unat ?m < unat align" using m assms(4) by simp
  have q: "unat (align - ?m) = unat align - unat ?m" using mlt by (simp add: unat_sub_exact)
  have q1: "unat (1 :: usize) \<le> unat (align - ?m)" using q mlt by simp
  have pad: "unat ?pad = p"
    using q q1 m exact_padding [OF assms(4), of "unat co"] p_def by (simp add: unat_sub_exact)
  have plt: "p < unat align" using assms(4) p_def by simp
  have c: "unat co + unat ?pad < 2 ^ 64" using pad plt le assms(2,3) by simp
  have "unat ((co + ?pad) mod known) = (unat co + p) mod unat known"
    using c pad by (simp add: unat_mod_exact unat_add_exact)
  then have c': "(co + ?pad) mod known = of_nat ((unat co + p) mod unat known)"
    by (metis of_nat_unat ucast_id)
  have ops: "uadd co align = Ok ?s" "usub ?s 1 = Ok (?s - 1)" "urem (?s - 1) align = Ok ?m"
      "usub align ?m = Ok (align - ?m)" "usub (align - ?m) 1 = Ok ?pad"
      "uadd co ?pad = Ok (co + ?pad)"
      "urem (co + ?pad) known = Ok (of_nat ((unat co + p) mod unat known))"
    using s q1 mlt c nz le assms(2,3,4) c'
    by (simp_all add: uadd_def usub_Ok urem_Ok)
  show ?thesis using assms(1) ops uadd_cases [OF pad, of res]
    by (simp only: space_pad_def if_False rbind_Ok) (simp add: ops)
qed

text \<open>The rest of a round, after the padding: the size is added and the offset reduced.\<close>

lemma space_size_step:
  fixes co known sz :: usize
  assumes "unat co < unat known" "unat known \<le> 2 ^ 63" "unat sz \<le> 2 ^ 63"
  shows "uadd co sz = Ok (co + sz)" "urem (co + sz) known = Ok ((co + sz) mod known)"
    "unat ((co + sz) mod known) = (unat co + unat sz) mod unat known"
    "unat ((co + sz) mod known) < unat known"
proof -
  have lt: "unat co + unat sz < 2 ^ 64" using assms by simp
  then show "uadd co sz = Ok (co + sz)" by (simp add: uadd_def)
  show "urem (co + sz) known = Ok ((co + sz) mod known)" using assms by (intro urem_Ok) auto
  show eq: "unat ((co + sz) mod known) = (unat co + unat sz) mod unat known"
    using lt by (simp add: unat_mod_exact unat_add_exact)
  show "unat ((co + sz) mod known) < unat known" using eq assms(1) by simp
qed

lemma unat_add_of_nat: "unat res + n < 2 ^ 64 \<Longrightarrow> unat (res + of_nat n) = unat res + n" for res :: usize
  by (simp add: unat_add_exact take_bit_nat_eq_self unat_of_nat)

lemma space_loop_round:
  assumes pad: "space_pad (lay_align l) res known co =
      (if unat res + p < 2 ^ 64 then Ok (res + of_nat p, known', co') else Fault ArithOverflow)"
    and co': "unat co' < unat known'" "unat known' \<le> 2 ^ 63" "unat (lay_size l) \<le> 2 ^ 63"
    and IH: "\<And>res co. unat co < unat known' \<Longrightarrow> space_loop ls res known' co =
      (if unat res + space_nat (unat known') (unat co) es < 2 ^ 64
       then Ok (res + of_nat (space_nat (unat known') (unat co) es)) else Fault ArithOverflow)"
    and n: "n = p + unat (lay_size l) +
      space_nat (unat known') ((unat co' + unat (lay_size l)) mod unat known') es"
  shows "space_loop (l # ls) res known co =
    (if unat res + n < 2 ^ 64 then Ok (res + of_nat n) else Fault ArithOverflow)"
proof (cases "unat res + p + unat (lay_size l) < 2 ^ 64")
  case False
  then show ?thesis using pad n unat_add_of_nat [of res p] by (auto simp: uadd_def)
next
  case True
  let ?co = "(co' + lay_size l) mod known'" and ?res = "res + of_nat p + lay_size l"
  note step = space_size_step [OF co']
  have res: "unat ?res = unat res + p + unat (lay_size l)"
    using True unat_add_of_nat [of res p] by (simp add: unat_add_exact)
  have "space_loop (l # ls) res known co = space_loop ls ?res known' ?co"
    using True unat_add_of_nat [of res p] pad step(1,2) by (simp add: uadd_def)
  also have "\<dots> = (if unat res + n < 2 ^ 64 then Ok (res + of_nat n) else Fault ArithOverflow)"
    using IH [OF step(4)] res step(3) n by (simp add: add.assoc)
  finally show ?thesis .
qed

lemma space_loop_exact:
  assumes "\<forall>l \<in> set ls. wf_layout l" "unat known \<le> 2 ^ 63" "unat co < unat known"
  shows "space_loop ls res known co =
    (if unat res + space_nat (unat known) (unat co) (map extent ls) < 2 ^ 64
     then Ok (res + of_nat (space_nat (unat known) (unat co) (map extent ls)))
     else Fault ArithOverflow)"
  using assms
proof (induction ls arbitrary: res known co)
  case Nil
  then show ?case using unat_less_2_64 [of res] by simp
next
  case (Cons l ls)
  have l: "unat (lay_size l) \<le> 2 ^ 63" "unat (lay_align l) \<le> 2 ^ 63" "0 < unat (lay_align l)"
    using Cons.prems(1) wf_layout_bounds [of l] wf_layout_pos [of l] by auto
  have ls: "\<forall>l \<in> set ls. wf_layout l" using Cons.prems by simp
  show ?case
  proof (cases "lay_align l > known")
    case True
    show ?thesis
      by (rule space_loop_round [OF space_pad_unknown [OF True Cons.prems(3) l(2)]
            _ l(2) l(1) Cons.IH [OF ls l(2)]])
        (use l True in \<open>simp_all add: extent_def word_less_nat_alt\<close>)
  next
    case False
    have known: "0 < unat known" using Cons.prems by simp
    have small: "x mod unat known < 2 ^ 64" for x
      using known Cons.prems(2) mod_less_divisor [OF known, of x] by simp
    show ?thesis
      by (rule space_loop_round [OF space_pad_known [OF False Cons.prems(3,2) l(3)]
            _ Cons.prems(2) l(1) Cons.IH [OF ls Cons.prems(2)]])
        (use l False known small in
          \<open>simp_all add: extent_def word_less_nat_alt unat_of_nat take_bit_nat_eq_self mod_simps\<close>)
  qed
qed

subsection \<open>What the code computes\<close>

text \<open>The exact space bound of a list of layouts, and the extents it is about.\<close>

definition space_bound :: "layout list \<Rightarrow> nat" where
  "space_bound layouts = space_nat 1 0 (map extent layouts)"

lemma compute_space_exact:
  assumes "\<forall>l \<in> set ls. wf_layout l"
  shows "compute_space_required ls =
    (if space_bound ls < 2 ^ 32 then Ok (of_nat (space_bound ls))
     else if space_bound ls < 2 ^ 64 then Fault UnwrapFailed else Fault ArithOverflow)"
proof -
  let ?n = "space_bound ls"
  have loop: "space_loop ls 0 1 0 = (if ?n < 2 ^ 64 then Ok (of_nat ?n) else Fault ArithOverflow)"
    using space_loop_exact [OF assms, of 1 0 0] by (simp add: space_bound_def)
  show ?thesis
  proof (cases "?n < 2 ^ 64")
    case True
    have conv: "to_u32 (of_nat ?n) = (if ?n < 2 ^ 32 then Ok (of_nat ?n) else Fault UnwrapFailed)"
      by (rule to_u32_of_nat [OF True])
    show ?thesis using True loop conv
      by (simp only: compute_space_required_def rbind_Ok if_True simp_thms split: if_split)
  next
    case False
    then have "\<not> ?n < 2 ^ 32" by simp
    then show ?thesis using False loop by (simp add: compute_space_required_def)
  qed
qed

lemma compute_space_Ok:
  assumes "\<forall>l \<in> set ls. wf_layout l"
  shows "compute_space_required ls = Ok c \<longleftrightarrow> unat c = space_bound ls"
proof
  assume "compute_space_required ls = Ok c"
  then show "unat c = space_bound ls"
    using compute_space_exact [OF assms]
    by (auto simp: unat_of_nat take_bit_nat_eq_self split: if_splits)
next
  assume c: "unat c = space_bound ls"
  then have "space_bound ls < 2 ^ 32" using unat_less_2_32 [of c] by simp
  moreover have "of_nat (space_bound ls) = c" using c by (metis of_nat_unat ucast_id)
  ultimately show "compute_space_required ls = Ok c" using compute_space_exact [OF assms] by simp
qed

lemma offset_from_u32_exact:
  assumes "unat start \<le> unat addr" "unat addr - unat start < 2 ^ 32"
  shows "offset_from_u32 addr start = Ok (of_nat (unat addr - unat start))"
proof -
  let ?d = "addr - start"
  have d: "unat ?d = unat addr - unat start" using assms(1) by (simp only: unat_sub_exact)
  then have u: "uint ?d = int (unat addr - unat start)" by (simp only: uint_nat)
  then have range: "0 \<le> uint ?d" "uint ?d < 2 ^ 32" using assms(2) by simp_all
  have "signed_take_bit 63 (uint ?d) = uint ?d"
    by (rule signed_take_bit_int_eq_self [OF order_trans [OF _ range(1)] less_trans [OF range(2)]])
      simp_all
  then have "sint ?d = uint ?d" by (simp add: sint_uint)
  with range u show ?thesis by (simp add: offset_from_u32_def Let_def)
qed

lemma get_offsets_from_exact:
  assumes "\<forall>l \<in> set ls. wf_layout l" "unat start \<le> unat cur"
    and "place_end (unat cur) (map extent ls) < 2 ^ 64"
    and "place_end (unat cur) (map extent ls) - unat start < 2 ^ 32"
  shows "get_offsets_from start cur ls =
    Ok (map (\<lambda>a. Offset (of_nat (a - unat start))) (place (unat cur) (map extent ls)))"
  using assms
proof (induction ls arbitrary: cur)
  case (Cons l ls)
  let ?a = "unat (lay_align l)" and ?s = "unat (lay_size l)"
  let ?up = "round_up (unat cur) ?a"
  let ?addr = "cur + align_offset cur (lay_align l)"
  have l: "is_pow2 (lay_align l)" using Cons.prems by (simp add: wf_layout_def)
  have le_end: "?up + ?s \<le> place_end (unat cur) (map extent (l # ls))"
    using place_end_ge by (simp add: extent_def [of l])
  have "unat (align_offset cur (lay_align l)) = ?up - unat cur"
    using unat_align_offset [OF l] by (simp add: round_up_def)
  then have "unat cur + unat (align_offset cur (lay_align l)) = ?up"
    using round_up_ge [of "unat cur" ?a] by simp
  then have addr: "unat ?addr = ?up" using le_end Cons.prems(3) by (simp add: unat_add_exact)
  have next_addr: "unat (?addr + lay_size l) = ?up + ?s"
    using addr le_end Cons.prems(3) by (simp add: unat_add_exact)
  have start: "unat start \<le> ?up" using Cons.prems(2) round_up_ge le_trans by blast
  have off: "offset_from_u32 ?addr start = Ok (of_nat (?up - unat start))"
    using offset_from_u32_exact [of start ?addr] addr start le_end Cons.prems(4) by simp
  have "get_offsets_from start (?addr + lay_size l) ls =
      Ok (map (\<lambda>a. Offset (of_nat (a - unat start))) (place (?up + ?s) (map extent ls)))"
    using Cons.IH [of "?addr + lay_size l"] Cons.prems next_addr start
    by (simp add: extent_def [of l])
  then show ?case using off by (simp add: Let_def extent_def [of l])
qed simp

text \<open>
  \<open>from_layouts\<close> with a block at \<open>p\<close>: the capacity is the bound, and the actors lie where
  \<open>place\<close> puts them. The placement never leaves the block, so \<open>get_offsets\<close> cannot fail.
\<close>

lemma from_size_align_1:
  "from_size_align (ucast c) 1 = Some \<lparr>lay_size = ucast c, lay_align = 1\<rparr>" for c :: u32
proof -
  have "unat c < 2 ^ 32" by (rule unat_less_2_32)
  then show ?thesis by (simp add: from_size_align_def wf_layout_def Let_def)
qed

abbreviation arena_layout :: "u32 \<Rightarrow> layout" where
  "arena_layout c \<equiv> \<lparr>lay_size = ucast c, lay_align = 1\<rparr>"

definition placed :: "usize \<Rightarrow> layout list \<Rightarrow> offset list" where
  "placed p layouts =
     map (\<lambda>a. Offset (of_nat (a - unat p))) (place (unat p) (map extent layouts))"

lemma place_end_space_bound:
  "\<forall>l \<in> set ls. wf_layout l \<Longrightarrow> place_end c (map extent ls) \<le> c + space_bound ls"
  using place_end_le [OF pow2_aligned_extent, of ls 1 0 c 0] by (simp add: space_bound_def)

lemma get_offsets_exact:
  assumes "\<forall>l \<in> set ls. wf_layout l" "space_bound ls < 2 ^ 32" "unat p + space_bound ls < 2 ^ 64"
  shows "get_offsets p ls = Ok (placed p ls)"
  using get_offsets_from_exact [of ls p p] place_end_space_bound [OF assms(1), of "unat p"] assms
  by (simp add: get_offsets_def placed_def)

lemma from_layouts_exact:
  assumes wf: "\<forall>l \<in> set ls. wf_layout l"
    and cap: "compute_space_required ls = Ok c" "c \<noteq> 0"
    and alloc: "alloc_ok alloc (arena_layout c)"
  shows "from_layouts alloc ls =
    Ok (\<lparr>arena_data = alloc (arena_layout c), arena_capacity = c\<rparr>, placed (alloc (arena_layout c)) ls)"
proof -
  let ?p = "alloc (arena_layout c)"
  have bound: "space_bound ls = unat c" using cap(1) compute_space_Ok [OF wf] by simp
  have "(ucast c :: usize) \<noteq> 0" using cap(2) by (metis unat_eq_zero unat_ucast_usize)
  moreover have "?p \<noteq> 0" "unat ?p + unat c < 2 ^ 64" using alloc by (simp_all add: alloc_ok_def)
  moreover have "get_offsets ?p ls = Ok (placed ?p ls)"
    using get_offsets_exact [OF wf] bound unat_less_2_32 [of c] calculation by simp
  ultimately show ?thesis
    using cap(1) by (simp add: from_layouts_def from_size_align_1 alloc_call_def nonnull_new_def)
qed

lemma placed_length [simp]: "length (placed p ls) = length ls"
  by (simp add: placed_def)

text \<open>Reading an offset back: nothing is lost in the conversion to \<open>u32\<close>.\<close>

lemma placed_unat:
  assumes "\<forall>l \<in> set ls. wf_layout l" "space_bound ls < 2 ^ 32" "i < length ls"
  shows "unat p + unat (offset_val (placed p ls ! i)) = place (unat p) (map extent ls) ! i"
proof -
  let ?a = "place (unat p) (map extent ls) ! i"
  have ge: "unat p \<le> ?a" using place_ge [of i "map extent ls" "unat p"] assms by simp
  have "?a \<le> unat p + space_bound ls"
    using place_in_bounds [of i "map extent ls" "unat p"] place_end_space_bound [OF assms(1), of "unat p"]
      assms(3) by simp
  then have "?a - unat p < 2 ^ 32" using assms(2) by linarith
  moreover have "offset_val (placed p ls ! i) = of_nat (?a - unat p)"
    using assms(3) by (simp add: placed_def del: of_nat_diff)
  ultimately have "unat (offset_val (placed p ls ! i)) = ?a - unat p"
    by (simp only: unat_of_nat_u32)
  then show ?thesis using ge by simp
qed

text \<open>
  \<open>at_offset\<close> on a placed actor: the alignment check passes, and the bounds check, being
  strict, passes exactly when the actor ends before the arena's last byte.
\<close>

lemma at_offset_placed:
  assumes wf: "\<forall>l \<in> set ls. wf_layout l" and c: "unat c = space_bound ls"
    and p: "unat p + unat c < 2 ^ 64" and i: "i < length ls"
  shows "at_offset \<lparr>arena_data = p, arena_capacity = c\<rparr> (placed p ls ! i) (ls ! i) =
    (if unat (offset_val (placed p ls ! i)) + unat (lay_size (ls ! i)) < unat c
     then Ok (p + ucast (offset_val (placed p ls ! i)), lay_size (ls ! i)) else Fault AssertFailed)"
proof -
  let ?o = "offset_val (placed p ls ! i)" and ?l = "ls ! i"
  let ?ptr = "p + ucast ?o :: usize" and ?es = "map extent ls"
  have small: "space_bound ls < 2 ^ 32" using c unat_less_2_32 [of c] by simp
  have eq: "unat p + unat ?o = place (unat p) ?es ! i" by (rule placed_unat [OF wf small i])
  have fits: "place (unat p) ?es ! i + unat (lay_size ?l) \<le> unat p + unat c"
    using place_in_bounds [of i ?es "unat p"] place_end_space_bound [OF wf, of "unat p"] i c
    by (simp add: extent_def)
  have ptr: "unat ?ptr = unat p + unat ?o"
    using fits eq p by (simp add: unat_add_exact)
  then have e: "unat (?ptr + lay_size ?l) = unat p + unat ?o + unat (lay_size ?l)"
    using fits eq p by (simp add: unat_add_exact)
  have lim: "unat (p + ucast c :: usize) = unat p + unat c" using p by (simp add: unat_add_exact)
  have "unat (lay_align ?l) dvd unat ?ptr"
    using place_aligned [OF pow2_aligned_extent [OF wf], of i "unat p"] i eq ptr
    by (simp add: extent_def)
  moreover have "is_pow2 (lay_align ?l)" using wf i by (simp add: wf_layout_def)
  ultimately have "align_offset ?ptr (lay_align ?l) = 0" by (simp add: align_offset_0_iff)
  moreover have "(p + ucast c > ?ptr + lay_size ?l) \<longleftrightarrow> unat ?o + unat (lay_size ?l) < unat c"
    using e lim by (simp add: word_less_nat_alt)
  ultimately show ?thesis by (simp add: at_offset_def)
qed

text \<open>The start addresses that need the whole bound are real addresses: not null, no wrap.\<close>

lemma space_bound_attained:
  assumes wf: "\<forall>l \<in> set ls. wf_layout l" and small: "space_bound ls < 2 ^ 32"
  shows "\<exists>p :: usize. p \<noteq> 0 \<and> unat p + space_bound ls < 2 ^ 64 \<and>
    place_end (unat p) (map extent ls) = unat p + space_bound ls"
proof -
  let ?M = "2 ^ 63 :: nat" and ?es = "map extent ls"
  have dvd: "\<forall>e \<in> set ?es. snd e dvd ?M"
  proof
    fix e assume "e \<in> set ?es"
    then obtain l where l: "wf_layout l" "snd e = unat (lay_align l)" using wf by (auto simp: extent_def)
    then obtain k where k: "unat (lay_align l) = 2 ^ k" using wf_layout_align by blast
    have "(2 :: nat) ^ k \<le> 2 ^ 63" using wf_layout_bounds [OF l(1)] k by linarith
    then have "(2 :: nat) ^ k dvd 2 ^ 63" by (rule pow2_dvd [OF refl refl])
    then show "snd e dvd ?M" using l(2) k by simp
  qed
  obtain c where c: "place_end c ?es = c + space_bound ls"
    using place_end_attained [OF pow2_aligned_extent [OF wf], of 1 0 0 0] by (auto simp: space_bound_def)
  define d where "d = c mod ?M"
  define r where "r = (if d = 0 then ?M else d)"
  have split: "c = d + (c div ?M) * ?M" by (simp add: d_def)
  have shift: "place_end (x + q * ?M) ?es = place_end x ?es + q * ?M" for x q
    by (rule place_end_shift_mult [OF dvd])
  have "place_end d ?es + (c div ?M) * ?M = c + space_bound ls"
    using c shift [of d "c div ?M"] split by metis
  then have d: "place_end d ?es = d + space_bound ls" using split by linarith
  have "place_end r ?es = r + space_bound ls"
    using d shift [of 0 1] by (auto simp: r_def)
  moreover have "d < ?M" unfolding d_def by (rule mod_less_divisor) simp
  then have "0 < r" "r \<le> ?M" by (auto simp: r_def)
  moreover from \<open>r \<le> ?M\<close> have r: "unat (of_nat r :: usize) = r"
    by (intro unat_of_nat_usize) simp
  moreover have "(of_nat r :: usize) \<noteq> 0"
  proof
    assume "(of_nat r :: usize) = 0"
    then have "unat (of_nat r :: usize) = 0" by simp
    with r \<open>0 < r\<close> show False by linarith
  qed
  moreover have "r + space_bound ls < 2 ^ 64" using small \<open>r \<le> ?M\<close> by simp
  ultimately show ?thesis
    by (intro exI [of _ "of_nat r :: usize"]) (simp only: r simp_thms)
qed

subsection \<open>The contract of a placement\<close>

text \<open>
  What the runtime needs of an arena: blocks in order inside the capacity. From it follow
  that no byte belongs to two actors and that the sizes add up within the capacity.
\<close>

locale placement =
  fixes valid :: "'r \<Rightarrow> bool"
    and blocks :: "'r \<Rightarrow> (nat \<times> nat) list"  \<comment> \<open>position and size of each block\<close>
    and room :: "'r \<Rightarrow> nat"
  assumes in_room: "valid r \<Longrightarrow> i < length (blocks r) \<Longrightarrow>
      fst (blocks r ! i) + snd (blocks r ! i) \<le> room r"
    and in_order: "valid r \<Longrightarrow> i < j \<Longrightarrow> j < length (blocks r) \<Longrightarrow>
      fst (blocks r ! i) + snd (blocks r ! i) \<le> fst (blocks r ! j)"
begin

lemma byte_owner_unique:
  assumes "valid r" "i < length (blocks r)" "j < length (blocks r)"
    and "fst (blocks r ! i) \<le> b" "b < fst (blocks r ! i) + snd (blocks r ! i)"
    and "fst (blocks r ! j) \<le> b" "b < fst (blocks r ! j) + snd (blocks r ! j)"
  shows "i = j"
proof (rule ccontr)
  assume "i \<noteq> j"
  then consider "i < j" | "j < i" by linarith
  then show False using assms in_order [of r i j] in_order [of r j i] by cases linarith+
qed

lemma sizes_below:
  assumes "valid r" "k < length (blocks r)"
  shows "(\<Sum>i<k. snd (blocks r ! i)) \<le> fst (blocks r ! k)"
  using assms
proof (induction k)
  case (Suc k)
  then have "(\<Sum>i<k. snd (blocks r ! i)) \<le> fst (blocks r ! k)" by simp
  then show ?case using in_order [of r k "Suc k"] Suc.prems by simp
qed simp

lemma sizes_fit:
  assumes "valid r"
  shows "sum_list (map snd (blocks r)) \<le> room r"
proof (cases "blocks r = []")
  case False
  then obtain k where k: "length (blocks r) = Suc k" by (cases "length (blocks r)") auto
  have "sum_list (map snd (blocks r)) = (\<Sum>i<Suc k. snd (blocks r ! i))"
    by (simp add: sum_list_sum_nth k atLeast0LessThan)
  also have "\<dots> \<le> fst (blocks r ! k) + snd (blocks r ! k)"
    using sizes_below [OF assms, of k] k by simp
  also have "\<dots> \<le> room r" using in_room [OF assms, of k] k by simp
  finally show ?thesis .
qed simp

end

text \<open>A request to the arena: the layouts, the capacity computed for them, the block's address.\<close>

type_synonym request = "layout list \<times> u32 \<times> usize"

definition request_ok :: "request \<Rightarrow> bool" where
  "request_ok r = (case r of (ls, c, p) \<Rightarrow>
     list_all wf_layout ls \<and> compute_space_required ls = Ok c \<and> unat p + unat c < 2 ^ 64)"

definition request_blocks :: "request \<Rightarrow> (nat \<times> nat) list" where
  "request_blocks r = (case r of (ls, c, p) \<Rightarrow>
     zip (map (\<lambda>off. unat (offset_val off)) (placed p ls)) (map (\<lambda>l. unat (lay_size l)) ls))"

definition request_room :: "request \<Rightarrow> nat" where
  "request_room r = (case r of (ls, c, p) \<Rightarrow> unat c)"

lemma request_okE:
  assumes "request_ok (ls, c, p)"
  obtains "\<forall>l \<in> set ls. wf_layout l" "unat c = space_bound ls" "space_bound ls < 2 ^ 32"
    "unat p + space_bound ls < 2 ^ 64"
proof -
  have wf: "\<forall>l \<in> set ls. wf_layout l" using assms by (simp add: request_ok_def list_all_iff)
  moreover have "unat c = space_bound ls" using assms compute_space_Ok [OF wf] by (simp add: request_ok_def)
  ultimately show thesis using that assms unat_less_2_32 [of c] by (simp add: request_ok_def)
qed

lemma request_block_nth:
  "i < length ls \<Longrightarrow>
    request_blocks (ls, c, p) ! i = (unat (offset_val (placed p ls ! i)), unat (lay_size (ls ! i)))"
  by (simp add: request_blocks_def)

interpretation arena: placement request_ok request_blocks request_room
proof unfold_locales
  fix r :: request and i
  obtain ls c p where r: "r = (ls, c, p)" by (cases r)
  assume "request_ok r" and i: "i < length (request_blocks r)"
  with r have ok: "request_ok (ls, c, p)" by simp
  have i': "i < length ls" using i r by (simp add: request_blocks_def)
  from ok show "fst (request_blocks r ! i) + snd (request_blocks r ! i) \<le> request_room r"
  proof (rule request_okE)
    assume wf: "\<forall>l \<in> set ls. wf_layout l" and h: "unat c = space_bound ls" "space_bound ls < 2 ^ 32"
    show ?thesis
      using placed_unat [OF wf h(2) i', of p] place_in_bounds [of i "map extent ls" "unat p"]
        place_end_space_bound [OF wf, of "unat p"] h(1) i'
      by (simp add: r request_block_nth request_room_def extent_def)
  qed
next
  fix r :: request and i j
  obtain ls c p where r: "r = (ls, c, p)" by (cases r)
  assume "request_ok r" and ij: "i < j" "j < length (request_blocks r)"
  with r have ok: "request_ok (ls, c, p)" by simp
  have j: "j < length ls" and i: "i < length ls" using ij r by (auto simp: request_blocks_def)
  from ok show "fst (request_blocks r ! i) + snd (request_blocks r ! i) \<le> fst (request_blocks r ! j)"
  proof (rule request_okE)
    assume wf: "\<forall>l \<in> set ls. wf_layout l" and h: "unat c = space_bound ls" "space_bound ls < 2 ^ 32"
    show ?thesis
      using placed_unat [OF wf h(2) i, of p] placed_unat [OF wf h(2) j, of p]
        place_ordered [of i j "map extent ls" "unat p"] ij i j
      by (simp add: r request_block_nth extent_def)
  qed
qed

subsection \<open>Properties\<close>

lemmas space_eval = compute_space_required_def space_pad_def uadd_def usub_def urem_def to_u32_def

text \<open>The two unit tests of \<open>arena.rs\<close>.\<close>

lemma space_bound1:
  "compute_space_required [\<lparr>lay_size = 4, lay_align = 1\<rparr>, \<lparr>lay_size = 2, lay_align = 2\<rparr>,
     \<lparr>lay_size = 2, lay_align = 2\<rparr>] = Ok 9"
  by (simp add: space_eval)

lemma space_bound2:
  "compute_space_required [\<lparr>lay_size = 4, lay_align = 4\<rparr>, \<lparr>lay_size = 8, lay_align = 8\<rparr>,
     \<lparr>lay_size = 4, lay_align = 4\<rparr>] = Ok 23"
  by (simp add: space_eval)

definition test_space :: "(usize \<times> usize) list \<Rightarrow> u32 res" where
  "test_space ls = rbind (rmap (\<lambda>(s, a). unwrap (from_size_align s a)) ls) compute_space_required"

definition test_space_bound1 :: bool where
  "test_space_bound1 \<longleftrightarrow> test_space [(4, 1), (2, 2), (2, 2)] = Ok 9"

definition test_space_bound2 :: bool where
  "test_space_bound2 \<longleftrightarrow> test_space [(4, 4), (8, 8), (4, 4)] = Ok 23"

lemma arena_tests: "test_space_bound1" "test_space_bound2"
  by (simp_all add: test_space_bound1_def test_space_bound2_def test_space_def from_size_align_def wf_layout_def
      Let_def space_bound1 space_bound2)

lemma from_layouts_facts:
  assumes "\<forall>l \<in> set ls. wf_layout l" "compute_space_required ls = Ok c" "c \<noteq> 0"
    and "alloc_ok alloc (arena_layout c)"
  shows "\<exists>a offs. from_layouts alloc ls = Ok (a, offs) \<and> arena_capacity a = c \<and>
    length offs = length ls \<and>
    (\<forall>i<length ls. unat (lay_align (ls ! i)) dvd unat (arena_offset a (offs ! i)) \<and>
       unat (offset_val (offs ! i)) + unat (lay_size (ls ! i)) \<le> unat c) \<and>
    (\<forall>i j. i < j \<and> j < length ls \<longrightarrow>
       unat (offset_val (offs ! i)) + unat (lay_size (ls ! i)) \<le> unat (offset_val (offs ! j)))"
proof -
  let ?p = "alloc (arena_layout c)"
  let ?r = "(ls, c, ?p)"
  have ok: "request_ok ?r" using assms by (simp add: request_ok_def list_all_iff alloc_ok_def)
  have len: "length (request_blocks ?r) = length ls" by (simp add: request_blocks_def)
  have room: "unat (offset_val (placed ?p ls ! i)) + unat (lay_size (ls ! i)) \<le> unat c"
    if "i < length ls" for i
    using arena.in_room [OF ok, of i] that len by (simp add: request_block_nth request_room_def)
  have "unat (lay_align (ls ! i)) dvd
      unat (arena_offset \<lparr>arena_data = ?p, arena_capacity = c\<rparr> (placed ?p ls ! i))"
    if i: "i < length ls" for i
  proof -
    from ok show ?thesis
    proof (rule request_okE)
      assume h: "space_bound ls < 2 ^ 32" "unat ?p + space_bound ls < 2 ^ 64" "unat c = space_bound ls"
      have "unat (?p + ucast (offset_val (placed ?p ls ! i))) = place (unat ?p) (map extent ls) ! i"
        using placed_unat [OF assms(1) h(1) i, of ?p] room [OF i] h by (simp add: unat_add_exact)
      then show ?thesis using place_aligned [OF pow2_aligned_extent [OF assms(1)], of i "unat ?p"] i
        by (simp add: arena_offset_def extent_def)
    qed
  qed
  moreover have "unat (offset_val (placed ?p ls ! i)) + unat (lay_size (ls ! i))
      \<le> unat (offset_val (placed ?p ls ! j))" if "i < j" "j < length ls" for i j
    using arena.in_order [OF ok that(1)] that len by (simp add: request_block_nth)
  ultimately show ?thesis using from_layouts_exact [OF assms] room by auto
qed

text \<open>
  C32. For valid layouts whose bound is computed and not zero, and an allocator that keeps its
  contract, \<open>from_layouts\<close> succeeds; every actor's address has the actor's alignment, every
  actor lies inside the arena, and no two overlap.
\<close>

theorem from_layouts_sound:
  assumes "\<forall>l \<in> set ls. wf_layout l" "compute_space_required ls = Ok c" "c \<noteq> 0"
    and "alloc_ok alloc (arena_layout c)"
  shows "\<exists>a offs. from_layouts alloc ls = Ok (a, offs) \<and> arena_capacity a = c \<and>
    length offs = length ls \<and>
    (\<forall>i<length ls. unat (lay_align (ls ! i)) dvd unat (arena_offset a (offs ! i)) \<and>
       unat (offset_val (offs ! i)) + unat (lay_size (ls ! i)) \<le> unat c) \<and>
    (\<forall>i j. i < j \<and> j < length ls \<longrightarrow>
       unat (offset_val (offs ! i)) + unat (lay_size (ls ! i)) \<le> unat (offset_val (offs ! j)))"
  using assms by (rule from_layouts_facts)

theorem from_layouts_sound_witness:
  "\<exists>a offs. from_layouts (\<lambda>_. 1001) [\<lparr>lay_size = 4, lay_align = 4\<rparr>, \<lparr>lay_size = 8, lay_align = 8\<rparr>,
       \<lparr>lay_size = 4, lay_align = 4\<rparr>] = Ok (a, offs) \<and> arena_capacity a = 23 \<and> length offs = 3"
proof -
  let ?ls = "[\<lparr>lay_size = 4, lay_align = 4\<rparr>, \<lparr>lay_size = 8, lay_align = 8\<rparr>, \<lparr>lay_size = 4, lay_align = 4\<rparr>]"
  have "\<forall>l \<in> set ?ls. wf_layout l" by (simp add: wf_layout_def)
  moreover have "alloc_ok (\<lambda>_. 1001) (arena_layout 23)" by (simp add: alloc_ok_def)
  ultimately show ?thesis
    using from_layouts_sound [OF _ space_bound2, of "\<lambda>_. 1001"] by auto
qed

text \<open>
  C38. The capacity is the least one that suffices for every start address: wherever the block
  is allocated, \<open>get_offsets\<close> keeps all actors inside it, and any smaller capacity is too
  small for some start address.
\<close>

theorem compute_space_least:
  assumes "\<forall>l \<in> set ls. wf_layout l" "compute_space_required ls = Ok c"
  shows "(\<forall>p :: usize. unat p + unat c < 2 ^ 64 \<longrightarrow> (\<exists>offs. get_offsets p ls = Ok offs \<and>
      (\<forall>i<length ls. unat (offset_val (offs ! i)) + unat (lay_size (ls ! i)) \<le> unat c))) \<and>
    (\<forall>n<unat c. \<exists>p offs. p \<noteq> 0 \<and> unat p + unat c < 2 ^ 64 \<and> get_offsets p ls = Ok offs \<and>
      (\<exists>i<length ls. n < unat (offset_val (offs ! i)) + unat (lay_size (ls ! i))))"
proof (intro conjI allI impI)
  have bound: "unat c = space_bound ls" using assms compute_space_Ok by blast
  have small: "space_bound ls < 2 ^ 32" using bound unat_less_2_32 [of c] by simp
  fix p :: usize assume p: "unat p + unat c < 2 ^ 64"
  have ok: "request_ok (ls, c, p)" using assms p by (simp add: request_ok_def list_all_iff)
  have "get_offsets p ls = Ok (placed p ls)" using get_offsets_exact [OF assms(1) small] p bound by simp
  moreover have "unat (offset_val (placed p ls ! i)) + unat (lay_size (ls ! i)) \<le> unat c"
    if "i < length ls" for i
    using arena.in_room [OF ok, of i] that by (simp add: request_block_nth request_room_def request_blocks_def)
  ultimately show "\<exists>offs. get_offsets p ls = Ok offs \<and>
      (\<forall>i<length ls. unat (offset_val (offs ! i)) + unat (lay_size (ls ! i)) \<le> unat c)" by blast
next
  have bound: "unat c = space_bound ls" using assms compute_space_Ok by blast
  have small: "space_bound ls < 2 ^ 32" using bound unat_less_2_32 [of c] by simp
  fix n assume n: "n < unat c"
  obtain p :: usize where p: "p \<noteq> 0" "unat p + space_bound ls < 2 ^ 64"
    "place_end (unat p) (map extent ls) = unat p + space_bound ls"
    using space_bound_attained [OF assms(1) small] by blast
  have "ls \<noteq> []" using n bound by (auto simp: space_bound_def)
  then have last: "length ls - 1 < length ls" by simp
  have "place (unat p) (map extent ls) ! (length ls - 1) + unat (lay_size (ls ! (length ls - 1))) =
      unat p + space_bound ls"
    using place_end_last [of "map extent ls" "unat p"] p(3) \<open>ls \<noteq> []\<close> by (simp add: extent_def)
  then have "n < unat (offset_val (placed p ls ! (length ls - 1))) + unat (lay_size (ls ! (length ls - 1)))"
    using placed_unat [OF assms(1) small last, of p] n bound by linarith
  then show "\<exists>p offs. p \<noteq> 0 \<and> unat p + unat c < 2 ^ 64 \<and> get_offsets p ls = Ok offs \<and>
      (\<exists>i<length ls. n < unat (offset_val (offs ! i)) + unat (lay_size (ls ! i)))"
    using get_offsets_exact [OF assms(1) small p(2)] p bound last by metis
qed

theorem compute_space_least_witness:
  "\<exists>p offs. p \<noteq> 0 \<and> get_offsets p [\<lparr>lay_size = 4, lay_align = 1\<rparr>, \<lparr>lay_size = 2, lay_align = 2\<rparr>,
     \<lparr>lay_size = 2, lay_align = 2\<rparr>] = Ok offs"
proof -
  have "\<forall>l \<in> set [\<lparr>lay_size = 4, lay_align = 1\<rparr>, \<lparr>lay_size = 2, lay_align = 2\<rparr>,
     \<lparr>lay_size = 2, lay_align = 2\<rparr>]. wf_layout l" by (simp add: wf_layout_def)
  from compute_space_least [OF this space_bound1, THEN conjunct2, rule_format, of 8]
  show ?thesis by auto
qed

text \<open>
  \<open>at_offset\<close> on an actor that \<open>get_offsets\<close> placed never fails its alignment check; it
  returns the actor's bytes exactly if the actor ends strictly before the arena's end.
\<close>

theorem at_offset_exact:
  assumes "\<forall>l \<in> set ls. wf_layout l" "compute_space_required ls = Ok c"
    and "unat p + unat c < 2 ^ 64" "get_offsets p ls = Ok offs" "i < length ls"
  shows "at_offset \<lparr>arena_data = p, arena_capacity = c\<rparr> (offs ! i) (ls ! i) =
    (if unat (offset_val (offs ! i)) + unat (lay_size (ls ! i)) < unat c
     then Ok (p + ucast (offset_val (offs ! i)), lay_size (ls ! i)) else Fault AssertFailed)"
proof -
  have bound: "unat c = space_bound ls" using assms compute_space_Ok by blast
  then have "get_offsets p ls = Ok (placed p ls)"
    using get_offsets_exact [OF assms(1)] assms(3) unat_less_2_32 [of c] by simp
  then show ?thesis using at_offset_placed [OF assms(1) bound assms(3,5)] assms(4) by simp
qed

theorem at_offset_exact_witness:
  "at_offset \<lparr>arena_data = 16, arena_capacity = 9\<rparr> (Offset 4) \<lparr>lay_size = 2, lay_align = 2\<rparr> =
    Ok (20, 2)"
proof -
  let ?ls = "[\<lparr>lay_size = 4, lay_align = 1\<rparr>, \<lparr>lay_size = 2, lay_align = 2\<rparr>, \<lparr>lay_size = 2, lay_align = 2\<rparr>]"
  have wf: "\<forall>l \<in> set ?ls. wf_layout l" by (simp add: wf_layout_def)
  have offs: "get_offsets 16 ?ls = Ok [Offset 0, Offset 4, Offset 6]"
    using get_offsets_exact [OF wf, of 16]
    by (simp add: space_bound_def placed_def extent_def round_up_def)
  show ?thesis using at_offset_exact [OF wf space_bound1 _ offs, of 1] by simp
qed

text \<open>
  C33. The strict comparison of \<open>at_offset\<close> rejects actors that fit. For every non-empty list
  of layouts there is a start address at which the arena is filled to its last byte by the
  last actor, and constructing that actor panics.
\<close>

theorem at_offset_rejects_full_arena:
  assumes "\<forall>l \<in> set ls. wf_layout l" "compute_space_required ls = Ok c" "ls \<noteq> []"
  shows "\<exists>p offs. p \<noteq> 0 \<and> unat p + unat c < 2 ^ 64 \<and> get_offsets p ls = Ok offs \<and>
    unat (offset_val (last offs)) + unat (lay_size (last ls)) = unat c \<and>
    at_offset \<lparr>arena_data = p, arena_capacity = c\<rparr> (last offs) (last ls) = Fault AssertFailed"
proof -
  have bound: "unat c = space_bound ls" using assms compute_space_Ok by blast
  have small: "space_bound ls < 2 ^ 32" using bound unat_less_2_32 [of c] by simp
  let ?k = "length ls - 1"
  have k: "?k < length ls" using assms(3) by simp
  obtain p :: usize where p: "p \<noteq> 0" "unat p + space_bound ls < 2 ^ 64"
    "place_end (unat p) (map extent ls) = unat p + space_bound ls"
    using space_bound_attained [OF assms(1) small] by blast
  have last: "last ls = ls ! ?k" "last (placed p ls) = placed p ls ! ?k"
  proof -
    have "placed p ls \<noteq> []" using assms(3) placed_length [of p ls] by (metis length_0_conv)
    then show "last (placed p ls) = placed p ls ! ?k" using last_conv_nth [of "placed p ls"] by simp
    show "last ls = ls ! ?k" using assms(3) by (rule last_conv_nth)
  qed
  have "unat (offset_val (placed p ls ! ?k)) + unat (lay_size (ls ! ?k)) = unat c"
    using place_end_last [of "map extent ls" "unat p"] p(3) assms(3) bound
      placed_unat [OF assms(1) small k, of p] by (simp add: extent_def)
  then show ?thesis
    using at_offset_placed [OF assms(1) bound _ k, of p] get_offsets_exact [OF assms(1) small p(2)]
      p bound last by auto
qed

theorem at_offset_rejects_full_arena_witness:
  "\<exists>p offs. p \<noteq> 0 \<and> get_offsets p [\<lparr>lay_size = 4, lay_align = 1\<rparr>, \<lparr>lay_size = 2, lay_align = 2\<rparr>,
       \<lparr>lay_size = 2, lay_align = 2\<rparr>] = Ok offs \<and>
     at_offset \<lparr>arena_data = p, arena_capacity = 9\<rparr> (last offs) \<lparr>lay_size = 2, lay_align = 2\<rparr> =
       Fault AssertFailed"
proof -
  have "\<forall>l \<in> set [\<lparr>lay_size = 4, lay_align = 1\<rparr>, \<lparr>lay_size = 2, lay_align = 2\<rparr>,
     \<lparr>lay_size = 2, lay_align = 2\<rparr>]. wf_layout l" by (simp add: wf_layout_def)
  from at_offset_rejects_full_arena [OF this space_bound1] show ?thesis by auto
qed

text \<open>The block is given back with the layout it was allocated with.\<close>

lemma arena_drop_ok:
  "from_layouts alloc ls = Ok (a, offs) \<Longrightarrow> arena_drop (arena_layout (arena_capacity a)) a = Ok ()"
  by (auto simp: arena_drop_def from_size_align_1 dealloc_call_def)

end
