(* ===== verification/Graph.thy ===== *)
theory Graph
  imports Ids
begin

text \<open>
  The cycle check of \<open>runtime/graph.rs\<close>. \<open>has_cycles\<close> builds a hash map of nodes from the
  dependence relations and runs a depth-first search from every node; each node carries a
  cell that says whether it is unvisited, on the current path, or finished.

  The nodes are an association list in the order in which the hash map is iterated, the
  children of a node a list in the order in which its hash set is; those orders are not
  specified, so \<open>has_cycles\<close> takes the reordering as a parameter. The cells, which the code
  mutates through shared references, are a map that is passed along.
\<close>

subsection \<open>The code\<close>

record dependence_relation =
  dep_from :: actor_id
  dep_to :: actor_id

datatype visit_state = Unvisited | Visiting | Visited

type_synonym graph = "(actor_id \<times> actor_id list) list"
type_synonym cells = "actor_id \<Rightarrow> visit_state"

text \<open>\<open>graph.entry(k).or_default().children.insert(c)\<close> and \<open>graph.entry(k).or_default()\<close>.\<close>

fun insert_child :: "actor_id \<Rightarrow> actor_id \<Rightarrow> graph \<Rightarrow> graph" where
  "insert_child k c [] = [(k, [c])]"
| "insert_child k c ((k', cs) # g) =
     (if k = k' then (k', if c \<in> set cs then cs else cs @ [c]) # g else (k', cs) # insert_child k c g)"

fun ensure_node :: "actor_id \<Rightarrow> graph \<Rightarrow> graph" where
  "ensure_node k [] = [(k, [])]"
| "ensure_node k ((k', cs) # g) = (if k = k' then (k', cs) # g else (k', cs) # ensure_node k g)"

fun build_graph :: "dependence_relation list \<Rightarrow> graph \<Rightarrow> graph" where
  "build_graph [] g = g"
| "build_graph (r # rs) g =
     build_graph rs (ensure_node (dep_to r) (insert_child (dep_from r) (dep_to r) g))"

function (sequential) dfs :: "graph \<Rightarrow> actor_id \<Rightarrow> cells \<Rightarrow> (bool \<times> cells) res"
  and dfs_children :: "graph \<Rightarrow> actor_id list \<Rightarrow> cells \<Rightarrow> (bool \<times> cells) res" where
  "dfs g node cells =
     rbind (unwrap (map_of g node)) (\<lambda>children.
     case cells node of
       Visiting \<Rightarrow> Ok (True, cells)
     | Visited \<Rightarrow> Ok (False, cells)
     | Unvisited \<Rightarrow>
         rbind (dfs_children g children (cells(node := Visiting))) (\<lambda>(found, cells').
         if found then Ok (True, cells') else Ok (False, cells'(node := Visited))))"
| "dfs_children g [] cells = Ok (False, cells)"
| "dfs_children g (child # children) cells =
     rbind (dfs g child cells) (\<lambda>(found, cells').
     if found then Ok (True, cells') else dfs_children g children cells')"
  by pat_completeness auto

text \<open>
  Termination: a call of \<open>dfs\<close> never makes a node unvisited again, so the number of unvisited
  nodes of the graph decreases along the recursion, and the children list where it does not.
\<close>

definition unvisited :: "graph \<Rightarrow> cells \<Rightarrow> actor_id set" where
  "unvisited g cells = {n \<in> fst ` set g. cells n = Unvisited}"

lemma finite_unvisited [simp]: "finite (unvisited g cells)"
  by (simp add: unvisited_def)

lemma unvisited_upd_other: "s \<noteq> Unvisited \<Longrightarrow> unvisited g (cells(n := s)) \<subseteq> unvisited g cells"
  by (auto simp: unvisited_def)

lemma dfs_unvisited_partial:
  "dfs_dfs_children_dom (Inl (g, node, cells)) \<Longrightarrow> dfs g node cells = Ok (b, cells') \<Longrightarrow>
     unvisited g cells' \<subseteq> unvisited g cells"
  "dfs_dfs_children_dom (Inr (g, children, cells)) \<Longrightarrow> dfs_children g children cells = Ok (b, cells') \<Longrightarrow>
     unvisited g cells' \<subseteq> unvisited g cells"
proof (induction g node cells and g children cells arbitrary: b cells' and b cells'
    rule: dfs_dfs_children.pinduct)
  case (1 g node cells)
  show ?case
  proof (cases "cells node")
    case Unvisited
    with 1 obtain children found cells1 where children: "map_of g node = Some children"
      and found: "dfs_children g children (cells(node := Visiting)) = Ok (found, cells1)"
      and cells': "cells' = (if found then cells1 else cells1(node := Visited))"
      by (auto simp: dfs.psimps split: if_splits)
    then have "unvisited g cells1 \<subseteq> unvisited g (cells(node := Visiting))"
      using "1.IH" [of children found cells1] Unvisited by (simp add: fun_upd_def)
    then show ?thesis using cells' by (auto simp: unvisited_def split: if_splits)
  qed (use 1 in \<open>auto simp: dfs.psimps\<close>)
next
  case (2 g cells)
  then show ?case by (simp add: dfs_children.psimps)
next
  case (3 g child children cells)
  then obtain found cells1 where first: "dfs g child cells = Ok (found, cells1)"
    and rest: "if found then cells' = cells1 else dfs_children g children cells1 = Ok (b, cells')"
    by (auto simp: dfs_children.psimps split: if_splits)
  have "unvisited g cells1 \<subseteq> unvisited g cells" using "3.IH"(1) [OF first] .
  then show ?case using "3.IH"(2) [OF first refl] rest by (auto split: if_splits)
qed

termination dfs
proof (relation "inv_image (less_than <*lex*> less_than)
    (\<lambda>x. case x of Inl (g, node, cells) \<Rightarrow> (card (unvisited g cells), 0)
       | Inr (g, children, cells) \<Rightarrow> (card (unvisited g cells), Suc (length children)))")
  fix g :: graph and node cells children
  assume "unwrap (map_of g node) = Ok children" "cells node = Unvisited"
  then have "node \<in> unvisited g cells"
    by (auto simp: unvisited_def intro: rev_image_eqI dest: map_of_SomeD)
  moreover have "unvisited g (cells(node := Visiting)) = unvisited g cells - {node}"
    by (auto simp: unvisited_def)
  ultimately have "card (unvisited g (cells(node := Visiting))) < card (unvisited g cells)"
    by (simp only: card_Diff1_less finite_unvisited)
  then show "(Inr (g, children, cells(node := Visiting)), Inl (g, node, cells))
      \<in> inv_image (less_than <*lex*> less_than)
        (\<lambda>x. case x of Inl (g, node, cells) \<Rightarrow> (card (unvisited g cells), 0)
           | Inr (g, children, cells) \<Rightarrow> (card (unvisited g cells), Suc (length children)))"
    by simp
next
  fix g :: graph and child and children :: "actor_id list" and cells x found cells'
  assume "dfs_dfs_children_dom (Inl (g, child, cells))" "dfs g child cells = Ok x" "(found, cells') = x"
  then have "unvisited g cells' \<subseteq> unvisited g cells"
    using dfs_unvisited_partial(1) by blast
  then have "card (unvisited g cells') \<le> card (unvisited g cells)"
    by (simp add: card_mono)
  then show "(Inr (g, children, cells'), Inr (g, child # children, cells))
      \<in> inv_image (less_than <*lex*> less_than)
        (\<lambda>x. case x of Inl (g, node, cells) \<Rightarrow> (card (unvisited g cells), 0)
           | Inr (g, children, cells) \<Rightarrow> (card (unvisited g cells), Suc (length children)))"
    by auto
qed auto

declare dfs.simps [simp del]

fun any_cycle_from :: "graph \<Rightarrow> actor_id list \<Rightarrow> cells \<Rightarrow> bool res" where
  "any_cycle_from g [] cells = Ok False"
| "any_cycle_from g (actor # actors) cells =
     rbind (dfs g actor cells) (\<lambda>(found, cells').
     if found then Ok True else any_cycle_from g actors cells')"

definition has_cycles :: "(graph \<Rightarrow> graph) \<Rightarrow> dependence_relation list \<Rightarrow> bool res" where
  "has_cycles iter relations =
     (let g = iter (build_graph relations [])
      in any_cycle_from g (map fst g) (\<lambda>_. Unvisited))"

subsection \<open>Correctness of the search\<close>

definition edges :: "graph \<Rightarrow> (actor_id \<times> actor_id) set" where
  "edges g = {(u, v). \<exists>cs. map_of g u = Some cs \<and> v \<in> set cs}"

definition relation_edges :: "dependence_relation list \<Rightarrow> (actor_id \<times> actor_id) set" where
  "relation_edges rs = (\<lambda>r. (dep_from r, dep_to r)) ` set rs"

definition wf_graph :: "graph \<Rightarrow> bool" where
  "wf_graph g \<longleftrightarrow> distinct (map fst g) \<and> (\<forall>(k, cs) \<in> set g. set cs \<subseteq> fst ` set g)"

definition visiting :: "cells \<Rightarrow> actor_id set" where
  "visiting cells = {n. cells n = Visiting}"

definition visited :: "cells \<Rightarrow> actor_id set" where
  "visited cells = {n. cells n = Visited}"

text \<open>The finished nodes are closed under edges, and no cycle passes through them.\<close>

definition finished_ok :: "graph \<Rightarrow> cells \<Rightarrow> bool" where
  "finished_ok g cells \<longleftrightarrow> edges g `` visited cells \<subseteq> visited cells \<and>
     (\<forall>v \<in> visited cells. (v, v) \<notin> (edges g)\<^sup>+)"

text \<open>Every node on the current path reaches the nodes about to be searched.\<close>

definition path_reaches :: "graph \<Rightarrow> cells \<Rightarrow> actor_id set \<Rightarrow> bool" where
  "path_reaches g cells T \<longleftrightarrow> (\<forall>v \<in> visiting cells. \<forall>t \<in> T. (v, t) \<in> (edges g)\<^sup>+)"

text \<open>What a search for the nodes \<open>T\<close> returns.\<close>

definition search_outcome :: "graph \<Rightarrow> cells \<Rightarrow> actor_id set \<Rightarrow> (bool \<times> cells) res \<Rightarrow> bool" where
  "search_outcome g cells T r \<longleftrightarrow> (\<exists>found cells'. r = Ok (found, cells') \<and>
     (if found then \<exists>n. (n, n) \<in> (edges g)\<^sup>+
      else visiting cells' = visiting cells \<and> visited cells \<subseteq> visited cells' \<and>
        T \<subseteq> visited cells' \<and> finished_ok g cells'))"

lemma search_outcome_found: "(n, n) \<in> (edges g)\<^sup>+ \<Longrightarrow> search_outcome g cells T (Ok (True, cells'))"
  by (auto simp: search_outcome_def)

lemma search_outcome_none:
  "visiting cells' = visiting cells \<Longrightarrow> visited cells \<subseteq> visited cells' \<Longrightarrow> T \<subseteq> visited cells' \<Longrightarrow>
    finished_ok g cells' \<Longrightarrow> search_outcome g cells T (Ok (False, cells'))"
  by (auto simp: search_outcome_def)

lemma search_outcomeE:
  assumes "search_outcome g cells T r"
  obtains (found) cells' n where "r = Ok (True, cells')" "(n, n) \<in> (edges g)\<^sup>+"
  | (none) cells' where "r = Ok (False, cells')" "visiting cells' = visiting cells"
      "visited cells \<subseteq> visited cells'" "T \<subseteq> visited cells'" "finished_ok g cells'"
  using assms by (auto simp: search_outcome_def split: if_splits)

lemma closed_trancl:
  assumes "E `` V \<subseteq> V" "(u, v) \<in> E\<^sup>+" "u \<in> V"
  shows "v \<in> V"
  using assms(2,3,1) by (induction rule: trancl_induct) auto

lemma finish_node:
  assumes ok: "finished_ok g cells" and n: "cells n = Visiting"
    and children: "\<And>c. (n, c) \<in> edges g \<Longrightarrow> c \<in> visited cells"
  shows "finished_ok g (cells(n := Visited))"
proof -
  let ?V = "visited cells"
  have upd: "visited (cells(n := Visited)) = insert n ?V" by (auto simp: visited_def)
  have closed: "edges g `` ?V \<subseteq> ?V" using ok by (simp add: finished_ok_def)
  have "(n, n) \<notin> (edges g)\<^sup>+"
  proof
    assume "(n, n) \<in> (edges g)\<^sup>+"
    then obtain c where c: "(n, c) \<in> edges g" "c = n \<or> (c, n) \<in> (edges g)\<^sup>+"
      by (auto elim: converse_tranclE)
    then have "n \<in> ?V" using children closed_trancl [OF closed] by blast
    then show False using n by (simp add: visited_def)
  qed
  then show ?thesis using ok closed children by (auto simp: finished_ok_def upd)
qed

lemma search_ok:
  "wf_graph g \<Longrightarrow> node \<in> fst ` set g \<Longrightarrow> finished_ok g cells \<Longrightarrow> path_reaches g cells {node} \<Longrightarrow>
     search_outcome g cells {node} (dfs g node cells)"
  "wf_graph g \<Longrightarrow> set children \<subseteq> fst ` set g \<Longrightarrow> finished_ok g cells \<Longrightarrow>
     path_reaches g cells (set children) \<Longrightarrow>
     search_outcome g cells (set children) (dfs_children g children cells)"
proof (induction g node cells and g children cells rule: dfs_dfs_children.induct)
  case (1 g node cells)
  from "1.prems" obtain children where children: "map_of g node = Some children"
    by (metis map_of_eq_None_iff not_None_eq)
  show ?case
  proof (cases "cells node")
    case Visiting
    then have "(node, node) \<in> (edges g)\<^sup>+" using "1.prems" by (simp add: path_reaches_def visiting_def)
    then show ?thesis using Visiting children by (simp add: dfs.simps [of g] search_outcome_found)
  next
    case Visited
    then show ?thesis using "1.prems" children
      by (simp add: dfs.simps [of g] search_outcome_none visited_def)
  next
    case Unvisited
    let ?cells = "cells(node := Visiting)"
    have edge: "(node, c) \<in> edges g \<longleftrightarrow> c \<in> set children" for c
      using children by (simp add: edges_def)
    have marks: "visited ?cells = visited cells" "visiting ?cells = insert node (visiting cells)"
      using Unvisited by (auto simp: visited_def visiting_def)
    have "set children \<subseteq> fst ` set g"
      using "1.prems"(1) map_of_SomeD [OF children] by (auto simp: wf_graph_def)
    moreover have "finished_ok g ?cells" using "1.prems" marks by (simp add: finished_ok_def)
    moreover have "path_reaches g ?cells (set children)"
      using "1.prems"(4) edge by (auto simp: path_reaches_def marks intro: trancl_into_trancl)
    ultimately have "search_outcome g ?cells (set children) (dfs_children g children ?cells)"
      using "1.IH" [of children] children Unvisited "1.prems"(1) by (simp add: fun_upd_def)
    then show ?thesis
    proof (cases rule: search_outcomeE)
      case (found cells' n)
      then show ?thesis using Unvisited children by (simp add: dfs.simps [of g] search_outcome_found)
    next
      case (none cells')
      then have node: "cells' node = Visiting" using marks by (auto simp: visiting_def)
      let ?done = "cells'(node := Visited)"
      have "finished_ok g ?done" using finish_node [OF none(5) node] edge none(4) by blast
      moreover have "visiting ?done = visiting cells"
        using none(2) marks(2) Unvisited by (auto simp: visiting_def)
      moreover have "visited ?done = insert node (visited cells')" by (auto simp: visited_def)
      ultimately have "search_outcome g cells {node} (Ok (False, ?done))"
        using none(3) marks(1) by (intro search_outcome_none) auto
      then show ?thesis using none(1) Unvisited children by (simp add: dfs.simps [of g])
    qed
  qed
next
  case (2 g cells)
  then show ?case by (simp add: search_outcome_none)
next
  case (3 g child children cells)
  have "search_outcome g cells {child} (dfs g child cells)"
    using 3 by (auto simp: path_reaches_def)
  then show ?case
  proof (cases rule: search_outcomeE)
    case (found cells' n)
    then show ?thesis by (simp add: search_outcome_found)
  next
    case first: (none cells')
    then have "search_outcome g cells' (set children) (dfs_children g children cells')"
      using "3.IH"(2) [OF first(1) refl] "3.prems" by (auto simp: path_reaches_def)
    then show ?thesis
    proof (cases rule: search_outcomeE)
      case (found cells'' n)
      then show ?thesis using first by (simp add: search_outcome_found)
    next
      case (none cells'')
      then show ?thesis using first by (auto intro!: search_outcome_none)
    qed
  qed
qed

text \<open>The loop over all nodes: no node is on a path between two searches.\<close>

lemma any_cycle_from_ok:
  assumes "wf_graph g" "set actors \<subseteq> fst ` set g" "finished_ok g cells" "visiting cells = {}"
  shows "\<exists>b. any_cycle_from g actors cells = Ok b \<and>
    (if b then \<exists>n. (n, n) \<in> (edges g)\<^sup>+ else \<forall>n \<in> set actors. (n, n) \<notin> (edges g)\<^sup>+)"
  using assms
proof (induction actors arbitrary: cells)
  case (Cons actor actors)
  have "search_outcome g cells {actor} (dfs g actor cells)"
    using Cons.prems by (intro search_ok) (auto simp: path_reaches_def)
  then show ?case
  proof (cases rule: search_outcomeE)
    case (found cells' n)
    then show ?thesis by auto
  next
    case (none cells')
    then have "(actor, actor) \<notin> (edges g)\<^sup>+" by (auto simp: finished_ok_def)
    then show ?thesis using Cons.IH [of cells'] Cons.prems none by auto
  qed
qed (auto intro: exI [of _ False])

subsection \<open>The graph that is searched\<close>

lemma keys_insert_child [simp]: "fst ` set (insert_child k c g) = insert k (fst ` set g)"
  by (induction k c g rule: insert_child.induct) (simp_all add: insert_commute)

lemma keys_ensure_node [simp]: "fst ` set (ensure_node k g) = insert k (fst ` set g)"
  by (induction k g rule: ensure_node.induct) (simp_all add: insert_commute)

lemma distinct_insert_child: "distinct (map fst g) \<Longrightarrow> distinct (map fst (insert_child k c g))"
  by (induction k c g rule: insert_child.induct) simp_all

lemma distinct_ensure_node: "distinct (map fst g) \<Longrightarrow> distinct (map fst (ensure_node k g))"
  by (induction k g rule: ensure_node.induct) simp_all

lemma map_of_insert_child:
  "map_of (insert_child k c g) = (map_of g)(k \<mapsto>
     (case map_of g k of None \<Rightarrow> [c] | Some cs \<Rightarrow> if c \<in> set cs then cs else cs @ [c]))"
  by (induction g) (auto simp: fun_eq_iff)

lemma map_of_ensure_node:
  "map_of (ensure_node k g) =
     (case map_of g k of None \<Rightarrow> (map_of g)(k \<mapsto> []) | Some _ \<Rightarrow> map_of g)"
  by (induction g) (auto simp: fun_eq_iff split: option.splits)

lemma edges_insert_child: "edges (insert_child k c g) = insert (k, c) (edges g)"
  by (auto simp: edges_def map_of_insert_child split: option.splits if_splits)

lemma edges_ensure_node: "edges (ensure_node k g) = edges g"
  by (auto simp: edges_def map_of_ensure_node split: option.splits if_splits)

lemma wf_graph_edges:
  "wf_graph g \<longleftrightarrow> distinct (map fst g) \<and> (\<forall>(u, v) \<in> edges g. v \<in> fst ` set g)"
proof -
  have "(\<forall>(k, cs) \<in> set g. set cs \<subseteq> fst ` set g) \<longleftrightarrow> (\<forall>(u, v) \<in> edges g. v \<in> fst ` set g)"
    if "distinct (map fst g)"
    using that by (fastforce simp: edges_def)
  then show ?thesis by (auto simp: wf_graph_def)
qed

lemma build_graph_ok:
  "wf_graph g \<Longrightarrow> wf_graph (build_graph rs g) \<and> edges (build_graph rs g) = edges g \<union> relation_edges rs"
proof (induction rs arbitrary: g)
  case (Cons r rs)
  let ?g = "ensure_node (dep_to r) (insert_child (dep_from r) (dep_to r) g)"
  have edges: "edges ?g = insert (dep_from r, dep_to r) (edges g)"
    by (simp add: edges_ensure_node edges_insert_child)
  have "wf_graph ?g"
    using Cons.prems by (auto simp: wf_graph_edges edges distinct_insert_child distinct_ensure_node)
  from Cons.IH [OF this] show ?case by (auto simp: edges relation_edges_def)
qed (simp add: relation_edges_def)

text \<open>
  An iteration order of the hash map and its hash sets: the same keys, each once, and the same
  children.
\<close>

definition reorders :: "(graph \<Rightarrow> graph) \<Rightarrow> bool" where
  "reorders iter \<longleftrightarrow> (\<forall>g. distinct (map fst g) \<longrightarrow> distinct (map fst (iter g)) \<and>
     (\<forall>k. map_option set (map_of (iter g) k) = map_option set (map_of g k)))"

lemma reorders_graph:
  assumes "reorders iter" "wf_graph g"
  shows "wf_graph (iter g) \<and> edges (iter g) = edges g"
proof -
  have d: "distinct (map fst g)" using assms(2) by (simp add: wf_graph_def)
  have same: "map_option set (map_of (iter g) k) = map_option set (map_of g k)" for k
    using assms(1) d by (simp add: reorders_def)
  have edges: "edges (iter g) = edges g"
  proof (intro set_eqI)
    fix e :: "actor_id \<times> actor_id"
    obtain u v where e: "e = (u, v)" by (cases e)
    show "e \<in> edges (iter g) \<longleftrightarrow> e \<in> edges g"
      using same [of u] by (cases "map_of (iter g) u"; cases "map_of g u") (auto simp: e edges_def)
  qed
  have "dom (map_of (iter g)) = dom (map_of g)"
    using same by (auto simp: dom_def) (metis option.map_disc_iff not_None_eq)+
  then have "fst ` set (iter g) = fst ` set g" by (simp add: dom_map_of_conv_image_fst)
  then show ?thesis using assms d edges by (simp add: wf_graph_edges reorders_def)
qed

lemma trancl_cycle_source:
  assumes "(n, n) \<in> E\<^sup>+"
  shows "n \<in> fst ` E"
proof -
  from assms obtain m where "(n, m) \<in> E" by (rule converse_tranclE)
  then show ?thesis by (rule rev_image_eqI) simp
qed

lemma has_cycles_correct:
  assumes "reorders iter"
  shows "has_cycles iter rs = Ok (\<exists>n. (n, n) \<in> (relation_edges rs)\<^sup>+)"
proof -
  let ?g = "iter (build_graph rs [])"
  have "wf_graph []" by (simp add: wf_graph_def)
  then have wf: "wf_graph ?g" and edges: "edges ?g = relation_edges rs"
    using build_graph_ok [of "[]" rs] reorders_graph [OF assms] by (auto simp: edges_def)
  have "finished_ok ?g (\<lambda>_. Unvisited)" by (simp add: finished_ok_def visited_def)
  from any_cycle_from_ok [OF wf _ this, of "map fst ?g"]
  obtain b where b: "has_cycles iter rs = Ok b"
    "if b then \<exists>n. (n, n) \<in> (edges ?g)\<^sup>+ else \<forall>n \<in> fst ` set ?g. (n, n) \<notin> (edges ?g)\<^sup>+"
    by (auto simp: has_cycles_def visiting_def Let_def)
  have "fst ` edges ?g \<subseteq> fst ` set ?g"
    by (auto simp: edges_def intro: rev_image_eqI dest: map_of_SomeD)
  then have sources: "n \<in> fst ` set ?g" if "(n, n) \<in> (edges ?g)\<^sup>+" for n
    using trancl_cycle_source [OF that] by (rule subsetD)
  have "b \<longleftrightarrow> (\<exists>n. (n, n) \<in> (edges ?g)\<^sup>+)"
  proof (cases b)
    case False
    then have "\<forall>n \<in> fst ` set ?g. (n, n) \<notin> (edges ?g)\<^sup>+" using b(2) by (simp only: if_False)
    with False sources show ?thesis by blast
  qed (use b(2) in simp)
  then show ?thesis using b(1) edges by simp
qed

subsection \<open>Properties\<close>

text \<open>
  The unit tests of \<open>graph.rs\<close>: their helper, which numbers actors from one, and the three cases.
  Each has the result it asserts, in whatever order the hash map and the sets are iterated.
\<close>

definition test_actor :: "u32 \<Rightarrow> actor_id res" where
  "test_actor a = rbind (uadd a 1) (\<lambda>i. unwrap (actor_new i))"

definition test_has_cycles :: "(graph \<Rightarrow> graph) \<Rightarrow> (u32 \<times> u32) list \<Rightarrow> bool res" where
  "test_has_cycles iter t =
     rbind (rmap (\<lambda>(a, b). rbind (test_actor a) (\<lambda>i. rbind (test_actor b) (\<lambda>j.
       Ok \<lparr>dep_from = i, dep_to = j\<rparr>))) t) (has_cycles iter)"

definition test_2cycle :: "(graph \<Rightarrow> graph) \<Rightarrow> bool res" where
  "test_2cycle iter = test_has_cycles iter [(1, 2), (2, 1)]"

definition diamond :: "(graph \<Rightarrow> graph) \<Rightarrow> bool res" where
  "diamond iter = test_has_cycles iter [(1, 2), (1, 3), (2, 4), (3, 4)]"

definition test_3cycle_with_offshoot :: "(graph \<Rightarrow> graph) \<Rightarrow> bool res" where
  "test_3cycle_with_offshoot iter = test_has_cycles iter [(1, 2), (2, 3), (3, 4), (3, 1)]"

lemma has_cycles_any_order: "reorders iter \<Longrightarrow> has_cycles iter rs = has_cycles id rs"
  using has_cycles_correct [of iter rs] has_cycles_correct [of id rs] by (simp add: reorders_def)

lemma test_actor_eval: "a < 10 \<Longrightarrow> test_actor a = Ok (aid (unat a))"
proof -
  assume "a < 10"
  then have "unat a < 10" by (simp add: word_less_nat_alt)
  then have "unat a + 1 < 2 ^ 32" "a + 1 = of_nat (Suc (unat a))" by simp_all
  moreover have "a + 1 \<noteq> 0" using \<open>unat a < 10\<close> by (simp add: unat_add_exact unat_eq_zero [symmetric])
  ultimately show ?thesis by (simp add: test_actor_def uadd_def actor_new_def nz_new_def aid_def)
qed

lemma graph_tests:
  assumes "reorders iter"
  shows "test_2cycle iter = Ok True" "diamond iter = Ok False" "test_3cycle_with_offshoot iter = Ok True"
  by (simp_all add: test_2cycle_def diamond_def test_3cycle_with_offshoot_def test_has_cycles_def test_actor_eval
      has_cycles_any_order [OF assms]) (simp_all add: has_cycles_def dfs.simps)

text \<open>
  C34. Whatever the iteration orders, \<open>has_cycles\<close> returns (no lookup fails, the recursion
  stops), and it returns true exactly when the dependence relations have a cycle.
\<close>

theorem has_cycles_iff_cycle:
  assumes "reorders iter"
  shows "has_cycles iter rs = Ok (\<exists>n. (n, n) \<in> (relation_edges rs)\<^sup>+)"
  by (rule has_cycles_correct [OF assms])

lemma reorders_rev: "reorders rev"
proof -
  have "map_of (rev g) = map_of g" if "distinct (map fst g)" for g :: graph
    using that map_of_inject_set [of "rev g" g] by (simp add: rev_map [symmetric])
  then show ?thesis by (simp add: reorders_def rev_map [symmetric])
qed

theorem has_cycles_iff_cycle_witness:
  "has_cycles rev [\<lparr>dep_from = aid 1, dep_to = aid 2\<rparr>, \<lparr>dep_from = aid 2, dep_to = aid 1\<rparr>] =
     Ok (\<exists>n. (n, n) \<in> (relation_edges [\<lparr>dep_from = aid 1, dep_to = aid 2\<rparr>, \<lparr>dep_from = aid 2, dep_to = aid 1\<rparr>])\<^sup>+)"
  by (rule has_cycles_iff_cycle [OF reorders_rev])

end
