(* ===== verification/Queues.thy ===== *)
theory Queues
  imports Prelude
begin

text \<open>
  The two message transports: \<open>queue/local.rs\<close>, a vector used by one thread, and
  \<open>queue/remote.rs\<close>, a wrapper of \<open>std::sync::mpsc\<close>. The locale \<open>msg_buffer\<close> states what both
  promise, \<open>fifo_buffer\<close> and \<open>lifo_buffer\<close> the order in which they deliver.
\<close>

subsection \<open>\<open>queue/local.rs\<close>\<close>

record 'a local_queue =
  items :: "'a list"

definition local_unbounded :: "'a local_queue" where
  "local_unbounded = \<lparr>items = []\<rparr>"

definition local_default :: "'a local_queue" where
  "local_default = \<lparr>items = []\<rparr>"

text \<open>\<open>Vec::push\<close> and \<open>Vec::pop\<close>: both work at the end of the vector.\<close>

definition local_send :: "'a local_queue \<Rightarrow> 'a \<Rightarrow> 'a local_queue" where
  "local_send q x = q\<lparr>items := items q @ [x]\<rparr>"

definition local_recv :: "'a local_queue \<Rightarrow> 'a option \<times> 'a local_queue" where
  "local_recv q =
     (if items q = [] then (None, q) else (Some (last (items q)), q\<lparr>items := butlast (items q)\<rparr>))"

subsection \<open>\<open>queue/remote.rs\<close>\<close>

text \<open>
  A channel with the number of its senders and whether its receiver exists. Dropping the
  receiver drops the messages that are still in the channel.
\<close>

record 'a channel =
  pending :: "'a list"
  senders :: nat
  receiver_alive :: bool

datatype send_error = SendError

definition remote_channel :: "'a channel" where
  "remote_channel = \<lparr>pending = [], senders = 1, receiver_alive = True\<rparr>"

definition tx_send :: "'a channel \<Rightarrow> 'a \<Rightarrow> (send_error + unit) \<times> 'a channel" where
  "tx_send c x =
     (if receiver_alive c then (Inr (), c\<lparr>pending := pending c @ [x]\<rparr>) else (Inl SendError, c))"

definition tx_clone :: "'a channel \<Rightarrow> 'a channel" where
  "tx_clone c = c\<lparr>senders := Suc (senders c)\<rparr>"

definition tx_drop :: "'a channel \<Rightarrow> 'a channel" where
  "tx_drop c = c\<lparr>senders := senders c - 1\<rparr>"

definition rx_drop :: "'a channel \<Rightarrow> 'a channel" where
  "rx_drop c = c\<lparr>pending := [], receiver_alive := False\<rparr>"

text \<open>
  A blocking receive. \<open>None\<close> means that the thread waits; \<open>Some (None, c)\<close> is the result
  \<open>None\<close> of \<open>recv\<close>, when the channel is empty and every sender is gone.
\<close>

definition rx_recv :: "'a channel \<Rightarrow> ('a option \<times> 'a channel) option" where
  "rx_recv c = (case pending c of
       x # xs \<Rightarrow> Some (Some x, c\<lparr>pending := xs\<rparr>)
     | [] \<Rightarrow> if senders c = 0 then Some (None, c) else None)"

subsection \<open>The contract of a message buffer\<close>

fun receive_n :: "('q \<Rightarrow> 'a option \<times> 'q) \<Rightarrow> nat \<Rightarrow> 'q \<Rightarrow> 'a list" where
  "receive_n recv 0 q = []"
| "receive_n recv (Suc n) q =
     (case recv q of (None, q') \<Rightarrow> [] | (Some x, q') \<Rightarrow> x # receive_n recv n q')"

locale msg_buffer =
  fixes ready :: "'q \<Rightarrow> bool"  \<comment> \<open>the receiving end exists\<close>
    and empty :: 'q
    and send :: "'q \<Rightarrow> 'a \<Rightarrow> 'q"
    and recv :: "'q \<Rightarrow> 'a option \<times> 'q"
    and contents :: "'q \<Rightarrow> 'a list"  \<comment> \<open>in the order of delivery\<close>
  assumes ready_empty: "ready empty"
    and ready_send: "ready q \<Longrightarrow> ready (send q x)"
    and contents_empty: "contents empty = []"
    and mset_send: "ready q \<Longrightarrow> mset (contents (send q x)) = add_mset x (mset (contents q))"
    and recv_None: "contents q = [] \<Longrightarrow> recv q = (None, q)"
    and recv_Some: "contents q = x # xs \<Longrightarrow> \<exists>q'. recv q = (Some x, q') \<and> contents q' = xs"
begin

lemma receive_contents: "length (contents q) \<le> n \<Longrightarrow> receive_n recv n q = contents q"
proof (induction n arbitrary: q)
  case (Suc n)
  show ?case
  proof (cases "contents q")
    case Nil
    then show ?thesis using recv_None by simp
  next
    case (Cons x xs)
    with recv_Some obtain q' where "recv q = (Some x, q')" "contents q' = xs" by blast
    then show ?thesis using Suc Cons by simp
  qed
qed simp

lemma ready_send_all: "ready q \<Longrightarrow> ready (foldl send q xs)"
  by (induction xs arbitrary: q) (auto simp: ready_send)

lemma mset_send_all: "ready q \<Longrightarrow> mset (contents (foldl send q xs)) = mset (contents q) + mset xs"
  by (induction xs arbitrary: q) (auto simp: mset_send ready_send)

lemma nothing_lost: "mset (receive_n recv (length xs) (foldl send empty xs)) = mset xs"
proof -
  have m: "mset (contents (foldl send empty xs)) = mset xs"
    by (simp add: mset_send_all ready_empty contents_empty)
  then have "length (contents (foldl send empty xs)) = length xs" by (metis size_mset)
  then show ?thesis by (simp add: receive_contents m)
qed

end

locale fifo_buffer = msg_buffer ready empty send recv contents
  for ready :: "'q \<Rightarrow> bool" and empty and send :: "'q \<Rightarrow> 'a \<Rightarrow> 'q" and recv and contents +
  assumes contents_send_last: "ready q \<Longrightarrow> contents (send q x) = contents q @ [x]"
begin

lemma send_all_fifo: "ready q \<Longrightarrow> contents (foldl send q xs) = contents q @ xs"
  by (induction xs arbitrary: q) (auto simp: contents_send_last ready_send)

lemma delivered_in_order: "receive_n recv (length xs) (foldl send empty xs) = xs"
  by (simp add: receive_contents send_all_fifo ready_empty contents_empty)

end

locale lifo_buffer = msg_buffer ready empty send recv contents
  for ready :: "'q \<Rightarrow> bool" and empty and send :: "'q \<Rightarrow> 'a \<Rightarrow> 'q" and recv and contents +
  assumes contents_send_first: "ready q \<Longrightarrow> contents (send q x) = x # contents q"
begin

lemma send_all_lifo: "ready q \<Longrightarrow> contents (foldl send q xs) = rev xs @ contents q"
  by (induction xs arbitrary: q) (auto simp: contents_send_first ready_send)

lemma delivered_in_reverse: "receive_n recv (length xs) (foldl send empty xs) = rev xs"
  by (simp add: receive_contents send_all_lifo ready_empty contents_empty)

end

interpretation lq: lifo_buffer "\<lambda>_. True" local_unbounded local_send local_recv "\<lambda>q. rev (items q)"
  by unfold_locales
    (auto simp: local_unbounded_def local_send_def local_recv_def rev_eq_Cons_iff)

text \<open>
  A receive that does not wait, and a send whose result was unwrapped: how the runtime uses a
  channel whose receiver exists.
\<close>

definition rx_try :: "'a channel \<Rightarrow> 'a option \<times> 'a channel" where
  "rx_try c = (case rx_recv c of None \<Rightarrow> (None, c) | Some r \<Rightarrow> r)"

definition tx_push :: "'a channel \<Rightarrow> 'a \<Rightarrow> 'a channel" where
  "tx_push c x = snd (tx_send c x)"

interpretation rq: fifo_buffer receiver_alive remote_channel tx_push rx_try pending
  by unfold_locales
    (auto simp: remote_channel_def tx_push_def tx_send_def rx_try_def rx_recv_def split: list.splits)

subsection \<open>Properties\<close>

text \<open>
  C39. The local queue delivers last-in first-out, the remote one first-in first-out: the same
  messages, sent in the same order, are received in opposite orders, and none is lost.
\<close>

theorem queues_deliver_in_opposite_orders:
  "receive_n local_recv (length xs) (foldl local_send local_unbounded xs) = rev xs \<and>
   receive_n rx_try (length xs) (foldl tx_push remote_channel xs) = xs"
  using lq.delivered_in_reverse rq.delivered_in_order by blast

text \<open>
  A send fails exactly if the receiver was dropped, and then changes nothing; otherwise the
  message is received after all those already in the channel. A receive reports the end of the
  channel only when it is empty and has no sender left, and waits only when it is empty.
\<close>

theorem remote_channel_contract:
  "(fst (tx_send c x) = Inl SendError \<longleftrightarrow> \<not> receiver_alive c) \<and>
   (receiver_alive c \<longrightarrow> pending (snd (tx_send c x)) = pending c @ [x]) \<and>
   (\<not> receiver_alive c \<longrightarrow> snd (tx_send c x) = c) \<and>
   (rx_recv c = None \<longleftrightarrow> pending c = [] \<and> senders c \<noteq> 0) \<and>
   ((\<exists>c'. rx_recv c = Some (None, c')) \<longleftrightarrow> pending c = [] \<and> senders c = 0)"
  by (auto simp: tx_send_def rx_recv_def split: list.splits)

theorem remote_channel_contract_witness:
  "rx_recv (tx_drop remote_channel) = Some (None, tx_drop (remote_channel :: nat channel)) \<and>
   pending (snd (tx_send remote_channel (7 :: nat))) = [7]"
  using remote_channel_contract [of "remote_channel" "7 :: nat"]
  by (simp add: remote_channel_def tx_drop_def rx_recv_def)

end
