(* ===== verification/Object.thy ===== *)
theory Object
  imports Alloc
begin

text \<open>
  Actor types as the runtime sees them: \<open>object/mod.rs\<close>, \<open>object/actor.rs\<close> and the derive macro
  of \<open>dytor_proc_macros\<close>. A Rust type that implements \<open>Actor\<close> is a record of what the
  compiler knows of it; \<open>create_vtable\<close> turns it into the table of functions through which
  the runtime deserializes its configuration, constructs it and drops it.

  The deserializer of the configuration type and the actor's \<open>init\<close> are code of the actor's
  author: they are fields of the record. A \<open>Box<dyn Any>\<close> is a value tagged with its type.
\<close>

datatype type_id = TypeId nat
datatype trait_id = TraitId nat
datatype dyn_meta = DynMeta nat  \<comment> \<open>the vtable pointer of a trait object\<close>

type_synonym 'c any = "type_id \<times> 'c"

record ('v, 'c, 'a, 'r) actor_type =
  at_type_id :: type_id
  at_ident :: string                  \<comment> \<open>the identifier of the struct\<close>
  at_size :: usize
  at_align :: usize
  at_config_type :: type_id
  at_deserialize :: "'v \<Rightarrow> 'c option"  \<comment> \<open>\<open>Config::deserialize\<close>\<close>
  at_init :: "'a \<Rightarrow> 'c \<Rightarrow> 'r option"     \<comment> \<open>\<open>Actor::init\<close>, an \<open>anyhow::Result\<close>\<close>

text \<open>\<open>#[derive(UniquelyNamed)]\<close>: the identifier of the struct, without its path.\<close>

definition uniquely_named :: "('v, 'c, 'a, 'r) actor_type \<Rightarrow> string" where
  "uniquely_named t = at_ident t"

record ('v, 'c, 'a, 'r) vtable =
  vt_deserialize :: "'v \<Rightarrow> 'c any option"
  vt_constructor :: "'a \<Rightarrow> usize \<times> usize \<Rightarrow> 'c any \<Rightarrow> 'r option res"
  vt_drop :: "usize \<Rightarrow> unit res"
  vt_type_id :: type_id
  vt_size :: usize
  vt_align :: usize

text \<open>
  The constructor checks the length of its destination, downcasts the configuration, checks
  the alignment of the destination and runs \<open>init\<close>.
\<close>

definition actor_constructor ::
    "('v, 'c, 'a, 'r) actor_type \<Rightarrow> 'a \<Rightarrow> usize \<times> usize \<Rightarrow> 'c any \<Rightarrow> 'r option res" where
  "actor_constructor t args dest config =
     rbind (guard AssertFailed (snd dest = at_size t)) (\<lambda>_.
     rbind (unwrap (if fst config = at_config_type t then Some (snd config) else None)) (\<lambda>cfg.
     rbind (guard AssertFailed (align_offset (fst dest) (at_align t) = 0)) (\<lambda>_.
     Ok (at_init t args cfg))))"

definition vtable_deserialize :: "('v, 'c, 'a, 'r) actor_type \<Rightarrow> 'v \<Rightarrow> 'c any option" where
  "vtable_deserialize t d = map_option (Pair (at_config_type t)) (at_deserialize t d)"

definition vtable_drop :: "('v, 'c, 'a, 'r) actor_type \<Rightarrow> usize \<Rightarrow> unit res" where
  "vtable_drop t ptr = guard AssertFailed (align_offset ptr (at_align t) = 0)"

text \<open>\<open>VTable::new_impl\<close>; \<open>ObjectConstructor\<close> has only one variant.\<close>

definition new_impl ::
    "('v, 'c, 'a, 'r) actor_type \<Rightarrow> ('a \<Rightarrow> usize \<times> usize \<Rightarrow> 'c any \<Rightarrow> 'r option res) \<Rightarrow> ('v, 'c, 'a, 'r) vtable" where
  [simp]: "new_impl t constructor =
     \<lparr>vt_deserialize = vtable_deserialize t, vt_constructor = constructor,
      vt_drop = vtable_drop t, vt_type_id = at_type_id t, vt_size = at_size t, vt_align = at_align t\<rparr>"

definition create_vtable :: "('v, 'c, 'a, 'r) actor_type \<Rightarrow> ('v, 'c, 'a, 'r) vtable" where
  "create_vtable t = new_impl t (actor_constructor t)"

definition vtable_layout :: "('v, 'c, 'a, 'r) vtable \<Rightarrow> layout res" where
  "vtable_layout v = unwrap (from_size_align (vt_size v) (vt_align v))"

text \<open>What the compiler guarantees of the size and alignment of a type.\<close>

definition wf_actor_type :: "('v, 'c, 'a, 'r) actor_type \<Rightarrow> bool" where
  "wf_actor_type t \<longleftrightarrow> wf_layout \<lparr>lay_size = at_size t, lay_align = at_align t\<rparr>"

lemma create_vtable_layout:
  "wf_actor_type t \<Longrightarrow>
    vtable_layout (create_vtable t) = Ok \<lparr>lay_size = at_size t, lay_align = at_align t\<rparr>"
  by (simp add: vtable_layout_def create_vtable_def wf_actor_type_def from_size_align_def)

lemma vtable_layout_wf: "vtable_layout v = Ok l \<Longrightarrow> wf_layout l"
  by (auto simp: vtable_layout_def from_size_align_def Let_def split: if_splits)

lemma vtable_layout_fields:
  "vtable_layout v = Ok l \<Longrightarrow> lay_size l = vt_size v \<and> lay_align l = vt_align v"
  by (auto simp: vtable_layout_def from_size_align_def Let_def split: if_splits)

text \<open>
  A constructor that is given the configuration its own vtable deserialized, and an aligned
  destination of the right length, runs \<open>init\<close>: none of its checks fails.
\<close>

lemma constructor_runs_init:
  assumes "vtable_deserialize t d = Some config" "snd dest = at_size t"
    and "is_pow2 (at_align t)" "unat (at_align t) dvd unat (fst dest)"
  shows "\<exists>cfg. at_deserialize t d = Some cfg \<and>
    actor_constructor t args dest config = Ok (at_init t args cfg)"
  using assms by (auto simp: vtable_deserialize_def actor_constructor_def align_offset_0_iff)

end
