(* ===== verification/Registry.thy ===== *)
theory Registry
  imports Object
begin

text \<open>
  \<open>registry.rs\<close>. Actors and resources register themselves before \<open>main\<close>: each has a static list
  node, pushed onto the list \<open>INIT_FNS\<close> by \<open>init_node\<close>; the first \<open>Registry::get\<close> walks
  the list and runs each node's function on a \<open>RegistryBuilder\<close>.

  Hash maps are maps; the function of a list node is a value of \<open>registration\<close>, one
  constructor for each of the two macros that declare nodes.
\<close>

subsection \<open>The builder and the registry\<close>

record interface_metadata =
  im_type_id :: type_id
  im_dyn_meta :: dyn_meta

record ('v, 'c, 'a, 'r, 's) registry =
  actor_types :: "type_id \<rightharpoonup> ('v, 'c, 'a, 'r) vtable"
  trait_types :: "trait_id \<rightharpoonup> interface_metadata list"
  name_to_type_id :: "string \<rightharpoonup> type_id"
  resource_constructors :: "type_id \<rightharpoonup> 's"

definition builder_default :: "('v, 'c, 'a, 'r, 's) registry" where
  "builder_default = \<lparr>actor_types = Map.empty, trait_types = Map.empty,
     name_to_type_id = Map.empty, resource_constructors = Map.empty\<rparr>"

datatype registration_error = RegisteredTwice

type_synonym ('v, 'c, 'a, 'r, 's) init_result =
  "((registration_error + unit) \<times> ('v, 'c, 'a, 'r, 's) registry) res"

text \<open>\<open>metadata_helper::<dyn D, S>\<close>: the entry of the trait \<open>D\<close> for the type \<open>S\<close>.\<close>

definition metadata_helper :: "trait_id \<Rightarrow> dyn_meta \<Rightarrow> type_id \<Rightarrow> trait_id \<times> interface_metadata" where
  "metadata_helper d m s = (d, \<lparr>im_type_id = s, im_dyn_meta = m\<rparr>)"

definition push_trait ::
    "trait_id \<times> interface_metadata \<Rightarrow> ('v, 'c, 'a, 'r, 's) registry \<Rightarrow> ('v, 'c, 'a, 'r, 's) registry" where
  "push_trait tm r = (case tm of (trait, meta) \<Rightarrow>
     r\<lparr>trait_types := (trait_types r)(trait \<mapsto>
         (case trait_types r trait of None \<Rightarrow> [] | Some ms \<Rightarrow> ms) @ [meta])\<rparr>)"

definition init_actor ::
    "('v, 'c, 'a, 'r) actor_type \<Rightarrow> (trait_id \<times> interface_metadata) list \<Rightarrow>
     ('v, 'c, 'a, 'r, 's) registry \<Rightarrow> ('v, 'c, 'a, 'r, 's) init_result" where
  "init_actor t traits r =
     (let prev = actor_types r (at_type_id t);
          r1 = r\<lparr>actor_types := (actor_types r)(at_type_id t \<mapsto> create_vtable t)\<rparr>;
          r2 = fold push_trait traits r1
      in if prev \<noteq> None then Ok (Inl RegisteredTwice, r2)
         else
           rbind (guard AssertFailed (name_to_type_id r2 (uniquely_named t) = None)) (\<lambda>_.
           Ok (Inr (), r2\<lparr>name_to_type_id := (name_to_type_id r2)(uniquely_named t \<mapsto> at_type_id t)\<rparr>)))"

definition init_resource ::
    "type_id \<Rightarrow> 's \<Rightarrow> ('v, 'c, 'a, 'r, 's) registry \<Rightarrow> ('v, 'c, 'a, 'r, 's) init_result" where
  "init_resource t f r =
     (let prev = resource_constructors r t;
          r1 = r\<lparr>resource_constructors := (resource_constructors r)(t \<mapsto> f)\<rparr>
      in if prev \<noteq> None then Ok (Inl RegisteredTwice, r1) else Ok (Inr (), r1))"

text \<open>
  The function of a list node: \<open>register_actor!(S { dyn D, ... })\<close> collects the metadata of the
  traits and calls \<open>init_actor\<close>, \<open>register_resource!(f)\<close> calls \<open>init_resource\<close>.
\<close>

datatype ('v, 'c, 'a, 'r, 's) registration =
    RegisterActor "('v, 'c, 'a, 'r) actor_type" "(trait_id \<times> dyn_meta) list"
  | RegisterResource type_id 's

fun node_f :: "('v, 'c, 'a, 'r, 's) registration \<Rightarrow> ('v, 'c, 'a, 'r, 's) registry \<Rightarrow>
    ('v, 'c, 'a, 'r, 's) init_result" where
  "node_f (RegisterActor t traits) r =
     init_actor t (map (\<lambda>(d, m). metadata_helper d m (at_type_id t)) traits) r"
| "node_f (RegisterResource t f) r = init_resource t f r"

text \<open>\<open>Result::ok\<close>.\<close>

definition ok_or_none :: "'e + 'b \<Rightarrow> 'b option" where
  "ok_or_none res = (case res of Inl _ \<Rightarrow> None | Inr u \<Rightarrow> Some u)"

lemma ok_or_none_simps [simp]:
  "ok_or_none (Inl e) = None" "ok_or_none (Inr u) = Some u"
  "ok_or_none res = Some v \<longleftrightarrow> res = Inr v"
  by (auto simp: ok_or_none_def split: sum.splits)

text \<open>The walk of \<open>Registry::get\<close> over the nodes, in the order of the list.\<close>

fun run_nodes :: "('v, 'c, 'a, 'r, 's) registration list \<Rightarrow> ('v, 'c, 'a, 'r, 's) registry \<Rightarrow>
    ('v, 'c, 'a, 'r, 's) registry res" where
  "run_nodes [] r = Ok r"
| "run_nodes (n # ns) r =
     rbind (node_f n r) (\<lambda>(res, r').
     rbind (unwrap (ok_or_none res)) (\<lambda>_.
     run_nodes ns r'))"

definition by_name :: "('v, 'c, 'a, 'r, 's) registry \<Rightarrow> string \<Rightarrow>
    (type_id \<times> ('v, 'c, 'a, 'r) vtable) option" where
  "by_name r name = (case name_to_type_id r name of None \<Rightarrow> None
     | Some type_id \<Rightarrow> (case actor_types r type_id of None \<Rightarrow> None
        | Some vtable \<Rightarrow> Some (type_id, vtable)))"

subsection \<open>The list of nodes\<close>

text \<open>
  The linked list in memory: nodes are named by their address, \<open>next\<close> is the \<open>next\<close> field of
  each, \<open>head\<close> the static \<open>INIT_FNS\<close>. The walk follows the pointers until it reads null; it
  need not end on an arbitrary memory, so it is a partial function.
\<close>

type_synonym addr = nat

partial_function (option) walk :: "(addr \<Rightarrow> addr option) \<Rightarrow> addr option \<Rightarrow> addr list option" where
  "walk nxt ptr = (case ptr of None \<Rightarrow> Some []
     | Some n \<Rightarrow> Option.bind (walk nxt (nxt n)) (\<lambda>ns. Some (n # ns)))"

fun chain :: "(addr \<Rightarrow> addr option) \<Rightarrow> addr option \<Rightarrow> addr list \<Rightarrow> bool" where
  "chain nxt ptr [] \<longleftrightarrow> ptr = None"
| "chain nxt ptr (n # ns) \<longleftrightarrow> ptr = Some n \<and> chain nxt (nxt n) ns"

lemma walk_chain: "chain nxt ptr ns \<Longrightarrow> walk nxt ptr = Some ns"
proof (induction ns arbitrary: ptr)
  case Nil
  then show ?case by (simp add: walk.simps [of nxt None])
next
  case (Cons n ns)
  then show ?case by (simp add: walk.simps [of nxt "Some n"])
qed

lemma chain_upd: "n \<notin> set ns \<Longrightarrow> chain (nxt(n := p)) ptr ns \<longleftrightarrow> chain nxt ptr ns"
  by (induction ns arbitrary: ptr) auto

text \<open>
  \<open>init_node\<close> as the steps of the thread that pushes the node: load the head, store it in the
  node's \<open>next\<close>, then \<open>compare_exchange_weak\<close>, which may fail even if the head is the
  expected one; a failure returns the head it read and the loop goes round again.
\<close>

datatype push_pc = Idle | Store "addr option" | Exchange "addr option" | Pushed

record push_state =
  head :: "addr option"
  next_of :: "addr \<Rightarrow> addr option"
  pc :: "addr \<Rightarrow> push_pc"

definition push_init :: push_state where
  "push_init = \<lparr>head = None, next_of = (\<lambda>_. None), pc = (\<lambda>_. Idle)\<rparr>"

inductive push_step :: "push_state \<Rightarrow> push_state \<Rightarrow> bool" where
  load: "pc s n = Idle \<Longrightarrow> push_step s (s\<lparr>pc := (pc s)(n := Store (head s))\<rparr>)"
| store: "pc s n = Store p \<Longrightarrow>
    push_step s (s\<lparr>next_of := (next_of s)(n := p), pc := (pc s)(n := Exchange p)\<rparr>)"
| exchange_ok: "pc s n = Exchange p \<Longrightarrow> head s = p \<Longrightarrow>
    push_step s (s\<lparr>head := Some n, pc := (pc s)(n := Pushed)\<rparr>)"
| exchange_fail: "pc s n = Exchange p \<Longrightarrow>
    push_step s (s\<lparr>pc := (pc s)(n := Store (head s))\<rparr>)"

inductive push_reachable :: "push_state \<Rightarrow> bool" where
  init: "push_reachable push_init"
| step: "push_reachable s \<Longrightarrow> push_step s t \<Longrightarrow> push_reachable t"

definition push_inv :: "push_state \<Rightarrow> bool" where
  "push_inv s \<longleftrightarrow>
     (\<exists>ns. chain (next_of s) (head s) ns \<and> distinct ns \<and> set ns = {n. pc s n = Pushed}) \<and>
     (\<forall>n p. pc s n = Exchange p \<longrightarrow> next_of s n = p)"

lemma push_inv_init: "push_inv push_init"
  by (auto simp: push_inv_def push_init_def intro: exI [of _ "[]"])

lemma push_inv_frame:
  assumes inv: "push_inv s" and n: "pc s n \<noteq> Pushed" "pc' \<noteq> Pushed"
    and exch: "\<And>p. pc' = Exchange p \<Longrightarrow> q = p"
  shows "push_inv (s\<lparr>next_of := (next_of s)(n := q), pc := (pc s)(n := pc')\<rparr>)"
proof -
  obtain ns where ns: "chain (next_of s) (head s) ns" "distinct ns" "set ns = {n. pc s n = Pushed}"
    using inv by (auto simp: push_inv_def)
  then have "n \<notin> set ns" using n by simp
  then have "chain ((next_of s)(n := q)) (head s) ns" using ns(1) by (simp add: chain_upd)
  moreover have "set ns = {m. ((pc s)(n := pc')) m = Pushed}" using ns(3) n by auto
  ultimately show ?thesis using ns(2) inv exch by (auto simp: push_inv_def)
qed

lemma push_step_inv: "push_step s t \<Longrightarrow> push_inv s \<Longrightarrow> push_inv t"
proof (induction rule: push_step.induct)
  case (load s n)
  then show ?case using push_inv_frame [of s n "Store (head s)" "next_of s n"] by simp
next
  case (store s n p)
  then show ?case using push_inv_frame [of s n "Exchange p" p] by simp
next
  case (exchange_ok s n p)
  then obtain ns where ns: "chain (next_of s) (head s) ns" "distinct ns" "set ns = {n. pc s n = Pushed}"
    by (auto simp: push_inv_def)
  have "next_of s n = head s" using exchange_ok by (simp add: push_inv_def)
  then have "chain (next_of s) (Some n) (n # ns)" using ns(1) by simp
  moreover have "distinct (n # ns)" using ns exchange_ok by simp
  moreover have "set (n # ns) = {m. ((pc s)(n := Pushed)) m = Pushed}" using ns(3) by auto
  ultimately show ?case using exchange_ok by (auto simp: push_inv_def intro!: exI [of _ "n # ns"])
next
  case (exchange_fail s n p)
  then show ?case using push_inv_frame [of s n "Store (head s)" "next_of s n"] by simp
qed

lemma push_reachable_inv: "push_reachable s \<Longrightarrow> push_inv s"
  by (induction rule: push_reachable.induct) (auto intro: push_inv_init push_step_inv)

text \<open>\<open>OnceLock::get_or_init\<close>: the registry is built by the first call and kept.\<close>

definition registry_get :: "('v, 'c, 'a, 'r, 's) registry option \<Rightarrow>
    (addr \<Rightarrow> ('v, 'c, 'a, 'r, 's) registration) \<Rightarrow> (addr \<Rightarrow> addr option) \<Rightarrow> addr option \<Rightarrow>
    ('v, 'c, 'a, 'r, 's) registry res option" where
  "registry_get cell node nxt head_ptr = (case cell of
       Some r \<Rightarrow> Some (Ok r)
     | None \<Rightarrow> map_option (\<lambda>ns. run_nodes (map node ns) builder_default) (walk nxt head_ptr))"

subsection \<open>What the registry holds\<close>

fun actors_of :: "('v, 'c, 'a, 'r, 's) registration list \<Rightarrow> ('v, 'c, 'a, 'r) actor_type list" where
  "actors_of [] = []"
| "actors_of (RegisterActor t _ # ns) = t # actors_of ns"
| "actors_of (RegisterResource _ _ # ns) = actors_of ns"

fun resources_of :: "('v, 'c, 'a, 'r, 's) registration list \<Rightarrow> (type_id \<times> 's) list" where
  "resources_of [] = []"
| "resources_of (RegisterActor _ _ # ns) = resources_of ns"
| "resources_of (RegisterResource t f # ns) = (t, f) # resources_of ns"

fun metas_of :: "('v, 'c, 'a, 'r, 's) registration list \<Rightarrow> trait_id \<Rightarrow> interface_metadata list" where
  "metas_of [] d = []"
| "metas_of (RegisterActor t traits # ns) d =
     map (\<lambda>(_, m). \<lparr>im_type_id = at_type_id t, im_dyn_meta = m\<rparr>) (filter (\<lambda>(d', _). d' = d) traits) @
     metas_of ns d"
| "metas_of (RegisterResource _ _ # ns) d = metas_of ns d"

definition trait_list :: "('v, 'c, 'a, 'r, 's) registry \<Rightarrow> trait_id \<Rightarrow> interface_metadata list" where
  "trait_list r d = (case trait_types r d of None \<Rightarrow> [] | Some ms \<Rightarrow> ms)"

lemma push_trait_fields [simp]:
  "actor_types (fold push_trait tms r) = actor_types r"
  "name_to_type_id (fold push_trait tms r) = name_to_type_id r"
  "resource_constructors (fold push_trait tms r) = resource_constructors r"
  by (induction tms arbitrary: r) (auto simp: push_trait_def)

lemma trait_list_push:
  "trait_list (fold push_trait tms r) d = trait_list r d @ map snd (filter (\<lambda>(d', _). d' = d) tms)"
proof (induction tms arbitrary: r)
  case (Cons tm tms)
  have "trait_list (push_trait tm r) d =
      trait_list r d @ (if fst tm = d then [snd tm] else [])"
    by (cases tm) (auto simp: push_trait_def trait_list_def split: option.splits)
  then show ?case using Cons by (cases tm) simp
qed simp

lemma trait_list_frame [simp]:
  "trait_list (r\<lparr>name_to_type_id := x\<rparr>) d = trait_list r d"
  "trait_list (r\<lparr>actor_types := y\<rparr>) d = trait_list r d"
  "trait_list (r\<lparr>resource_constructors := z\<rparr>) d = trait_list r d"
  by (simp_all add: trait_list_def)

text \<open>The walk succeeds exactly if no type, name or resource is registered twice.\<close>

definition fresh_for :: "('v, 'c, 'a, 'r, 's) registration list \<Rightarrow> ('v, 'c, 'a, 'r, 's) registry \<Rightarrow> bool" where
  "fresh_for ns r \<longleftrightarrow>
     distinct (map at_type_id (actors_of ns)) \<and> distinct (map uniquely_named (actors_of ns)) \<and>
     distinct (map fst (resources_of ns)) \<and>
     dom (actor_types r) \<inter> at_type_id ` set (actors_of ns) = {} \<and>
     dom (name_to_type_id r) \<inter> uniquely_named ` set (actors_of ns) = {} \<and>
     dom (resource_constructors r) \<inter> fst ` set (resources_of ns) = {}"

lemma run_nodes_Ok_iff: "is_ok (run_nodes ns r) \<longleftrightarrow> fresh_for ns r"
proof (induction ns arbitrary: r)
  case (Cons n ns)
  show ?case
  proof (cases n)
    case (RegisterActor t traits)
    show ?thesis
    proof (cases "actor_types r (at_type_id t) = None \<and> name_to_type_id r (uniquely_named t) = None")
      case True
      then show ?thesis using RegisterActor Cons
        by (auto simp: init_actor_def Let_def fresh_for_def)
    next
      case False
      then show ?thesis using RegisterActor
        by (auto simp: init_actor_def Let_def fresh_for_def is_ok_def)
    qed
  next
    case (RegisterResource t f)
    then show ?thesis using Cons
      by (cases "resource_constructors r t") (auto simp: init_resource_def fresh_for_def Let_def)
  qed
qed (simp add: fresh_for_def)

lemma run_nodes_result:
  assumes "run_nodes ns r = Ok r'"
  shows "actor_types r' = actor_types r ++ map_of (map (\<lambda>t. (at_type_id t, create_vtable t)) (actors_of ns))"
    and "name_to_type_id r' = name_to_type_id r ++ map_of (map (\<lambda>t. (uniquely_named t, at_type_id t)) (actors_of ns))"
    and "resource_constructors r' = resource_constructors r ++ map_of (resources_of ns)"
    and "trait_list r' d = trait_list r d @ metas_of ns d"
proof -
  have "actor_types r' = actor_types r ++ map_of (map (\<lambda>t. (at_type_id t, create_vtable t)) (actors_of ns)) \<and>
    name_to_type_id r' = name_to_type_id r ++ map_of (map (\<lambda>t. (uniquely_named t, at_type_id t)) (actors_of ns)) \<and>
    resource_constructors r' = resource_constructors r ++ map_of (resources_of ns) \<and>
    trait_list r' d = trait_list r d @ metas_of ns d"
    using assms
  proof (induction ns arbitrary: r)
    case (Cons n ns)
    then obtain r1 where r1: "node_f n r = Ok (Inr (), r1)" "run_nodes ns r1 = Ok r'"
      by auto
    note IH = Cons.IH [OF r1(2)]
    have fresh: "fresh_for (n # ns) r" using Cons.prems run_nodes_Ok_iff [of "n # ns" r] by (simp only: is_ok_simps simp_thms)
    show ?case
    proof (cases n)
      case (RegisterActor t traits)
      have traits: "map snd (filter (\<lambda>(d', _). d' = d)
            (map (\<lambda>(d, m). metadata_helper d m (at_type_id t)) traits)) =
          map (\<lambda>(_, m). \<lparr>im_type_id = at_type_id t, im_dyn_meta = m\<rparr>) (filter (\<lambda>(d', _). d' = d) traits)"
        by (induction traits) (auto simp: metadata_helper_def)
      have r1': "actor_types r1 = (actor_types r)(at_type_id t \<mapsto> create_vtable t)"
        "name_to_type_id r1 = (name_to_type_id r)(uniquely_named t \<mapsto> at_type_id t)"
        "resource_constructors r1 = resource_constructors r"
        "trait_list r1 d = trait_list r d @ metas_of [n] d"
        using r1(1) RegisterActor traits by (auto simp: init_actor_def Let_def trait_list_push split: if_splits)
      have new: "at_type_id t \<notin> fst ` set (map (\<lambda>t. (at_type_id t, create_vtable t)) (actors_of ns))"
        "uniquely_named t \<notin> fst ` set (map (\<lambda>t. (uniquely_named t, at_type_id t)) (actors_of ns))"
        using fresh RegisterActor by (auto simp: fresh_for_def)
      have "metas_of (n # ns) d = metas_of [n] d @ metas_of ns d" using RegisterActor by simp
      then show ?thesis
        using IH by (simp only: RegisterActor actors_of.simps resources_of.simps list.map map_of.simps
            fst_conv snd_conv r1' map_add_upd_first [OF new(1)] map_add_upd_first [OF new(2)]
            append_assoc simp_thms)
    next
      case (RegisterResource t f)
      have new: "t \<notin> fst ` set (resources_of ns)"
        using fresh RegisterResource by (auto simp: fresh_for_def)
      have "r1 = r\<lparr>resource_constructors := (resource_constructors r)(t \<mapsto> f)\<rparr>"
        using r1 RegisterResource by (auto simp: init_resource_def Let_def split: if_splits)
      then have "actor_types r1 = actor_types r" "name_to_type_id r1 = name_to_type_id r"
        "resource_constructors r1 = (resource_constructors r)(t \<mapsto> f)"
        "trait_list r1 d = trait_list r d" by simp_all
      then show ?thesis
        using IH by (simp only: RegisterResource actors_of.simps resources_of.simps metas_of.simps
            map_of.simps fst_conv snd_conv map_add_upd_first [OF new] simp_thms)
    qed
  qed simp
  then show "actor_types r' = actor_types r ++ map_of (map (\<lambda>t. (at_type_id t, create_vtable t)) (actors_of ns))"
    "name_to_type_id r' = name_to_type_id r ++ map_of (map (\<lambda>t. (uniquely_named t, at_type_id t)) (actors_of ns))"
    "resource_constructors r' = resource_constructors r ++ map_of (resources_of ns)"
    "trait_list r' d = trait_list r d @ metas_of ns d" by blast+
qed

lemma map_of_find:
  "map_of (map (\<lambda>t. (f t, g t)) ts) k = map_option g (find (\<lambda>t. f t = k) ts)"
  by (induction ts) auto

lemma by_name_registered:
  assumes r: "run_nodes ns builder_default = Ok r"
  shows "by_name r name = map_option (\<lambda>t. (at_type_id t, create_vtable t))
    (find (\<lambda>t. uniquely_named t = name) (actors_of ns))"
proof -
  have fresh: "distinct (map at_type_id (actors_of ns))"
    using run_nodes_Ok_iff [of ns builder_default] r by (simp add: fresh_for_def)
  have names: "name_to_type_id r name = map_option at_type_id (find (\<lambda>t. uniquely_named t = name) (actors_of ns))"
    using run_nodes_result(2) [OF r] by (simp add: builder_default_def map_of_find)
  have types: "actor_types r (at_type_id t) = Some (create_vtable t)" if "t \<in> set (actors_of ns)" for t
    using run_nodes_result(1) [OF r] that fresh
    by (simp add: builder_default_def map_of_eq_Some_iff comp_def)
  show ?thesis
  proof (cases "find (\<lambda>t. uniquely_named t = name) (actors_of ns)")
    case (Some t)
    then have "t \<in> set (actors_of ns)" by (auto simp: find_Some_iff)
    then show ?thesis using Some types by (simp add: by_name_def names)
  qed (simp add: by_name_def names)
qed

subsection \<open>The order of the registrations\<close>

lemma trait_types_nonempty:
  "run_nodes ns r = Ok r' \<Longrightarrow> (\<And>d. trait_types r d \<noteq> Some []) \<Longrightarrow> trait_types r' d \<noteq> Some []"
proof (induction ns arbitrary: r)
  case (Cons n ns)
  then obtain r1 where r1: "node_f n r = Ok (Inr (), r1)" "run_nodes ns r1 = Ok r'" by auto
  have push: "trait_types (fold push_trait tms q) d \<noteq> Some []" if "\<And>d. trait_types q d \<noteq> Some []"
    for tms d and q :: "('a, 'b, 'c, 'd, 'e) registry"
    using that by (induction tms arbitrary: q) (auto simp: push_trait_def)
  have "trait_types r1 d \<noteq> Some []" for d
    using r1(1) Cons.prems(2)
    by (cases n) (auto simp: init_actor_def init_resource_def Let_def push split: if_splits)
  then show ?case using Cons.IH [OF r1(2)] by blast
qed simp

lemma additive_mset:
  fixes f :: "'n list \<Rightarrow> 'x multiset"
  assumes "f [] = {#}" "\<And>n ns. f (n # ns) = f [n] + f ns" "mset ms = mset ns"
  shows "f ms = f ns"
proof -
  have "f xs = sum_mset (image_mset (\<lambda>n. f [n]) (mset xs))" for xs
  proof (induction xs)
    case (Cons x xs)
    then show ?case using assms(2) [of x xs] by (simp only: mset.simps image_mset_add_mset sum_mset.add_mset)
  qed (simp add: assms(1))
  then show ?thesis using assms(3) by metis
qed

lemma of_nodes_mset:
  assumes "mset ms = mset ns"
  shows "mset (actors_of ms) = mset (actors_of ns)" "mset (resources_of ms) = mset (resources_of ns)"
    "mset (metas_of ms d) = mset (metas_of ns d)"
proof -
  have "actors_of (n # ns) = actors_of [n] @ actors_of ns" "resources_of (n # ns) = resources_of [n] @ resources_of ns"
    "metas_of (n # ns) d = metas_of [n] d @ metas_of ns d" for n and ns :: "('a, 'b, 'c, 'd, 'e) registration list"
    by (cases n; simp)+
  note parts = this
  show "mset (actors_of ms) = mset (actors_of ns)"
    by (rule additive_mset [where f = "\<lambda>ns. mset (actors_of ns)", OF _ _ assms]) (simp, metis parts(1) mset_append)
  show "mset (resources_of ms) = mset (resources_of ns)"
    by (rule additive_mset [where f = "\<lambda>ns. mset (resources_of ns)", OF _ _ assms]) (simp, metis parts(2) mset_append)
  show "mset (metas_of ms d) = mset (metas_of ns d)"
    by (rule additive_mset [where f = "\<lambda>ns. mset (metas_of ns d)", OF _ _ assms]) (simp, metis parts(3) mset_append)
qed

lemma distinct_map_mset: "mset xs = mset ys \<Longrightarrow> distinct (map f xs) \<longleftrightarrow> distinct (map f ys)"
  by (metis mset_eq_imp_distinct_iff mset_map)

lemma map_of_mset_eq:
  assumes "mset xs = mset ys" "distinct (map fst ys)"
  shows "map_of xs = map_of ys"
  using assms distinct_map_mset [OF assms(1), of fst] map_of_inject_set [of xs ys] mset_eq_setD [OF assms(1)] by simp

text \<open>The registry does not depend on the order of the nodes, if no trait has two implementations.\<close>

lemma run_nodes_order:
  assumes r: "run_nodes ns builder_default = Ok r" and ms: "mset ms = mset ns"
    and one: "\<And>d. length (metas_of ns d) \<le> 1"
  shows "run_nodes ms builder_default = Ok r"
proof -
  note m = of_nodes_mset [OF ms]
  have fresh: "fresh_for ns builder_default" using run_nodes_Ok_iff [of ns builder_default] r by simp
  then have d: "distinct (map at_type_id (actors_of ns))" "distinct (map uniquely_named (actors_of ns))"
    "distinct (map fst (resources_of ns))" by (simp_all add: fresh_for_def)
  have "fresh_for ms builder_default" using d
    by (simp add: fresh_for_def builder_default_def distinct_map_mset [OF m(1)] distinct_map_mset [OF m(2)])
  then obtain r' where r': "run_nodes ms builder_default = Ok r'"
    using run_nodes_Ok_iff [of ms builder_default] by (auto simp: is_ok_iff)
  have "mset (map g (actors_of ms)) = mset (map g (actors_of ns))" for g :: "_ \<Rightarrow> 'x" using m(1) by simp
  then have "actor_types r' = actor_types r" "name_to_type_id r' = name_to_type_id r"
    using run_nodes_result(1,2) [OF r'] run_nodes_result(1,2) [OF r] d
    by (auto simp: comp_def intro!: arg_cong2 [of _ _ _ _ map_add] map_of_mset_eq)
  moreover have "resource_constructors r' = resource_constructors r"
    using run_nodes_result(3) [OF r'] run_nodes_result(3) [OF r] map_of_mset_eq [OF m(2) d(3)] by simp
  moreover have "trait_types r' = trait_types r"
  proof
    fix d
    have "metas_of ms d = metas_of ns d" using m(3) [of d] one [of d]
      by (cases "metas_of ns d") (auto simp: le_Suc_eq)
    then have "trait_list r' d = trait_list r d"
      using run_nodes_result(4) [OF r', of d] run_nodes_result(4) [OF r, of d] by simp
    moreover have "trait_types r' d \<noteq> Some []" "trait_types r d \<noteq> Some []"
      using trait_types_nonempty [OF r'] trait_types_nonempty [OF r] by (simp_all add: builder_default_def)
    ultimately show "trait_types r' d = trait_types r d" by (auto simp: trait_list_def split: option.splits)
  qed
  ultimately show ?thesis using r' by simp
qed

subsection \<open>Properties\<close>

text \<open>
  C35. However the pushes of the list nodes interleave, and however often a compare-exchange
  fails, the walk over the list ends and visits every node whose push is complete exactly
  once, and no other.
\<close>

theorem concurrent_pushes_complete:
  assumes "push_reachable s"
  shows "\<exists>ns. walk (next_of s) (head s) = Some ns \<and> distinct ns \<and> set ns = {n. pc s n = Pushed}"
  using push_reachable_inv [OF assms] walk_chain by (auto simp: push_inv_def)

text \<open>Two nodes pushed at the same time: the second exchange fails once and is repeated.\<close>

definition race :: push_state where
  "race = \<lparr>head = Some 2, next_of = (\<lambda>_. None)(1 := None, 2 := Some 1),
     pc = (\<lambda>_. Idle)(1 := Pushed, 2 := Pushed)\<rparr>"

lemma race_reachable: "push_reachable race"
proof -
  have s0: "push_reachable push_init" by (rule push_reachable.init)
  have s1: "push_reachable (push_init\<lparr>pc := (\<lambda>_. Idle)(1 := Store None)\<rparr>)"
    using push_step.load [of push_init 1] by (intro push_reachable.step [OF s0]) (simp add: push_init_def)
  have s2: "push_reachable (push_init\<lparr>pc := (\<lambda>_. Idle)(1 := Store None, 2 := Store None)\<rparr>)"
    using push_step.load [of "push_init\<lparr>pc := (\<lambda>_. Idle)(1 := Store None)\<rparr>" 2]
    by (intro push_reachable.step [OF s1]) (simp add: push_init_def)
  have s3: "push_reachable (push_init\<lparr>next_of := (\<lambda>_. None)(1 := None),
      pc := (\<lambda>_. Idle)(1 := Exchange None, 2 := Store None)\<rparr>)"
    using push_step.store [of "push_init\<lparr>pc := (\<lambda>_. Idle)(1 := Store None, 2 := Store None)\<rparr>" 1 None]
    by (intro push_reachable.step [OF s2]) (simp add: push_init_def fun_upd_twist)
  have s4: "push_reachable (push_init\<lparr>next_of := (\<lambda>_. None)(1 := None, 2 := None),
      pc := (\<lambda>_. Idle)(1 := Exchange None, 2 := Exchange None)\<rparr>)"
    using push_step.store [of "push_init\<lparr>next_of := (\<lambda>_. None)(1 := None),
      pc := (\<lambda>_. Idle)(1 := Exchange None, 2 := Store None)\<rparr>" 2 None]
    by (intro push_reachable.step [OF s3]) (simp add: push_init_def)
  have s5: "push_reachable (push_init\<lparr>head := Some 1, next_of := (\<lambda>_. None)(1 := None, 2 := None),
      pc := (\<lambda>_. Idle)(1 := Pushed, 2 := Exchange None)\<rparr>)"
    using push_step.exchange_ok [of "push_init\<lparr>next_of := (\<lambda>_. None)(1 := None, 2 := None),
      pc := (\<lambda>_. Idle)(1 := Exchange None, 2 := Exchange None)\<rparr>" 1 None]
    by (intro push_reachable.step [OF s4]) (simp add: push_init_def fun_upd_twist)
  have s6: "push_reachable (push_init\<lparr>head := Some 1, next_of := (\<lambda>_. None)(1 := None, 2 := None),
      pc := (\<lambda>_. Idle)(1 := Pushed, 2 := Store (Some 1))\<rparr>)"
    using push_step.exchange_fail [of "push_init\<lparr>head := Some 1, next_of := (\<lambda>_. None)(1 := None, 2 := None),
      pc := (\<lambda>_. Idle)(1 := Pushed, 2 := Exchange None)\<rparr>" 2 None]
    by (intro push_reachable.step [OF s5]) (simp add: push_init_def)
  have s7: "push_reachable (push_init\<lparr>head := Some 1, next_of := (\<lambda>_. None)(1 := None, 2 := Some 1),
      pc := (\<lambda>_. Idle)(1 := Pushed, 2 := Exchange (Some 1))\<rparr>)"
    using push_step.store [of "push_init\<lparr>head := Some 1, next_of := (\<lambda>_. None)(1 := None, 2 := None),
      pc := (\<lambda>_. Idle)(1 := Pushed, 2 := Store (Some 1))\<rparr>" 2 "Some 1"]
    by (intro push_reachable.step [OF s6]) (simp add: push_init_def)
  show ?thesis
    using push_step.exchange_ok [of "push_init\<lparr>head := Some 1, next_of := (\<lambda>_. None)(1 := None, 2 := Some 1),
      pc := (\<lambda>_. Idle)(1 := Pushed, 2 := Exchange (Some 1))\<rparr>" 2 "Some 1"]
    by (intro push_reachable.step [OF s7]) (simp add: push_init_def race_def)
qed

theorem concurrent_pushes_complete_witness:
  "\<exists>ns. walk (next_of race) (head race) = Some ns \<and> distinct ns \<and> set ns = {1, 2}"
  using concurrent_pushes_complete [OF race_reachable] by (auto simp: race_def)

text \<open>
  C36. Building the registry panics exactly if an actor type, an actor name or a resource type
  is registered twice; otherwise \<open>by_name\<close> finds each registered actor's type and vtable under
  its name, and nothing under any other name.
\<close>

theorem registry_build:
  "(is_ok (run_nodes ns builder_default) \<longleftrightarrow>
      distinct (map at_type_id (actors_of ns)) \<and> distinct (map uniquely_named (actors_of ns)) \<and>
      distinct (map fst (resources_of ns))) \<and>
   (\<forall>r name. run_nodes ns builder_default = Ok r \<longrightarrow>
      by_name r name = map_option (\<lambda>t. (at_type_id t, create_vtable t))
        (find (\<lambda>t. uniquely_named t = name) (actors_of ns)))"
proof (intro conjI allI impI)
  show "is_ok (run_nodes ns builder_default) \<longleftrightarrow>
      distinct (map at_type_id (actors_of ns)) \<and> distinct (map uniquely_named (actors_of ns)) \<and>
      distinct (map fst (resources_of ns))"
    by (simp add: run_nodes_Ok_iff fresh_for_def builder_default_def)
next
  fix r name assume "run_nodes ns builder_default = Ok r"
  then show "by_name r name = map_option (\<lambda>t. (at_type_id t, create_vtable t))
      (find (\<lambda>t. uniquely_named t = name) (actors_of ns))"
    by (rule by_name_registered)
qed

text \<open>The registrations of the example application, with opaque configurations and results.\<close>

definition sample_type :: "nat \<Rightarrow> string \<Rightarrow> usize \<Rightarrow> usize \<Rightarrow> (unit, unit, unit, unit) actor_type" where
  "sample_type i name sz al = \<lparr>at_type_id = TypeId i, at_ident = name, at_size = sz, at_align = al,
     at_config_type = TypeId 0, at_deserialize = Some, at_init = (\<lambda>_ _. Some ())\<rparr>"

definition sample_nodes :: "(unit, unit, unit, unit, unit) registration list" where
  "sample_nodes = [RegisterActor (sample_type 1 ''Synchronizer'' 0 1) [],
     RegisterActor (sample_type 2 ''IntervalUnitProducer'' 16 8) [(TraitId 1, DynMeta 7)],
     RegisterResource (TypeId 4) (),
     RegisterActor (sample_type 3 ''IntervalUnitConsumer'' 0 1) []]"

lemma sample_nodes_build: "\<exists>r. run_nodes sample_nodes builder_default = Ok r"
proof -
  have "fresh_for sample_nodes builder_default"
    by (simp add: fresh_for_def builder_default_def sample_nodes_def sample_type_def uniquely_named_def)
  then show ?thesis using run_nodes_Ok_iff is_ok_iff by blast
qed

theorem registry_build_witness:
  "\<exists>r. run_nodes sample_nodes builder_default = Ok r \<and>
     map_option fst (by_name r ''IntervalUnitConsumer'') = Some (TypeId 3) \<and>
     by_name r ''Unknown'' = None"
proof -
  obtain r where r: "run_nodes sample_nodes builder_default = Ok r"
    using sample_nodes_build by blast
  note names = registry_build [of sample_nodes, THEN conjunct2, rule_format, OF r]
  have "map_option fst (by_name r ''IntervalUnitConsumer'') = Some (TypeId 3)"
    "by_name r ''Unknown'' = None"
    by (simp_all add: names, simp_all add: sample_nodes_def sample_type_def uniquely_named_def)
  with r show ?thesis by blast
qed

end
