(* ===== verification/Lookup.thy ===== *)
theory Lookup
  imports Ids Arena Registry Graph
begin

text \<open>
  \<open>lookup.rs\<close>: the tree of all actors (a list so far, as in the code), the two ways to look
  actors up in it, and the queries an actor's \<open>init\<close> runs on the result. The locale
  \<open>tree_lookup\<close> is the contract of the trait \<open>Lookup\<close>; it has the two implementations of the
  code, by concrete type and by trait object.
\<close>

subsection \<open>The tree\<close>

record loc =
  loc_context :: context_id
  loc_offset :: offset

text \<open>\<open><T as Pointee>::Metadata\<close>: nothing for a sized type, a vtable pointer for \<open>dyn D\<close>.\<close>

datatype meta = MetaUnit | MetaDyn dyn_meta

record key =
  key_loc :: loc
  key_meta :: meta

record ('v, 'c, 'a, 'r) actor_data =
  ad_id :: actor_id
  ad_vtable :: "('v, 'c, 'a, 'r) vtable"
  ad_loc :: loc

record ('v, 'c, 'a, 'r) actor_tree =
  tree_actors :: "('v, 'c, 'a, 'r) actor_data list"

subsection \<open>The two lookups\<close>

definition lookup_sized :: "type_id \<Rightarrow> ('v, 'c, 'a, 'r) actor_tree \<Rightarrow> actor_id \<Rightarrow> (actor_id \<times> key) list" where
  "lookup_sized type_id tree from_actor =
     map (\<lambda>actor. (ad_id actor, \<lparr>key_loc = ad_loc actor, key_meta = MetaUnit\<rparr>))
       (filter (\<lambda>actor. vt_type_id (ad_vtable actor) = type_id) (tree_actors tree))"

fun filter_map :: "('x \<Rightarrow> 'y option) \<Rightarrow> 'x list \<Rightarrow> 'y list" where
  "filter_map f [] = []"
| "filter_map f (x # xs) = (case f x of None \<Rightarrow> filter_map f xs | Some y \<Rightarrow> y # filter_map f xs)"

definition lookup_dyn :: "('v, 'c, 'a, 'r, 's) registry \<Rightarrow> trait_id \<Rightarrow> ('v, 'c, 'a, 'r) actor_tree \<Rightarrow>
    actor_id \<Rightarrow> (actor_id \<times> key) list" where
  "lookup_dyn registry trait_id tree from_actor =
     (let types = (case trait_types registry trait_id of None \<Rightarrow> [] | Some ts \<Rightarrow> ts)
      in map (\<lambda>(actor, t). (ad_id actor, \<lparr>key_loc = ad_loc actor, key_meta = MetaDyn (im_dyn_meta t)\<rparr>))
           (filter_map (\<lambda>actor. map_option (Pair actor)
              (find (\<lambda>x. im_type_id x = vt_type_id (ad_vtable actor)) types)) (tree_actors tree)))"

subsection \<open>Queries\<close>

text \<open>Each query starts from the result \<open>found\<close> of the lookup.\<close>

definition all_keys :: "(actor_id \<times> key) list \<Rightarrow> key list" where
  "all_keys found = map snd found"

definition exactly_one_key :: "(actor_id \<times> key) list \<Rightarrow> key res" where
  "exactly_one_key found = (case found of [(_, key)] \<Rightarrow> Ok key | _ \<Rightarrow> Fault ExplicitPanic)"

type_synonym refs = "(offset \<times> meta) list"

record broadcast_group =
  by_context :: "(context_id \<times> refs) list"

text \<open>\<open>map.entry(context).or_default().push(ref)\<close>, on the hash map as an association list.\<close>

fun push_ref :: "context_id \<Rightarrow> offset \<times> meta \<Rightarrow> (context_id \<times> refs) list \<Rightarrow> (context_id \<times> refs) list" where
  "push_ref c r [] = [(c, [r])]"
| "push_ref c r ((c', rs) # m) = (if c = c' then (c', rs @ [r]) # m else (c', rs) # push_ref c r m)"

fun group_refs :: "(actor_id \<times> key) list \<Rightarrow> (context_id \<times> refs) list \<Rightarrow> (context_id \<times> refs) list" where
  "group_refs [] m = m"
| "group_refs ((_, key) # found) m =
     group_refs found (push_ref (loc_context (key_loc key)) (loc_offset (key_loc key), key_meta key) m)"

text \<open>The hash map is read out in an order that is not specified: the parameter \<open>iter\<close>.\<close>

definition broadcast_group ::
    "((context_id \<times> refs) list \<Rightarrow> (context_id \<times> refs) list) \<Rightarrow> (actor_id \<times> key) list \<Rightarrow> broadcast_group" where
  "broadcast_group iter found = \<lparr>by_context = iter (group_refs found [])\<rparr>"

record acyclic_local_key =
  alk_offset :: offset
  alk_meta :: meta

definition acyclic_local_key :: "actor_id \<Rightarrow> context_id \<Rightarrow> (actor_id \<times> key) list \<Rightarrow>
    dependence_relation list \<Rightarrow> (acyclic_local_key \<times> dependence_relation list) res" where
  "acyclic_local_key self ctx found relations =
     rbind (unwrap (case found of [] \<Rightarrow> None | x # _ \<Rightarrow> Some x)) (\<lambda>(local_id, local_key).
     rbind (guard AssertFailed (tl found = [])) (\<lambda>_.
     rbind (guard AssertFailed (loc_context (key_loc local_key) = ctx)) (\<lambda>_.
     rbind (guard AssertFailed (local_id \<noteq> self)) (\<lambda>_.
     Ok (\<lparr>alk_offset = loc_offset (key_loc local_key), alk_meta = key_meta local_key\<rparr>,
         relations @ [\<lparr>dep_from = self, dep_to = local_id\<rparr>])))))"

text \<open>\<open>borrow_mut\<close> and \<open>call\<close>: the reference to the other actor, in the caller's arena.\<close>

definition acyclic_borrow :: "acyclic_local_key \<Rightarrow> arena \<Rightarrow> usize \<times> meta" where
  "acyclic_borrow k arena = (arena_offset arena (alk_offset k), alk_meta k)"

subsection \<open>The contract of the trait \<open>Lookup\<close>\<close>

definition key_of :: "('v, 'c, 'a, 'r) actor_data \<Rightarrow> meta \<Rightarrow> actor_id \<times> key" where
  "key_of a m = (ad_id a, \<lparr>key_loc = ad_loc a, key_meta = m\<rparr>)"

lemma set_filter_map: "set (filter_map f xs) = {y. \<exists>x \<in> set xs. f x = Some y}"
  by (induction xs) (auto split: option.splits)

lemma filter_map_map: "map g (filter_map f xs) = filter_map (\<lambda>x. map_option g (f x)) xs"
  by (induction xs) (auto split: option.splits)

lemma filter_map_filter: "filter_map (\<lambda>x. if P x then Some (f x) else None) xs = map f (filter P xs)"
  by (induction xs) auto

lemma filter_map_cong: "(\<And>x. x \<in> set xs \<Longrightarrow> f x = g x) \<Longrightarrow> filter_map f xs = filter_map g xs"
  by (induction xs) (auto split: option.splits)

locale tree_lookup =
  fixes lookup :: "('v, 'c, 'a, 'r) actor_tree \<Rightarrow> actor_id \<Rightarrow> (actor_id \<times> key) list"
    and matches :: "('v, 'c, 'a, 'r) actor_data \<Rightarrow> meta option"
  assumes lookup_eq:
    "lookup tree from_actor = filter_map (\<lambda>a. map_option (key_of a) (matches a)) (tree_actors tree)"
begin

lemma lookup_member:
  "(i, k) \<in> set (lookup tree from_actor) \<longleftrightarrow>
    (\<exists>a \<in> set (tree_actors tree). \<exists>m. matches a = Some m \<and> i = ad_id a \<and>
       k = \<lparr>key_loc = ad_loc a, key_meta = m\<rparr>)"
  by (auto simp: lookup_eq set_filter_map key_of_def)

text \<open>The order and the multiplicity are those of the tree: every matching actor once.\<close>

lemma lookup_ids:
  "map fst (lookup tree from_actor) =
    map ad_id (filter (\<lambda>a. matches a \<noteq> None) (tree_actors tree))"
proof -
  have "filter_map (\<lambda>a. map_option fst (map_option (key_of a) (matches a))) xs =
      map ad_id (filter (\<lambda>a. matches a \<noteq> None) xs)" for xs
    by (induction xs) (auto simp: key_of_def split: option.splits)
  then show ?thesis by (simp add: lookup_eq filter_map_map)
qed

lemma lookup_distinct:
  "distinct (map ad_id (tree_actors tree)) \<Longrightarrow> distinct (map fst (lookup tree from_actor))"
  by (simp add: lookup_ids distinct_map_filter)

lemma lookup_any_caller: "lookup tree a = lookup tree b"
  by (simp add: lookup_eq)

lemma acyclic_key_target:
  assumes "acyclic_local_key self ctx (lookup tree self) rels = Ok (k, rels')"
  shows "\<exists>a \<in> set (tree_actors tree). matches a = Some (alk_meta k) \<and> loc_context (ad_loc a) = ctx \<and>
    loc_offset (ad_loc a) = alk_offset k \<and> ad_id a \<noteq> self \<and>
    rels' = rels @ [\<lparr>dep_from = self, dep_to = ad_id a\<rparr>]"
proof -
  from assms obtain i key where found: "lookup tree self = [(i, key)]"
    and k: "k = \<lparr>alk_offset = loc_offset (key_loc key), alk_meta = key_meta key\<rparr>"
    and ok: "loc_context (key_loc key) = ctx" "i \<noteq> self" "rels' = rels @ [\<lparr>dep_from = self, dep_to = i\<rparr>]"
    by (cases "lookup tree self") (auto simp: acyclic_local_key_def)
  then have "(i, key) \<in> set (lookup tree self)" by simp
  then show ?thesis using k ok by (auto simp: lookup_member)
qed

end

definition matches_sized :: "type_id \<Rightarrow> ('v, 'c, 'a, 'r) actor_data \<Rightarrow> meta option" where
  "matches_sized t a = (if vt_type_id (ad_vtable a) = t then Some MetaUnit else None)"

definition matches_dyn :: "('v, 'c, 'a, 'r, 's) registry \<Rightarrow> trait_id \<Rightarrow> ('v, 'c, 'a, 'r) actor_data \<Rightarrow>
    meta option" where
  "matches_dyn r d a = map_option (\<lambda>x. MetaDyn (im_dyn_meta x))
     (find (\<lambda>x. im_type_id x = vt_type_id (ad_vtable a)) (trait_list r d))"

interpretation sized: tree_lookup "lookup_sized t" "matches_sized t" for t
  by unfold_locales
    (simp add: lookup_sized_def matches_sized_def key_of_def if_distrib filter_map_filter cong: if_cong)

interpretation dyn: tree_lookup "lookup_dyn r d" "matches_dyn r d" for r d
  by unfold_locales
    (simp add: lookup_dyn_def matches_dyn_def trait_list_def key_of_def Let_def filter_map_map
      option.map_comp comp_def)

subsection \<open>Groups by context\<close>

definition refs_for :: "(context_id \<times> refs) list \<Rightarrow> context_id \<Rightarrow> refs" where
  "refs_for m c = (case map_of m c of None \<Rightarrow> [] | Some rs \<Rightarrow> rs)"

definition key_ref :: "key \<Rightarrow> offset \<times> meta" where
  "key_ref k = (loc_offset (key_loc k), key_meta k)"

definition keys_in :: "context_id \<Rightarrow> (actor_id \<times> key) list \<Rightarrow> key list" where
  "keys_in c found = filter (\<lambda>k. loc_context (key_loc k) = c) (map snd found)"

definition wf_groups :: "(context_id \<times> refs) list \<Rightarrow> bool" where
  "wf_groups m \<longleftrightarrow> distinct (map fst m) \<and> (\<forall>(c, rs) \<in> set m. rs \<noteq> [])"

lemma keys_push_ref: "fst ` set (push_ref c r m) = insert c (fst ` set m)"
  by (induction c r m rule: push_ref.induct) (simp_all add: insert_commute)

lemma refs_for_push_ref: "refs_for (push_ref c r m) c' = refs_for m c' @ (if c' = c then [r] else [])"
  by (induction c r m rule: push_ref.induct) (auto simp: refs_for_def split: if_splits)

lemma wf_groups_push_ref: "wf_groups m \<Longrightarrow> wf_groups (push_ref c r m)"
proof -
  have "distinct (map fst m) \<Longrightarrow> distinct (map fst (push_ref c r m))"
    by (induction c r m rule: push_ref.induct) (simp_all add: keys_push_ref)
  moreover have "(\<forall>(c, rs) \<in> set m. rs \<noteq> []) \<Longrightarrow> (\<forall>(c, rs) \<in> set (push_ref c r m). rs \<noteq> [])"
    by (induction c r m rule: push_ref.induct) auto
  ultimately show "wf_groups m \<Longrightarrow> wf_groups (push_ref c r m)" by (simp add: wf_groups_def)
qed

lemma group_refs_wf: "wf_groups m \<Longrightarrow> wf_groups (group_refs found m)"
  by (induction found m rule: group_refs.induct) (simp_all add: wf_groups_push_ref)

lemma refs_for_group_refs:
  "refs_for (group_refs found m) c = refs_for m c @ map key_ref (keys_in c found)"
proof (induction found m rule: group_refs.induct)
  case (2 i key found m)
  then show ?case by (simp add: refs_for_push_ref keys_in_def key_ref_def)
qed (simp add: keys_in_def)

lemma wf_groups_refs_for: "wf_groups m \<Longrightarrow> (c, rs) \<in> set m \<longleftrightarrow> rs \<noteq> [] \<and> rs = refs_for m c"
  by (fastforce simp: wf_groups_def refs_for_def split: option.splits dest: map_of_SomeD)

lemma wf_groups_permute: "mset m' = mset m \<Longrightarrow> wf_groups m \<Longrightarrow> wf_groups m'"
  by (metis mset_map mset_eq_imp_distinct_iff mset_eq_setD wf_groups_def)

lemma broadcast_group_facts:
  assumes "\<And>m. mset (iter m) = mset m"
  shows "distinct (map fst (by_context (broadcast_group iter found))) \<and>
    (\<forall>c rs. (c, rs) \<in> set (by_context (broadcast_group iter found)) \<longleftrightarrow>
       rs \<noteq> [] \<and> rs = map key_ref (keys_in c found))"
proof -
  let ?m = "group_refs found []"
  have wf: "wf_groups ?m" by (rule group_refs_wf) (simp add: wf_groups_def)
  have "refs_for ?m c = map key_ref (keys_in c found)" for c
    by (simp add: refs_for_group_refs) (simp add: refs_for_def)
  then have "(c, rs) \<in> set ?m \<longleftrightarrow> rs \<noteq> [] \<and> rs = map key_ref (keys_in c found)" for c rs
    using wf_groups_refs_for [OF wf] by simp
  moreover have "wf_groups (iter ?m)" by (rule wf_groups_permute [OF assms wf])
  moreover have "set (iter ?m) = set ?m" using assms by (metis mset_eq_setD)
  ultimately show ?thesis by (simp add: broadcast_group_def wf_groups_def)
qed

subsection \<open>Properties\<close>

text \<open>
  A broadcast group lists every context at most once, and the context \<open>c\<close> appears with
  exactly the references of the matching actors that live in \<open>c\<close>, each once and in tree
  order, provided there is one; whatever the order in which the hash map is read out.
\<close>

theorem broadcast_group_partition:
  assumes "\<And>m. mset (iter m) = mset m"
  shows "distinct (map fst (by_context (broadcast_group iter found))) \<and>
    (\<forall>c rs. (c, rs) \<in> set (by_context (broadcast_group iter found)) \<longleftrightarrow>
       rs \<noteq> [] \<and> rs = map key_ref (keys_in c found))"
  using assms by (rule broadcast_group_facts)

definition sample_key :: "nat \<Rightarrow> u32 \<Rightarrow> key" where
  "sample_key c off = \<lparr>key_loc = \<lparr>loc_context = cid c, loc_offset = Offset off\<rparr>, key_meta = MetaUnit\<rparr>"

theorem broadcast_group_partition_witness:
  "by_context (broadcast_group rev [(aid 0, sample_key 0 0), (aid 1, sample_key 1 8), (aid 2, sample_key 0 16)]) =
     [(cid 1, [(Offset 8, MetaUnit)]), (cid 0, [(Offset 0, MetaUnit), (Offset 16, MetaUnit)])] \<and>
   distinct (map fst (by_context (broadcast_group rev
     [(aid 0, sample_key 0 0), (aid 1, sample_key 1 8), (aid 2, sample_key 0 16)])))"
proof -
  have "by_context (broadcast_group rev [(aid 0, sample_key 0 0), (aid 1, sample_key 1 8), (aid 2, sample_key 0 16)]) =
     [(cid 1, [(Offset 8, MetaUnit)]), (cid 0, [(Offset 0, MetaUnit), (Offset 16, MetaUnit)])]"
    by (simp add: broadcast_group_def sample_key_def)
  then show ?thesis using broadcast_group_partition [of rev] by simp
qed

text \<open>
  \<open>acyclic_local_key\<close> returns exactly if the query has a single match, which lives in the
  context of the actor under construction and is not that actor itself; then the key points
  to the match and the dependence of the one on the other is recorded.
\<close>

theorem acyclic_local_key_iff:
  "acyclic_local_key self ctx found rels = Ok (k, rels') \<longleftrightarrow>
    (\<exists>i key. found = [(i, key)] \<and> loc_context (key_loc key) = ctx \<and> i \<noteq> self \<and>
      k = \<lparr>alk_offset = loc_offset (key_loc key), alk_meta = key_meta key\<rparr> \<and>
      rels' = rels @ [\<lparr>dep_from = self, dep_to = i\<rparr>])"
  by (cases found) (auto simp: acyclic_local_key_def)

text \<open>
  The metadata under which a type implements a trait, when no type is registered twice: the
  first one of its own registration.
\<close>

lemma find_metas_absent:
  "ty \<notin> at_type_id ` set (actors_of ns) \<Longrightarrow> find (\<lambda>x. im_type_id x = ty) (metas_of ns d) = None"
proof (induction ns d rule: metas_of.induct)
  case (2 t traits ns d)
  then show ?case by (auto simp: find_None_iff)
qed simp_all

lemma find_append: "find P (xs @ ys) = (case find P xs of None \<Rightarrow> find P ys | Some x \<Rightarrow> Some x)"
  by (induction xs) auto

lemma find_own_metas:
  "find (\<lambda>x. im_type_id x = ty)
     (map (\<lambda>(_, m). \<lparr>im_type_id = ty', im_dyn_meta = m\<rparr>) (filter (\<lambda>(d', _). d' = d) traits)) =
   (if ty = ty' then map_option (\<lambda>m. \<lparr>im_type_id = ty, im_dyn_meta = m\<rparr>) (map_of traits d) else None)"
  by (induction traits) auto

lemma find_metas:
  assumes "distinct (map at_type_id (actors_of ns))" "RegisterActor t traits \<in> set ns"
  shows "find (\<lambda>x. im_type_id x = at_type_id t) (metas_of ns d) =
    map_option (\<lambda>m. \<lparr>im_type_id = at_type_id t, im_dyn_meta = m\<rparr>) (map_of traits d)"
  using assms
proof (induction ns d rule: metas_of.induct)
  case (2 t' traits' ns d)
  have mem: "t \<in> set (actors_of ns)" if "RegisterActor t traits \<in> set ns"
    using that by (induction ns rule: actors_of.induct) auto
  show ?case
  proof (cases "RegisterActor t traits \<in> set ns")
    case True
    then have "at_type_id t \<in> at_type_id ` set (actors_of ns)" using mem by blast
    then have "at_type_id t \<noteq> at_type_id t'" using "2.prems"(1) by auto
    then show ?thesis using 2 True by (simp add: find_append find_own_metas)
  next
    case False
    then have own: "t' = t" "traits' = traits" using 2 by auto
    then have "find (\<lambda>x. im_type_id x = at_type_id t) (metas_of ns d) = None"
      using 2 by (intro find_metas_absent) simp
    then show ?thesis using own by (simp add: find_append find_own_metas split: option.splits)
  qed
qed auto

text \<open>
  C37. In a tree of registered actors, a lookup by trait object finds an actor exactly if the
  actor's type was registered with that trait, at the actor's own location and with the
  trait metadata of its registration.
\<close>

theorem dyn_lookup_registered:
  assumes "run_nodes ns builder_default = Ok r" and "distinct (map ad_id (tree_actors tree))"
    and "a \<in> set (tree_actors tree)" "ad_vtable a = create_vtable t" "RegisterActor t traits \<in> set ns"
  shows "(ad_id a, k) \<in> set (lookup_dyn r d tree from_actor) \<longleftrightarrow>
    (\<exists>m. map_of traits d = Some m \<and> k = \<lparr>key_loc = ad_loc a, key_meta = MetaDyn m\<rparr>)"
proof -
  have "distinct (map at_type_id (actors_of ns))"
    using run_nodes_Ok_iff [of ns builder_default] assms(1) by (simp add: fresh_for_def)
  then have "find (\<lambda>x. im_type_id x = at_type_id t) (trait_list r d) =
      map_option (\<lambda>m. \<lparr>im_type_id = at_type_id t, im_dyn_meta = m\<rparr>) (map_of traits d)"
    using run_nodes_result(4) [OF assms(1), of d] find_metas [OF _ assms(5)]
    by (simp add: trait_list_def builder_default_def)
  then have own: "matches_dyn r d a = map_option MetaDyn (map_of traits d)"
    using assms(4) by (simp add: matches_dyn_def create_vtable_def option.map_comp comp_def)
  have "b = a" if "b \<in> set (tree_actors tree)" "ad_id b = ad_id a" for b
    using assms(2,3) that by (auto simp: distinct_map inj_on_def)
  then have "(ad_id a, k) \<in> set (lookup_dyn r d tree from_actor) \<longleftrightarrow>
      (\<exists>m. matches_dyn r d a = Some m \<and> k = \<lparr>key_loc = ad_loc a, key_meta = m\<rparr>)"
    using assms(3) by (auto simp: dyn.lookup_member)
  then show ?thesis by (simp only: own map_option_eq_Some) auto
qed

definition sample_tree :: "(unit, unit, unit, unit) actor_tree" where
  "sample_tree = \<lparr>tree_actors =
     [\<lparr>ad_id = aid 0, ad_vtable = create_vtable (sample_type 2 ''IntervalUnitProducer'' 16 8),
       ad_loc = \<lparr>loc_context = cid 0, loc_offset = Offset 0\<rparr>\<rparr>,
      \<lparr>ad_id = aid 1, ad_vtable = create_vtable (sample_type 3 ''IntervalUnitConsumer'' 0 1),
       ad_loc = \<lparr>loc_context = cid 0, loc_offset = Offset 16\<rparr>\<rparr>]\<rparr>"

theorem dyn_lookup_registered_witness:
  "\<exists>r. run_nodes sample_nodes builder_default = Ok r \<and>
     (aid 0, \<lparr>key_loc = \<lparr>loc_context = cid 0, loc_offset = Offset 0\<rparr>, key_meta = MetaDyn (DynMeta 7)\<rparr>)
       \<in> set (lookup_dyn r (TraitId 1) sample_tree (aid 1))"
proof -
  obtain r where r: "run_nodes sample_nodes builder_default = Ok r"
    using sample_nodes_build by blast
  let ?a = "tree_actors sample_tree ! 0"
  let ?k = "\<lparr>key_loc = ad_loc ?a, key_meta = MetaDyn (DynMeta 7)\<rparr>"
  have ids: "distinct (map ad_id (tree_actors sample_tree))" by (simp add: sample_tree_def)
  have a: "?a \<in> set (tree_actors sample_tree)"
    "ad_vtable ?a = create_vtable (sample_type 2 ''IntervalUnitProducer'' 16 8)"
    by (simp_all add: sample_tree_def)
  have t: "RegisterActor (sample_type 2 ''IntervalUnitProducer'' 16 8) [(TraitId 1, DynMeta 7)]
      \<in> set sample_nodes" by (simp add: sample_nodes_def)
  have "(ad_id ?a, ?k) \<in> set (lookup_dyn r (TraitId 1) sample_tree (aid 1))"
    by (simp only: dyn_lookup_registered [OF r ids a t]) simp
  then show ?thesis using r by (auto simp: sample_tree_def)
qed

end
