(* ===== verification/Context.thy ===== *)
theory Context
  imports Lookup Queues
begin

text \<open>
  \<open>context.rs\<close>, the part that runs on one thread: the data of a context, the messages and how
  actors send them (\<open>send_msg\<close>, \<open>broadcast\<close>, accessors), the running of a message and the
  draining of the local queue, and the calls an actor can make while it is initialised.

  A boxed closure is the data it captured: the references it will pass to the user's function,
  and that function, an element of a type \<open>'f\<close>. All closures of the code have this shape. What
  the function does is a parameter \<open>user\<close>: run on a reference and the memory of the process, it
  returns the memory and the runtime calls it made, in order, or panics. The runtime calls
  return nothing, so the later ones cannot depend on the earlier ones.

  Operations on state that threads share (the counter of the control block, the channels) are
  returned as a list of actions, in program order; \<open>System\<close> interleaves them.
\<close>

subsection \<open>Messages, commands and actions\<close>

record 'f msg =
  msg_targets :: refs
  msg_fn :: 'f

datatype 'f queue_item = Msg "'f msg" | AccessorDropped | Stop

record accessor =
  acc_offset :: offset
  acc_meta :: meta
  acc_queue :: nat  \<comment> \<open>the channel its sender belongs to\<close>

datatype 'f cmd =
    CmdSend key 'f
  | CmdBroadcast broadcast_group 'f
  | CmdAccessorSend accessor 'f
  | CmdAccessorDrop accessor

text \<open>
  The shared accesses: \<open>Clone\<close> is the creation of an accessor (a \<open>fetch_add\<close>, and a clone of
  the channel's sender), \<open>AccIncrement\<close> and \<open>AccPush\<close> are the two halves of \<open>Accessor::send\<close>,
  \<open>AccDrop\<close> is the send of \<open>AccessorDropped\<close>, \<open>DropMakeTx\<close> the drop of a context's reference
  to the senders made for initialisation.
\<close>

datatype 'f action =
    AccClone accessor
  | AccIncrement accessor "'f msg"
  | AccPush accessor "'f msg"
  | AccDrop accessor
  | DropMakeTx

record 'f context_data =
  cd_id :: context_id
  cd_local_queue :: "'f msg local_queue"
  cd_unsent :: "(context_id \<times> 'f msg) list"

record 'f actor_context =
  ctx_data :: "'f context_data"
  ctx_arena :: arena
  ctx_drop_fns :: "(offset \<times> (usize \<Rightarrow> unit res)) list"
  ctx_rx :: nat
  ctx_links :: "nat list"

definition context_data_new :: "context_id \<Rightarrow> 'f context_data" where
  "context_data_new c = \<lparr>cd_id = c, cd_local_queue = local_unbounded, cd_unsent = []\<rparr>"

subsection \<open>Sending\<close>

definition key_closure :: "key \<Rightarrow> 'f \<Rightarrow> 'f msg" where
  "key_closure k f = \<lparr>msg_targets = [(loc_offset (key_loc k), key_meta k)], msg_fn = f\<rparr>"

definition send_msg :: "key \<Rightarrow> 'f \<Rightarrow> 'f context_data \<Rightarrow> 'f context_data" where
  "send_msg k f d =
     (if cd_id d = loc_context (key_loc k)
      then d\<lparr>cd_local_queue := local_send (cd_local_queue d) (key_closure k f)\<rparr>
      else d\<lparr>cd_unsent := cd_unsent d @ [(loc_context (key_loc k), key_closure k f)]\<rparr>)"

fun broadcast_loop :: "(context_id \<times> refs) list \<Rightarrow> 'f \<Rightarrow> 'f context_data \<Rightarrow> 'f context_data" where
  "broadcast_loop [] f d = d"
| "broadcast_loop ((c, rs) # groups) f d =
     broadcast_loop groups f
       (let m = \<lparr>msg_targets = rs, msg_fn = f\<rparr> in
        if c = cd_id d then d\<lparr>cd_local_queue := local_send (cd_local_queue d) m\<rparr>
        else d\<lparr>cd_unsent := cd_unsent d @ [(c, m)]\<rparr>)"

definition broadcast :: "broadcast_group \<Rightarrow> 'f \<Rightarrow> 'f context_data \<Rightarrow> 'f context_data" where
  "broadcast g f d = broadcast_loop (by_context g) f d"

text \<open>\<open>Accessor::send\<close> and \<open>Drop for Accessor\<close>.\<close>

definition accessor_send :: "accessor \<Rightarrow> 'f \<Rightarrow> 'f action list" where
  "accessor_send a f =
     [AccIncrement a \<lparr>msg_targets = [(acc_offset a, acc_meta a)], msg_fn = f\<rparr>]"

definition accessor_drop :: "accessor \<Rightarrow> 'f action list" where
  "accessor_drop a = [AccDrop a]"

fun exec_cmd :: "'f cmd \<Rightarrow> 'f context_data \<Rightarrow> 'f context_data \<times> 'f action list" where
  "exec_cmd (CmdSend k f) d = (send_msg k f d, [])"
| "exec_cmd (CmdBroadcast g f) d = (broadcast g f d, [])"
| "exec_cmd (CmdAccessorSend a f) d = (d, accessor_send a f)"
| "exec_cmd (CmdAccessorDrop a) d = (d, accessor_drop a)"

fun exec_cmds :: "'f cmd list \<Rightarrow> 'f context_data \<Rightarrow> 'f context_data \<times> 'f action list" where
  "exec_cmds [] d = (d, [])"
| "exec_cmds (c # cs) d =
     (let (d1, as) = exec_cmd c d; (d2, bs) = exec_cmds cs d1 in (d2, as @ bs))"

subsection \<open>Running messages\<close>

type_synonym ('f, 'm) user = "'f \<Rightarrow> usize \<times> meta \<Rightarrow> 'm \<Rightarrow> ('m \<times> 'f cmd list) res"

text \<open>The body of a closure: one call of the user's function for each captured reference.\<close>

fun run_targets :: "('f, 'm) user \<Rightarrow> arena \<Rightarrow> 'f \<Rightarrow> refs \<Rightarrow> 'm \<Rightarrow> 'f context_data \<Rightarrow>
    ('m \<times> 'f context_data \<times> 'f action list) res" where
  "run_targets user a f [] mem d = Ok (mem, d, [])"
| "run_targets user a f ((off, meta) # rs) mem d =
     rbind (user f (arena_offset a off, meta) mem) (\<lambda>(mem1, cmds).
     (let (d1, as) = exec_cmds cmds d in
      rbind (run_targets user a f rs mem1 d1) (\<lambda>(mem2, d2, bs).
      Ok (mem2, d2, as @ bs))))"

definition run_msg :: "('f, 'm) user \<Rightarrow> 'f msg \<Rightarrow> 'm \<Rightarrow> 'f actor_context \<Rightarrow>
    ('m \<times> 'f actor_context \<times> 'f action list) res" where
  "run_msg user m mem c =
     rbind (run_targets user (ctx_arena c) (msg_fn m) (msg_targets m) mem (ctx_data c))
       (\<lambda>(mem', d, as). Ok (mem', c\<lparr>ctx_data := d\<rparr>, as))"

text \<open>
  One round of \<open>while let Some(msg) = ctx.data.local_queue.recv() { msg(&mut ctx) }\<close>; \<open>None\<close>
  when the queue is empty.
\<close>

definition drain_step :: "('f, 'm) user \<Rightarrow> 'm \<Rightarrow> 'f actor_context \<Rightarrow>
    ('m \<times> 'f actor_context \<times> 'f action list) res option" where
  "drain_step user mem c =
     (case local_recv (cd_local_queue (ctx_data c)) of
        (None, q) \<Rightarrow> None
      | (Some m, q) \<Rightarrow> Some (run_msg user m mem (c\<lparr>ctx_data := (ctx_data c)\<lparr>cd_local_queue := q\<rparr>\<rparr>)))"

text \<open>The whole loop; \<open>None\<close> if it does not end.\<close>

partial_function (option) drain :: "('f, 'm) user \<Rightarrow> 'm \<Rightarrow> 'f actor_context \<Rightarrow>
    ('m \<times> 'f actor_context \<times> 'f action list) res option" where
  "drain user mem c =
     (case drain_step user mem c of
        None \<Rightarrow> Some (Ok (mem, c, []))
      | Some (Fault e) \<Rightarrow> Some (Fault e)
      | Some (Ok (mem1, c1, as)) \<Rightarrow>
          Option.bind (drain user mem1 c1) (\<lambda>r.
          Some (rbind r (\<lambda>(mem2, c2, bs). Ok (mem2, c2, as @ bs)))))"

text \<open>\<open>Drop for Context\<close>: the actors are dropped in the order they were created in.\<close>

fun drop_actors :: "arena \<Rightarrow> (offset \<times> (usize \<Rightarrow> unit res)) list \<Rightarrow> unit res" where
  "drop_actors a [] = Ok ()"
| "drop_actors a ((off, dropf) # fs) = rbind (dropf (arena_offset a off)) (\<lambda>_. drop_actors a fs)"

definition context_drop :: "'f actor_context \<Rightarrow> unit res" where
  "context_drop c = drop_actors (ctx_arena c) (ctx_drop_fns c)"

subsection \<open>What a list of commands sends\<close>

text \<open>The messages of a context that are addressed to the context \<open>c\<close>, oldest first.\<close>

definition outgoing :: "context_id \<Rightarrow> 'f context_data \<Rightarrow> 'f msg list" where
  "outgoing c d =
     (if c = cd_id d then items (cd_local_queue d) else map snd (filter (\<lambda>(c', _). c' = c) (cd_unsent d)))"

fun cmd_msgs :: "context_id \<Rightarrow> 'f cmd \<Rightarrow> 'f msg list" where
  "cmd_msgs c (CmdSend k f) = (if loc_context (key_loc k) = c then [key_closure k f] else [])"
| "cmd_msgs c (CmdBroadcast g f) =
     map (\<lambda>(_, rs). \<lparr>msg_targets = rs, msg_fn = f\<rparr>) (filter (\<lambda>(c', _). c' = c) (by_context g))"
| "cmd_msgs c (CmdAccessorSend a f) = []"
| "cmd_msgs c (CmdAccessorDrop a) = []"

fun cmd_actions :: "'f cmd \<Rightarrow> 'f action list" where
  "cmd_actions (CmdSend k f) = []"
| "cmd_actions (CmdBroadcast g f) = []"
| "cmd_actions (CmdAccessorSend a f) = accessor_send a f"
| "cmd_actions (CmdAccessorDrop a) = accessor_drop a"

lemma outgoing_broadcast_loop:
  "cd_id (broadcast_loop gs f d) = cd_id d \<and>
   outgoing c (broadcast_loop gs f d) =
     outgoing c d @ map (\<lambda>(_, rs). \<lparr>msg_targets = rs, msg_fn = f\<rparr>) (filter (\<lambda>(c', _). c' = c) gs)"
  by (induction gs f d rule: broadcast_loop.induct) (auto simp: outgoing_def local_send_def Let_def)

lemma outgoing_send_msg:
  "cd_id (send_msg k f d) = cd_id d \<and>
   outgoing c (send_msg k f d) = outgoing c d @ (if loc_context (key_loc k) = c then [key_closure k f] else [])"
  by (auto simp: outgoing_def send_msg_def local_send_def)

lemma exec_cmd_effect:
  "exec_cmd cmd d = (d', as) \<Longrightarrow>
    cd_id d' = cd_id d \<and> outgoing c d' = outgoing c d @ cmd_msgs c cmd \<and> as = cmd_actions cmd"
  by (cases cmd) (auto simp: outgoing_send_msg outgoing_broadcast_loop broadcast_def)

lemma exec_cmds_effect:
  "exec_cmds cmds d = (d', as) \<Longrightarrow>
    cd_id d' = cd_id d \<and> outgoing c d' = outgoing c d @ concat (map (cmd_msgs c) cmds) \<and>
    as = concat (map cmd_actions cmds)"
proof (induction cmds arbitrary: d d' as)
  case (Cons cmd cmds)
  then show ?case
    using exec_cmd_effect [of cmd d] by (fastforce split: prod.splits)
qed simp

subsection \<open>The order in which the local queue is drained\<close>

text \<open>The same context with older messages below those of its local queue.\<close>

definition older_data :: "'f msg list \<Rightarrow> 'f context_data \<Rightarrow> 'f context_data" where
  "older_data ms d = d\<lparr>cd_local_queue := \<lparr>items = ms @ items (cd_local_queue d)\<rparr>\<rparr>"

definition older :: "'f msg list \<Rightarrow> 'f actor_context \<Rightarrow> 'f actor_context" where
  "older ms c = c\<lparr>ctx_data := older_data ms (ctx_data c)\<rparr>"

lemma older_fields [simp]:
  "cd_id (older_data ms d) = cd_id d" "cd_unsent (older_data ms d) = cd_unsent d"
  "items (cd_local_queue (older_data ms d)) = ms @ items (cd_local_queue d)"
  "ctx_arena (older ms c) = ctx_arena c" "ctx_data (older ms c) = older_data ms (ctx_data c)"
  by (simp_all add: older_data_def older_def)

lemma older_send:
  "(older_data ms d)\<lparr>cd_local_queue := local_send (cd_local_queue (older_data ms d)) m\<rparr> =
    older_data ms (d\<lparr>cd_local_queue := local_send (cd_local_queue d) m\<rparr>)"
  by (simp add: older_data_def local_send_def)

lemma older_unsent:
  "(older_data ms d)\<lparr>cd_unsent := us\<rparr> = older_data ms (d\<lparr>cd_unsent := us\<rparr>)"
  by (simp add: older_data_def)

lemma older_broadcast_loop: "broadcast_loop gs f (older_data ms d) = older_data ms (broadcast_loop gs f d)"
  by (induction gs f d rule: broadcast_loop.induct) (auto simp: Let_def older_send older_unsent)

lemma older_exec_cmd: "exec_cmd cmd (older_data ms d) = apfst (older_data ms) (exec_cmd cmd d)"
  by (cases cmd) (simp_all add: send_msg_def broadcast_def older_send older_unsent older_broadcast_loop)

lemma older_exec_cmds: "exec_cmds cmds (older_data ms d) = apfst (older_data ms) (exec_cmds cmds d)"
  by (induction cmds arbitrary: d) (simp_all add: older_exec_cmd split: prod.split)

definition older_result :: "'f msg list \<Rightarrow> 'm \<times> 'f actor_context \<times> 'f action list \<Rightarrow>
    'm \<times> 'f actor_context \<times> 'f action list" where
  "older_result ms = (\<lambda>(mem, c, as). (mem, older ms c, as))"

lemma older_run_targets:
  "run_targets user a f rs mem (older_data ms d) =
    rbind (run_targets user a f rs mem d) (\<lambda>(mem', d', as). Ok (mem', older_data ms d', as))"
proof (induction rs arbitrary: mem d)
  case (Cons r rs)
  obtain off m where r: "r = (off, m)" by (cases r)
  show ?case
  proof (cases "user f (arena_offset a off, m) mem")
    case (Inr res)
    obtain mem1 cmds where res: "res = (mem1, cmds)" by (cases res)
    obtain d1 as where d1: "exec_cmds cmds d = (d1, as)" by (cases "exec_cmds cmds d")
    show ?thesis
      using Cons.IH [of mem1 d1] Inr
      by (cases "run_targets user a f rs mem1 d1") (auto simp: r res d1 older_exec_cmds)
  qed (simp add: r)
qed simp

lemma older_run_msg:
  "run_msg user m mem (older ms c) = rbind (run_msg user m mem c) (\<lambda>r. Ok (older_result ms r))"
  by (cases "run_targets user (ctx_arena c) (msg_fn m) (msg_targets m) mem (ctx_data c)")
    (auto simp: run_msg_def older_run_targets older_result_def older_def)

lemma local_queue_items [simp]: "q\<lparr>items := xs\<rparr> = \<lparr>items = xs\<rparr>" for q :: "'a local_queue"
  by (cases q) simp

lemma drain_step_older:
  "drain_step user mem c = Some r \<Longrightarrow>
    drain_step user mem (older ms c) = Some (rbind r (\<lambda>x. Ok (older_result ms x)))"
proof -
  assume r: "drain_step user mem c = Some r"
  define q where "q = items (cd_local_queue (ctx_data c))"
  from r have ne: "q \<noteq> []" by (auto simp: drain_step_def local_recv_def q_def split: if_splits)
  let ?c = "c\<lparr>ctx_data := (ctx_data c)\<lparr>cd_local_queue := \<lparr>items = butlast q\<rparr>\<rparr>\<rparr>"
  have r': "r = run_msg user (last q) mem ?c"
    using r ne by (simp add: drain_step_def local_recv_def q_def [symmetric])
  have "(older ms c)\<lparr>ctx_data := (ctx_data (older ms c))\<lparr>cd_local_queue := \<lparr>items = butlast (ms @ q)\<rparr>\<rparr>\<rparr> = older ms ?c"
    using ne by (simp add: older_def older_data_def butlast_append)
  then have "drain_step user mem (older ms c) = Some (run_msg user (last q) mem (older ms ?c))"
    using ne by (simp add: drain_step_def local_recv_def q_def [symmetric])
  then show ?thesis by (simp add: r' older_run_msg)
qed

lemma drain_step_None: "drain_step user mem c = None \<longleftrightarrow> items (cd_local_queue (ctx_data c)) = []"
  by (simp add: drain_step_def local_recv_def)

type_synonym ('f, 'm) run_result = "('m \<times> 'f actor_context \<times> 'f action list) res"

definition after_actions :: "'f action list \<Rightarrow> ('f, 'm) run_result \<Rightarrow> ('f, 'm) run_result" where
  "after_actions as r = rbind r (\<lambda>(mem, c, bs). Ok (mem, c, as @ bs))"

lemma after_actions_simps [simp]:
  "after_actions as (Fault e) = Fault e" "after_actions as (Ok (mem, c, bs)) = Ok (mem, c, as @ bs)"
  by (simp_all add: after_actions_def)

lemma after_actions_Nil [simp]: "after_actions [] r = r"
  by (cases r) auto

lemma after_actions_append: "after_actions as (after_actions bs r) = after_actions (as @ bs) r"
  by (cases r) auto

text \<open>The loop as a relation: its derivations are its finite runs.\<close>

inductive drains :: "('f, 'm) user \<Rightarrow> 'm \<Rightarrow> 'f actor_context \<Rightarrow> ('f, 'm) run_result \<Rightarrow> bool"
  for user where
  empty: "drain_step user mem c = None \<Longrightarrow> drains user mem c (Ok (mem, c, []))"
| panic: "drain_step user mem c = Some (Fault e) \<Longrightarrow> drains user mem c (Fault e)"
| round: "drain_step user mem c = Some (Ok (mem1, c1, as)) \<Longrightarrow> drains user mem1 c1 r \<Longrightarrow>
    drains user mem c (after_actions as r)"

lemma drain_round:
  "drain_step user mem c = Some (Ok (mem1, c1, as)) \<Longrightarrow>
    drain user mem c = map_option (after_actions as) (drain user mem1 c1)"
  by (subst drain.simps) (simp add: after_actions_def [abs_def] map_conv_bind_option comp_def)

lemma drain_panic: "drain_step user mem c = Some (Fault e) \<Longrightarrow> drain user mem c = Some (Fault e)"
  by (subst drain.simps) simp

lemma drain_empty: "drain_step user mem c = None \<Longrightarrow> drain user mem c = Some (Ok (mem, c, []))"
  by (subst drain.simps) simp

lemma drain_drains:
  fixes user :: "('f, 'm) user"
  assumes "drain user mem c = Some r"
  shows "drains user mem c r"
proof (rule drain.raw_induct [of drains, OF _ assms])
  fix drain' and user :: "('f, 'm) user" and mem c r
  assume IH: "\<And>user mem c r. drain' user mem c = Some r \<Longrightarrow> drains user mem c r"
    and body: "(case drain_step user mem c of None \<Rightarrow> Some (Ok (mem, c, []))
      | Some (Fault e) \<Rightarrow> Some (Fault e)
      | Some (Ok (mem1, c1, as)) \<Rightarrow> Option.bind (drain' user mem1 c1)
          (\<lambda>r. Some (rbind r (\<lambda>(mem2, c2, bs). Ok (mem2, c2, as @ bs))))) = Some r"
  show "drains user mem c r"
  proof (cases "drain_step user mem c")
    case None
    then show ?thesis using body by (auto intro: drains.empty)
  next
    case (Some s)
    show ?thesis
    proof (cases s)
      case (Inl e)
      then show ?thesis using body Some by (auto intro: drains.panic)
    next
      case (Inr x)
      obtain mem1 c1 as where x: "x = (mem1, c1, as)" by (cases x)
      then obtain r1 where "drain' user mem1 c1 = Some r1" "r = after_actions as r1"
        using body Some Inr by (auto simp: bind_eq_Some_conv after_actions_def)
      then show ?thesis using drains.round [of user mem c mem1 c1 as r1] IH Some Inr x by simp
    qed
  qed
qed

lemma drains_drain: "drains user mem c r \<Longrightarrow> drain user mem c = Some r"
  by (induction rule: drains.induct) (simp_all add: drain_empty drain_panic drain_round)

lemma drain_iff: "drain user mem c = Some r \<longleftrightarrow> drains user mem c r"
  by (rule iffI) (erule drain_drains, erule drains_drain)

definition then_older :: "('f, 'm) user \<Rightarrow> 'f msg list \<Rightarrow> ('f, 'm) run_result \<Rightarrow>
    ('f, 'm) run_result option" where
  "then_older user ms r = (case r of
     Fault e \<Rightarrow> Some (Fault e)
   | Ok (mem1, c1, as) \<Rightarrow> map_option (after_actions as) (drain user mem1 (older ms c1)))"

lemma then_older_after: 
  "then_older user ms (after_actions as r) = map_option (after_actions as) (then_older user ms r)"
  by (cases r) (auto simp: then_older_def option.map_comp comp_def after_actions_append)

lemma drain_older_Some: "drains user mem c r \<Longrightarrow> drain user mem (older ms c) = then_older user ms r"
proof (induction rule: drains.induct)
  case (empty mem c)
  then show ?case by (simp add: then_older_def option.map_ident option.map_id0 cong: option.map_cong)
next
  case (panic mem c e)
  then show ?case using drain_step_older [OF panic, of ms] by (simp add: then_older_def drain_panic)
next
  case (round mem c mem1 c1 as r)
  then show ?case
    using drain_step_older [OF round.hyps(1), of ms]
    by (simp add: older_result_def drain_round then_older_after)
qed

lemma drains_older_returns: "drains user mem c' r \<Longrightarrow> c' = older ms c \<Longrightarrow> \<exists>r1. drains user mem c r1"
proof (induction arbitrary: c rule: drains.induct)
  case (empty mem c')
  then have "drain_step user mem c = None" by (simp add: drain_step_None)
  then show ?case by (blast intro: drains.empty)
next
  case (panic mem c' e)
  show ?case
  proof (cases "drain_step user mem c")
    case (Some s)
    then have "s = Fault e" using drain_step_older [OF Some, of ms] panic by (cases s) auto
    then show ?thesis using Some by (blast intro: drains.panic)
  qed (blast intro: drains.empty)
next
  case (round mem c' mem1 c1 as r)
  show ?case
  proof (cases "drain_step user mem c")
    case (Some s)
    then obtain x where x: "s = Ok x" "(mem1, c1, as) = older_result ms x"
      using drain_step_older [OF Some, of ms] round by auto
    obtain mem2 c2 bs where x2: "x = (mem2, c2, bs)" by (cases x)
    then have "mem2 = mem1" "c1 = older ms c2" using x by (auto simp: older_result_def)
    then show ?thesis using round.IH [of c2] Some x x2 by (blast intro: drains.intros)
  qed (blast intro: drains.empty)
qed

text \<open>The commands a handler can make, on some reference and some memory.\<close>

definition may_send :: "('f, 'm) user \<Rightarrow> 'f \<Rightarrow> 'f cmd \<Rightarrow> bool" where
  "may_send user f cmd \<longleftrightarrow> (\<exists>p mem mem' cmds. user f p mem = Ok (mem', cmds) \<and> cmd \<in> set cmds)"

lemma may_sendI: "user f p mem = Ok (mem', cmds) \<Longrightarrow> cmd \<in> set cmds \<Longrightarrow> may_send user f cmd"
  by (auto simp: may_send_def simp del: split_paired_Ex)

lemma run_targets_frame:
  assumes "run_targets user a f rs mem d = Ok (mem', d', as)"
  shows "cd_id d' = cd_id d \<and> (\<exists>sent. \<forall>c. outgoing c d' = outgoing c d @ concat (map (cmd_msgs c) sent)
    \<and> (\<forall>cmd \<in> set sent. may_send user f cmd))"
  using assms
proof (induction rs arbitrary: mem d as)
  case Nil
  then show ?case by (auto intro: exI [of _ "[]"])
next
  case (Cons r rs)
  obtain off m where r: "r = (off, m)" by (cases r)
  obtain mem1 cmds where u: "user f (arena_offset a off, m) mem = Ok (mem1, cmds)"
    using Cons.prems r by auto
  obtain d1 as1 where d1: "exec_cmds cmds d = (d1, as1)" by (cases "exec_cmds cmds d")
  then obtain as2 where rest: "run_targets user a f rs mem1 d1 = Ok (mem', d', as2)"
    using Cons.prems r u by auto
  from Cons.IH [OF rest] obtain sent where sent: "cd_id d' = cd_id d1"
    "\<And>c. outgoing c d' = outgoing c d1 @ concat (map (cmd_msgs c) sent)"
    "\<forall>cmd \<in> set sent. may_send user f cmd" by blast
  have "\<forall>c. outgoing c d' = outgoing c d @ concat (map (cmd_msgs c) (cmds @ sent))"
    using sent(2) exec_cmds_effect [OF d1] by simp
  moreover have "\<forall>cmd \<in> set (cmds @ sent). may_send user f cmd"
    using sent(3) u by (auto intro: may_sendI)
  moreover have "cd_id d' = cd_id d" using sent(1) exec_cmds_effect [OF d1] by simp
  ultimately show ?case by blast
qed

lemma run_msg_frame:
  assumes "run_msg user m mem c = Ok (mem', c', as)"
  shows "cd_id (ctx_data c') = cd_id (ctx_data c)" "c' = c\<lparr>ctx_data := ctx_data c'\<rparr>"
    and "\<exists>sent. \<forall>k. outgoing k (ctx_data c') = outgoing k (ctx_data c) @ concat (map (cmd_msgs k) sent)
      \<and> (\<forall>cmd \<in> set sent. may_send user (msg_fn m) cmd)"
  using assms run_targets_frame [of user "ctx_arena c" "msg_fn m" "msg_targets m" mem "ctx_data c"]
  by (auto simp: run_msg_def)

text \<open>A bound on the chains of local messages: each handler sends only messages of a lower rank.\<close>

definition ranked :: "('f, 'm) user \<Rightarrow> context_id \<Rightarrow> ('f \<Rightarrow> nat) \<Rightarrow> bool" where
  "ranked user c rank \<longleftrightarrow> (\<forall>f cmd. may_send user f cmd \<longrightarrow> (\<forall>m \<in> set (cmd_msgs c cmd). rank (msg_fn m) < rank f))"

lemma run_msg_ranked:
  assumes "ranked user (cd_id (ctx_data c)) rank" "run_msg user m mem c = Ok (mem', c', as)"
    and "x \<in> set (items (cd_local_queue (ctx_data c')))" "items (cd_local_queue (ctx_data c)) = []"
  shows "rank (msg_fn x) < rank (msg_fn m)"
proof -
  let ?k = "cd_id (ctx_data c)"
  obtain sent where sent: "outgoing ?k (ctx_data c') = outgoing ?k (ctx_data c) @ concat (map (cmd_msgs ?k) sent)"
    "\<forall>cmd \<in> set sent. may_send user (msg_fn m) cmd"
    using run_msg_frame(3) [OF assms(2)] by blast
  then have "x \<in> set (concat (map (cmd_msgs ?k) sent))"
    using assms(3,4) run_msg_frame(1) [OF assms(2)] by (simp add: outgoing_def)
  then show ?thesis using sent(2) assms(1) unfolding ranked_def by fastforce
qed

lemma drains_final:
  "drains user mem c r \<Longrightarrow> r = Ok (mem', c', as) \<Longrightarrow>
    items (cd_local_queue (ctx_data c')) = [] \<and> cd_id (ctx_data c') = cd_id (ctx_data c) \<and>
    c' = c\<lparr>ctx_data := ctx_data c'\<rparr>"
proof (induction arbitrary: as rule: drains.induct)
  case (round mem c mem1 c1 bs r)
  obtain cs where r: "r = Ok (mem', c', cs)" using round.prems by (cases r) auto
  obtain m q where "local_recv (cd_local_queue (ctx_data c)) = (Some m, q)"
    "run_msg user m mem (c\<lparr>ctx_data := (ctx_data c)\<lparr>cd_local_queue := q\<rparr>\<rparr>) = Ok (mem1, c1, bs)"
    using round.hyps(1) by (auto simp: drain_step_def split: prod.splits option.splits)
  then have "cd_id (ctx_data c1) = cd_id (ctx_data c)" "c1 = c\<lparr>ctx_data := ctx_data c1\<rparr>"
    using run_msg_frame by fastforce+
  then show ?case using round.IH [OF r] by (metis actor_context.update_convs(1) actor_context.surjective)
qed (auto simp: drain_step_None)

lemma queue_cases:
  obtains "items (cd_local_queue (ctx_data c)) = []"
  | ms m where "items (cd_local_queue (ctx_data c)) = ms @ [m]"
      "c = older ms (c\<lparr>ctx_data := (ctx_data c)\<lparr>cd_local_queue := \<lparr>items = [m]\<rparr>\<rparr>\<rparr>)"
proof (cases "items (cd_local_queue (ctx_data c))" rule: rev_cases)
  case (snoc ms m)
  have "older ms (c\<lparr>ctx_data := (ctx_data c)\<lparr>cd_local_queue := \<lparr>items = [m]\<rparr>\<rparr>\<rparr>) =
      c\<lparr>ctx_data := (ctx_data c)\<lparr>cd_local_queue := \<lparr>items = items (cd_local_queue (ctx_data c))\<rparr>\<rparr>\<rparr>"
    by (simp add: older_def older_data_def snoc)
  also have "\<dots> = c" by simp
  finally show ?thesis using that snoc by metis
qed (use that in blast)

lemma drain_older:
  "drain user mem (older ms c) = Option.bind (drain user mem c) (then_older user ms)"
proof (cases "drain user mem c")
  case None
  then have "\<not> (\<exists>r. drains user mem (older ms c) r)"
    using drains_older_returns drain_iff by (metis option.distinct(1))
  then have "drain user mem (older ms c) = None" by (metis drain_iff not_None_eq)
  then show ?thesis using None by simp
next
  case (Some r)
  then show ?thesis using drain_older_Some [OF drain_drains] by simp
qed

lemma drain_single:
  assumes "ranked user (cd_id (ctx_data c)) rank" "items (cd_local_queue (ctx_data c)) = [m]"
    and IH: "\<And>mem' c'. cd_id (ctx_data c') = cd_id (ctx_data c) \<Longrightarrow>
      \<forall>x \<in> set (items (cd_local_queue (ctx_data c'))). rank (msg_fn x) < rank (msg_fn m) \<Longrightarrow>
      \<exists>r. drain user mem' c' = Some r"
  shows "\<exists>r. drain user mem c = Some r"
proof -
  let ?c0 = "c\<lparr>ctx_data := (ctx_data c)\<lparr>cd_local_queue := \<lparr>items = []\<rparr>\<rparr>\<rparr>"
  have step: "drain_step user mem c = Some (run_msg user m mem ?c0)"
    by (simp add: drain_step_def local_recv_def assms(2))
  show ?thesis
  proof (cases "run_msg user m mem ?c0")
    case (Inl e)
    then show ?thesis using step drain_panic by metis
  next
    case (Inr x)
    obtain mem1 c1 as where x: "x = (mem1, c1, as)" by (cases x)
    have "\<forall>y \<in> set (items (cd_local_queue (ctx_data c1))). rank (msg_fn y) < rank (msg_fn m)"
      using run_msg_ranked [OF _ Inr [unfolded x]] assms(1) by fastforce
    then obtain r where "drain user mem1 c1 = Some r"
      using IH [of c1 mem1] run_msg_frame(1) [OF Inr [unfolded x]] by auto
    then show ?thesis using drain_round [of user mem c mem1 c1 as] step Inr x by simp
  qed
qed

lemma drain_each:
  fixes user :: "('f, 'm) user"
  assumes "\<And>mem c m. cd_id (ctx_data c) = k \<Longrightarrow> items (cd_local_queue (ctx_data c)) = [m] \<Longrightarrow> P m \<Longrightarrow>
      \<exists>r. drain user mem c = Some r"
    and "items (cd_local_queue (ctx_data c)) = ms" "cd_id (ctx_data c) = k" "\<forall>m \<in> set ms. P m"
  shows "\<exists>r. drain user mem c = Some r"
  using assms(2-)
proof (induction ms arbitrary: mem c rule: rev_induct)
  case Nil
  then show ?case using drain_empty [of user mem c] by (simp add: drain_step_None)
next
  case (snoc m ms)
  let ?c = "c\<lparr>ctx_data := (ctx_data c)\<lparr>cd_local_queue := \<lparr>items = [m]\<rparr>\<rparr>\<rparr>"
  have c: "c = older ms ?c" using snoc.prems(1) by (simp add: older_def older_data_def)
  obtain r where r: "drain user mem ?c = Some r" using assms(1) [of ?c m mem] snoc.prems by auto
  have "\<exists>r2. then_older user ms r = Some r2"
  proof (cases r)
    case (Inr x)
    obtain mem1 c1 as where x: "x = (mem1, c1, as)" by (cases x)
    have "items (cd_local_queue (ctx_data (older ms c1))) = ms" "cd_id (ctx_data (older ms c1)) = k"
      using drains_final [OF drain_drains [OF r]] Inr x snoc.prems by auto
    then show ?thesis using snoc.IH [of "older ms c1" mem1] snoc.prems Inr x by (auto simp: then_older_def)
  qed (simp add: then_older_def)
  then show ?case using drain_older [of user mem ms ?c] r c by auto
qed

lemma drain_ranked:
  fixes user :: "('f, 'm) user"
  assumes "ranked user k rank" "cd_id (ctx_data c) = k"
    and "\<forall>m \<in> set (items (cd_local_queue (ctx_data c))). rank (msg_fn m) < n"
  shows "\<exists>r. drain user mem c = Some r"
  using assms(2,3)
proof (induction n arbitrary: mem c rule: less_induct)
  case (less n)
  show ?case
  proof (rule drain_each [where P = "\<lambda>m. rank (msg_fn m) < n"])
    fix mem and c :: "'f actor_context" and m
    assume "cd_id (ctx_data c) = k" "items (cd_local_queue (ctx_data c)) = [m]" "rank (msg_fn m) < n"
    then show "\<exists>r. drain user mem c = Some r"
      using drain_single [of user c rank m mem] less.IH [of "rank (msg_fn m)"] assms(1) by simp
  qed (use less.prems in simp_all)
qed

lemma filter_unique_key:
  "distinct (map fst xs) \<Longrightarrow>
    filter (\<lambda>(k', _). k' = k) xs = (case map_of xs k of None \<Rightarrow> [] | Some v \<Rightarrow> [(k, v)])"
  by (induction xs) (force split: option.splits simp: map_of_eq_None_iff filter_empty_conv)+

subsection \<open>Properties\<close>

text \<open>
  C28. The local queue is drained newest first: the loop on a queue with the messages \<open>ms\<close> below
  its others handles the others, and all they cause, as if \<open>ms\<close> were not there, and only then
  \<open>ms\<close>. In particular \<open>ms\<close> waits forever if the others never come to an end.
\<close>

theorem drain_newest_first:
  "drain user mem (older ms c) = Option.bind (drain user mem c) (then_older user ms)"
  by (rule drain_older)

text \<open>
  C29. The loop that drains the local queue ends, on every queue, if the chains of local messages
  are bounded: if there is a rank that every handler's local messages have less of than it.
\<close>

theorem drain_terminates:
  assumes "ranked user (cd_id (ctx_data c)) rank"
  shows "\<exists>r. drain user mem c = Some r"
proof (rule drain_ranked [OF assms refl])
  show "\<forall>m \<in> set (items (cd_local_queue (ctx_data c))).
      rank (msg_fn m) < Suc (Max (insert 0 (rank ` msg_fn ` set (items (cd_local_queue (ctx_data c))))))"
    by (auto simp: less_Suc_eq_le)
qed


text \<open>
  A program in which actors pass a counter on to an actor of the same context and count down:
  its chains are as long as the counter.
\<close>

definition countdown :: "(nat, nat) user" where
  "countdown n p mem = Ok (mem + 1, case n of 0 \<Rightarrow> [] | Suc m \<Rightarrow> [CmdSend (sample_key 0 8) m])"

definition sample_context :: "nat msg list \<Rightarrow> nat actor_context" where
  "sample_context ms = \<lparr>ctx_data = \<lparr>cd_id = cid 0, cd_local_queue = \<lparr>items = ms\<rparr>, cd_unsent = []\<rparr>,
     ctx_arena = \<lparr>arena_data = 4096, arena_capacity = 16\<rparr>, ctx_drop_fns = [], ctx_rx = 0, ctx_links = []\<rparr>"

theorem drain_terminates_witness:
  "\<exists>r. drain countdown 0 (sample_context [\<lparr>msg_targets = [(Offset 0, MetaUnit)], msg_fn = 3\<rparr>]) = Some r"
proof (rule drain_terminates)
  show "ranked countdown (cd_id (ctx_data (sample_context
      [\<lparr>msg_targets = [(Offset 0, MetaUnit)], msg_fn = 3\<rparr>]))) (\<lambda>n. n)"
    by (auto simp: ranked_def may_send_def countdown_def key_closure_def split: nat.splits)
qed

text \<open>
  C30. A broadcast to the group of a query sends one message to each context that has a matching
  actor, and no other message; the message to the context \<open>c\<close> carries the references of the
  matching actors of \<open>c\<close>, each once and in tree order.
\<close>

theorem broadcast_reaches_each_match:
  assumes "\<And>m. mset (iter m) = mset m"
  shows "outgoing c (broadcast (broadcast_group iter found) f d) =
    outgoing c d @ (if keys_in c found = [] then []
      else [\<lparr>msg_targets = map key_ref (keys_in c found), msg_fn = f\<rparr>])"
proof -
  let ?gs = "by_context (broadcast_group iter found)"
  have facts: "distinct (map fst ?gs)"
    "\<And>rs. (c, rs) \<in> set ?gs \<longleftrightarrow> rs \<noteq> [] \<and> rs = map key_ref (keys_in c found)"
    using broadcast_group_facts [OF assms] by blast+
  then have "filter (\<lambda>(c', _). c' = c) ?gs =
      (if keys_in c found = [] then [] else [(c, map key_ref (keys_in c found))])"
    by (auto simp: filter_unique_key map_of_eq_Some_iff map_of_eq_None_iff split: option.split) force
  then show ?thesis by (simp add: broadcast_def outgoing_broadcast_loop)
qed

theorem broadcast_reaches_each_match_witness:
  "outgoing (cid 0) (broadcast (broadcast_group rev
      [(aid 0, sample_key 0 0), (aid 1, sample_key 1 8), (aid 2, sample_key 0 16)]) (5 :: nat)
      (context_data_new (cid 1))) =
    [\<lparr>msg_targets = [(Offset 0, MetaUnit), (Offset 16, MetaUnit)], msg_fn = 5\<rparr>]"
  by (subst broadcast_reaches_each_match)
    (simp_all add: keys_in_def key_ref_def sample_key_def context_data_new_def outgoing_def)

end
