(* ===== verification/Init.thy ===== *)
theory Init
  imports Context
begin

text \<open>
  What an actor can do while it is initialised: \<open>InitData\<close> and \<open>InitArgs\<close> of \<open>context.rs\<close>,
  and the query of \<open>lookup.rs\<close> that makes accessors.

  An actor's \<open>init\<close> is user code. It sees its arguments as a value of \<open>init_view\<close>, from which
  everything a query returns can be computed; it returns the runtime calls it made, in order,
  and the effect of writing the constructed actor to its place in the arena.
\<close>

subsection \<open>Queries and calls\<close>

text \<open>The type parameter of a query: a sized type, or \<open>dyn D\<close>.\<close>

datatype query_type = QSized type_id | QDyn trait_id

text \<open>The types that \<open>grab\<close> returns: \<open>Key<T>\<close>, and tuples of such types.\<close>

datatype grab_type = GrabKey query_type | GrabTuple "grab_type list"

datatype grabbed = GotKey key | GotTuple "grabbed list"

record 's init_view =
  iv_actor :: actor_id
  iv_context :: context_id
  iv_offset :: offset
  iv_lookup :: "query_type \<Rightarrow> (actor_id \<times> key) list"
  iv_resources :: "type_id \<rightharpoonup> 's"

datatype 'f init_call =
    InitSend key 'f
  | InitBroadcast broadcast_group 'f
  | InitAccessor
  | InitAccessorForKey key
  | InitAllAccessors query_type nat  \<comment> \<open>how many elements of the iterator are taken\<close>
  | InitExactlyOneKey query_type
  | InitGrab grab_type
  | InitAcyclicLocalKey query_type
  | InitGetResource type_id
  | InitAccessorSend accessor 'f
  | InitAccessorDrop accessor
  | InitPanic fault                  \<comment> \<open>a panic of the user's own\<close>

type_synonym ('f, 'm) init_outcome = "'f init_call list \<times> (usize \<Rightarrow> 'm \<Rightarrow> 'm)"

type_synonym ('v, 'c, 's, 'f, 'm) object_vtable =
  "('v, 'c, 's init_view, ('f, 'm) init_outcome) vtable"
type_synonym ('v, 'c, 's, 'f, 'm) object_tree =
  "('v, 'c, 's init_view, ('f, 'm) init_outcome) actor_tree"
type_synonym ('v, 'c, 's, 'f, 'm) object_registry =
  "('v, 'c, 's init_view, ('f, 'm) init_outcome, 's) registry"

definition tree_query :: "('v, 'c, 's, 'f, 'm) object_registry \<Rightarrow> ('v, 'c, 's, 'f, 'm) object_tree \<Rightarrow>
    actor_id \<Rightarrow> query_type \<Rightarrow> (actor_id \<times> key) list" where
  "tree_query registry tree self q = (case q of
     QSized t \<Rightarrow> lookup_sized t tree self
   | QDyn d \<Rightarrow> lookup_dyn registry d tree self)"

subsection \<open>\<open>InitData\<close> and \<open>InitArgs\<close>\<close>

text \<open>\<open>make_tx\<close> has one closure for each channel; a closure is the channel it clones the sender of.\<close>

record 'f init_data =
  id_data :: "'f context_data"
  id_relations :: "dependence_relation list"
  id_make_tx :: "nat list"

record 's init_args =
  ia_actor :: actor_id
  ia_offset :: offset
  ia_lookup :: "query_type \<Rightarrow> (actor_id \<times> key) list"
  ia_resources :: "type_id \<rightharpoonup> 's"

definition init_view :: "'s init_args \<Rightarrow> 'f init_data \<Rightarrow> 's init_view" where
  "init_view args d = \<lparr>iv_actor = ia_actor args, iv_context = cd_id (id_data d),
     iv_offset = ia_offset args, iv_lookup = ia_lookup args, iv_resources = ia_resources args\<rparr>"

definition init_send_msg :: "key \<Rightarrow> 'f \<Rightarrow> 'f init_data \<Rightarrow> 'f init_data" where
  "init_send_msg k f d =
     (if cd_id (id_data d) = loc_context (key_loc k)
      then d\<lparr>id_data := (id_data d)\<lparr>cd_local_queue :=
        local_send (cd_local_queue (id_data d)) (key_closure k f)\<rparr>\<rparr>
      else d\<lparr>id_data := (id_data d)\<lparr>cd_unsent :=
        cd_unsent (id_data d) @ [(loc_context (key_loc k), key_closure k f)]\<rparr>\<rparr>)"

definition init_broadcast :: "broadcast_group \<Rightarrow> 'f \<Rightarrow> 'f init_data \<Rightarrow> 'f init_data" where
  "init_broadcast g f d = d\<lparr>id_data := broadcast g f (id_data d)\<rparr>"

definition get_resource :: "'s init_args \<Rightarrow> type_id \<Rightarrow> 's res" where
  "get_resource args t = unwrap (ia_resources args t)"

definition init_accessor :: "'s init_args \<Rightarrow> 'f init_data \<Rightarrow> accessor res" where
  "init_accessor args d =
     rbind (vec_get (id_make_tx d) (context_as_index (cd_id (id_data d)))) (\<lambda>tx.
     Ok \<lparr>acc_offset = ia_offset args, acc_meta = MetaUnit, acc_queue = tx\<rparr>)"

definition accessor_for_key :: "'f init_data \<Rightarrow> key \<Rightarrow> accessor res" where
  "accessor_for_key d k =
     rbind (vec_get (id_make_tx d) (context_as_index (loc_context (key_loc k)))) (\<lambda>tx.
     Ok \<lparr>acc_offset = loc_offset (key_loc k), acc_meta = key_meta k, acc_queue = tx\<rparr>)"

text \<open>\<open>Query::all_accessors\<close>: the iterator is lazy, an accessor is made for each element taken.\<close>

definition all_accessors :: "'f init_data \<Rightarrow> (actor_id \<times> key) list \<Rightarrow> nat \<Rightarrow> accessor list res" where
  "all_accessors d found n = rmap (\<lambda>(_, k). accessor_for_key d k) (take n found)"

text \<open>\<open>Grab::grab\<close>: the components of a tuple are grabbed in order.\<close>

fun grab :: "'s init_args \<Rightarrow> grab_type \<Rightarrow> grabbed res"
  and grab_all :: "'s init_args \<Rightarrow> grab_type list \<Rightarrow> grabbed list res" where
  "grab args (GrabKey q) = rbind (exactly_one_key (ia_lookup args q)) (\<lambda>k. Ok (GotKey k))"
| "grab args (GrabTuple gs) = rbind (grab_all args gs) (\<lambda>xs. Ok (GotTuple xs))"
| "grab_all args [] = Ok []"
| "grab_all args (g # gs) =
     rbind (grab args g) (\<lambda>x. rbind (grab_all args gs) (\<lambda>xs. Ok (x # xs)))"

fun exec_init_call :: "'s init_args \<Rightarrow> 'f init_call \<Rightarrow> 'f init_data \<Rightarrow>
    ('f init_data \<times> 'f action list) res" where
  "exec_init_call args (InitSend k f) d = Ok (init_send_msg k f d, [])"
| "exec_init_call args (InitBroadcast g f) d = Ok (init_broadcast g f d, [])"
| "exec_init_call args InitAccessor d =
     rbind (init_accessor args d) (\<lambda>a. Ok (d, [AccClone a]))"
| "exec_init_call args (InitAccessorForKey k) d =
     rbind (accessor_for_key d k) (\<lambda>a. Ok (d, [AccClone a]))"
| "exec_init_call args (InitAllAccessors q n) d =
     rbind (all_accessors d (ia_lookup args q) n) (\<lambda>as. Ok (d, map AccClone as))"
| "exec_init_call args (InitExactlyOneKey q) d =
     rbind (exactly_one_key (ia_lookup args q)) (\<lambda>_. Ok (d, []))"
| "exec_init_call args (InitGrab g) d = rbind (grab args g) (\<lambda>_. Ok (d, []))"
| "exec_init_call args (InitAcyclicLocalKey q) d =
     rbind (acyclic_local_key (ia_actor args) (cd_id (id_data d)) (ia_lookup args q) (id_relations d))
       (\<lambda>(k, rels). Ok (d\<lparr>id_relations := rels\<rparr>, []))"
| "exec_init_call args (InitGetResource t) d = rbind (get_resource args t) (\<lambda>_. Ok (d, []))"
| "exec_init_call args (InitAccessorSend a f) d = Ok (d, accessor_send a f)"
| "exec_init_call args (InitAccessorDrop a) d = Ok (d, accessor_drop a)"
| "exec_init_call args (InitPanic e) d = Fault e"

fun exec_init_calls :: "'s init_args \<Rightarrow> 'f init_call list \<Rightarrow> 'f init_data \<Rightarrow>
    ('f init_data \<times> 'f action list) res" where
  "exec_init_calls args [] d = Ok (d, [])"
| "exec_init_calls args (c # cs) d =
     rbind (exec_init_call args c d) (\<lambda>(d1, as).
     rbind (exec_init_calls args cs d1) (\<lambda>(d2, bs). Ok (d2, as @ bs)))"

subsection \<open>Properties\<close>

text \<open>The keys in a type and in a value, in order.\<close>

fun grab_leaves :: "grab_type \<Rightarrow> query_type list" and grab_leaves_all :: "grab_type list \<Rightarrow> query_type list" where
  "grab_leaves (GrabKey q) = [q]"
| "grab_leaves (GrabTuple gs) = grab_leaves_all gs"
| "grab_leaves_all [] = []"
| "grab_leaves_all (g # gs) = grab_leaves g @ grab_leaves_all gs"

fun grabbed_keys :: "grabbed \<Rightarrow> key list" and grabbed_keys_all :: "grabbed list \<Rightarrow> key list" where
  "grabbed_keys (GotKey k) = [k]"
| "grabbed_keys (GotTuple xs) = grabbed_keys_all xs"
| "grabbed_keys_all [] = []"
| "grabbed_keys_all (x # xs) = grabbed_keys x @ grabbed_keys_all xs"

lemma grab_flat:
  "rbind (grab args g) (\<lambda>x. Ok (grabbed_keys x)) = rmap (\<lambda>q. exactly_one_key (ia_lookup args q)) (grab_leaves g)"
  "rbind (grab_all args gs) (\<lambda>xs. Ok (grabbed_keys_all xs)) = rmap (\<lambda>q. exactly_one_key (ia_lookup args q)) (grab_leaves_all gs)"
  by (induction args g and args gs rule: grab_grab_all.induct)
    (auto simp: rmap_append rbind_def split: sum.splits)

lemma exec_exactly_one_keys:
  "exec_init_calls args (map InitExactlyOneKey qs) d =
    rbind (rmap (\<lambda>q. exactly_one_key (ia_lookup args q)) qs) (\<lambda>_. Ok (d, []))"
  by (induction qs) (auto simp: rbind_def split: sum.splits)


end
