(* ===== verification/Control.thy ===== *)
theory Control
  imports Alloc
begin

text \<open>
  The control block of \<open>context.rs\<close>: one heap block with an atomic counter of the events that
  are still to be handled, shared by all threads through raw pointers. The block in memory is a
  value of \<open>control_block\<close>; an access after it was freed is undefined. \<open>Freed\<close> keeps the
  layout the block was freed with: freeing it with another layout than its own is undefined too,
  but the code does so, and what follows is stated of the memory as it would be after the call.

  The locale \<open>counter\<close> is what the threads rely on: a shared counter that tracks a number.
\<close>

subsection \<open>The block and its counter\<close>

datatype control_block = Block (unhandled_events: u32) | Freed layout

definition cb_layout :: layout where
  "cb_layout = \<lparr>lay_size = 4, lay_align = 4\<rparr>"

text \<open>The layout of a reference, on a 64-bit target.\<close>

definition ref_layout :: layout where
  "ref_layout = \<lparr>lay_size = 8, lay_align = 8\<rparr>"

definition fetch_add :: "u32 \<Rightarrow> control_block \<Rightarrow> (u32 \<times> control_block) res" where
  "fetch_add n b = (case b of Block c \<Rightarrow> Ok (c, Block (c + n)) | Freed l \<Rightarrow> Fault UndefinedBehaviour)"

definition fetch_sub :: "u32 \<Rightarrow> control_block \<Rightarrow> (u32 \<times> control_block) res" where
  "fetch_sub n b = (case b of Block c \<Rightarrow> Ok (c, Block (c - n)) | Freed l \<Rightarrow> Fault UndefinedBehaviour)"

definition cb_dealloc :: "layout \<Rightarrow> control_block \<Rightarrow> control_block res" where
  "cb_dealloc l b = (case b of Block c \<Rightarrow> Ok (Freed l) | Freed l' \<Rightarrow> Fault UndefinedBehaviour)"

text \<open>Whether the block was freed with the layout it was allocated with.\<close>

definition freed_ok :: "control_block \<Rightarrow> bool" where
  "freed_ok b = (case b of Block c \<Rightarrow> True | Freed l \<Rightarrow> is_ok (dealloc_call cb_layout l))"

subsection \<open>\<open>ControlBlockPtr\<close>\<close>

definition cb_new :: "(layout \<Rightarrow> usize) \<Rightarrow> control_block res" where
  "cb_new alloc =
     rbind (alloc_call alloc cb_layout) (\<lambda>ptr.
     rbind (unwrap (nonnull_new ptr)) (\<lambda>_. Ok (Block 1)))"

definition cb_clone :: "control_block \<Rightarrow> control_block res" where
  "cb_clone b = rbind (fetch_add 1 b) (\<lambda>(_, b'). Ok b')"

text \<open>
  \<open>release\<close>: in \<open>Layout::for_value(&block)\<close>, \<open>block\<close> is itself a reference, so the layout is
  that of a reference.
\<close>

definition release :: "control_block \<Rightarrow> (bool \<times> control_block) res" where
  "release b =
     rbind (fetch_sub 1 b) (\<lambda>(old, b1).
     if old > 1 then Ok (False, b1)
     else rbind (cb_dealloc ref_layout b1) (\<lambda>b2. Ok (True, b2)))"

definition into_unowned :: "control_block \<Rightarrow> control_block res" where
  "into_unowned b = rbind (release b) (\<lambda>(_, b'). Ok b')"

definition control_block_ptr_drop :: "unit res" where
  "control_block_ptr_drop = Fault UnreachableCode"

subsection \<open>The contract of a counter\<close>

text \<open>
  \<open>tracks b n\<close>: the counter is accessible and shows \<open>n\<close>. A decrement tells whether it was the
  last one, as long as the number fits the counter.
\<close>

locale counter =
  fixes shows_word :: "'b \<Rightarrow> u32 \<Rightarrow> bool"
    and incr :: "u32 \<Rightarrow> 'b \<Rightarrow> (u32 \<times> 'b) res"
    and decr :: "u32 \<Rightarrow> 'b \<Rightarrow> (u32 \<times> 'b) res"
  assumes incr_word: "shows_word b c \<Longrightarrow> \<exists>b'. incr n b = Ok (c, b') \<and> shows_word b' (c + n)"
    and decr_word: "shows_word b c \<Longrightarrow> \<exists>b'. decr n b = Ok (c, b') \<and> shows_word b' (c - n)"
begin

definition tracks :: "'b \<Rightarrow> nat \<Rightarrow> bool" where
  "tracks b n \<longleftrightarrow> shows_word b (of_nat n)"

lemma tracks_incr: "tracks b n \<Longrightarrow> \<exists>b'. incr (of_nat k) b = Ok (of_nat n, b') \<and> tracks b' (n + k)"
  using incr_word [of b "of_nat n" "of_nat k"] by (simp add: tracks_def)

lemma tracks_decr:
  "tracks b (Suc n) \<Longrightarrow> \<exists>b'. decr 1 b = Ok (of_nat (Suc n), b') \<and> tracks b' n"
  using decr_word [of b "of_nat (Suc n)" 1] by (simp add: tracks_def)

lemma last_one: "n < 2 ^ 32 \<Longrightarrow> (of_nat n :: u32) \<le> 1 \<longleftrightarrow> n \<le> 1"
  by (simp add: word_le_nat_alt unat_of_nat_u32)

end

interpretation cb: counter "\<lambda>b c. b = Block c" fetch_add fetch_sub
  by unfold_locales (simp_all add: fetch_add_def fetch_sub_def)

lemma tracks_Block: "cb.tracks b n \<longleftrightarrow> b = Block (of_nat n)"
  by (simp add: cb.tracks_def)

text \<open>A reference is released: the others keep the block, the last one frees it.\<close>

lemma release_tracks:
  assumes "cb.tracks b (Suc n)" "Suc n < 2 ^ 32"
  shows "release b = (if n = 0 then Ok (True, Freed ref_layout) else Ok (False, Block (of_nat n)))"
proof -
  obtain b' where b': "fetch_sub 1 b = Ok (of_nat (Suc n), b')" "cb.tracks b' n"
    using cb.tracks_decr [OF assms(1)] by blast
  have "(of_nat (Suc n) :: u32) > 1 \<longleftrightarrow> n \<noteq> 0"
    using cb.last_one [OF assms(2)] by (metis linorder_not_le One_nat_def Suc_le_mono le_0_eq)
  then show ?thesis using b' by (simp add: release_def tracks_Block cb_dealloc_def)
qed

text \<open>A number of clones and releases in some order, as the results of the releases.\<close>

datatype cb_op = DoClone | DoRelease

fun run_ops :: "cb_op list \<Rightarrow> control_block \<Rightarrow> (bool list \<times> control_block) res" where
  "run_ops [] b = Ok ([], b)"
| "run_ops (DoClone # ops) b = rbind (cb_clone b) (run_ops ops)"
| "run_ops (DoRelease # ops) b =
     rbind (release b) (\<lambda>(r, b1). rbind (run_ops ops b1) (\<lambda>(rs, b2). Ok (r # rs, b2)))"

text \<open>The references held while the operations run: each acts on a reference that is held.\<close>

fun held :: "cb_op list \<Rightarrow> nat \<Rightarrow> nat option" where
  "held [] n = Some n"
| "held (op # ops) n =
     (if n = 0 then None else if n + 1 \<ge> 2 ^ 32 then None
      else case op of DoClone \<Rightarrow> held ops (n + 1) | DoRelease \<Rightarrow> held ops (n - 1))"

definition releases :: "cb_op list \<Rightarrow> nat" where
  "releases ops = length (filter (\<lambda>op. op = DoRelease) ops)"

lemma releases_simps [simp]:
  "releases [] = 0" "releases (DoClone # ops) = releases ops"
  "releases (DoRelease # ops) = Suc (releases ops)"
  by (simp_all add: releases_def)

definition release_results :: "nat \<Rightarrow> nat \<Rightarrow> bool list" where
  "release_results r m = (if m = 0 then replicate (r - 1) False @ [True] else replicate r False)"

lemma held_releases: "held ops n = Some m \<Longrightarrow> n \<le> m + releases ops"
proof (induction ops arbitrary: n)
  case (Cons op ops)
  then show ?case by (cases op) (fastforce split: if_splits)+
qed simp

lemma run_ops_held:
  "held ops n = Some m \<Longrightarrow> 0 < n \<Longrightarrow> n < 2 ^ 32 \<Longrightarrow> cb.tracks b n \<Longrightarrow>
    run_ops ops b = Ok (release_results (releases ops) m, if m = 0 then Freed ref_layout else Block (of_nat m))"
proof (induction ops arbitrary: n b)
  case (Cons op ops)
  then have n: "n + 1 < 2 ^ 32" by (simp split: if_splits)
  show ?case
  proof (cases op)
    case DoClone
    obtain b' where b': "fetch_add 1 b = Ok (of_nat n, b')" "cb.tracks b' (n + 1)"
      using cb.tracks_incr [OF Cons.prems(4), of 1] by auto
    have "held ops (n + 1) = Some m" using Cons.prems DoClone n by (simp split: if_splits)
    then show ?thesis using Cons.IH [of "n + 1" b'] b' n DoClone by (simp add: cb_clone_def)
  next
    case DoRelease
    have held: "held ops (n - 1) = Some m" using Cons.prems DoRelease n by (simp split: if_splits)
    obtain k where k: "n = Suc k" using Cons.prems(2) gr0_implies_Suc by blast
    show ?thesis
    proof (cases "k = 0")
      case True
      then have "ops = []" "m = 0" using held k by (cases ops; simp)+
      then show ?thesis
        using release_tracks [of b k] Cons.prems(3,4) k True DoRelease by (simp add: release_results_def)
    next
      case False
      then have "run_ops ops (Block (of_nat k)) =
          Ok (release_results (releases ops) m, if m = 0 then Freed ref_layout else Block (of_nat m))"
        using Cons.IH [of k "Block (of_nat k)"] held k n by (auto simp: tracks_Block)
      moreover have "False # release_results (releases ops) m = release_results (Suc (releases ops)) m"
        using held_releases [OF held] k False by (cases "releases ops") (auto simp: release_results_def)
      ultimately show ?thesis
        using release_tracks [of b k] Cons.prems(3,4) k False DoRelease by simp
    qed
  qed
next
  case Nil
  then show ?case by (simp add: tracks_Block release_results_def)
qed

subsection \<open>Properties\<close>

text \<open>
  C31. A new control block that is cloned and released in any order, never more often than there
  are references and with fewer than \<open>2 ^ 32 - 1\<close> of them at a time: no operation faults, no
  release but the one of the last reference returns true, and that one returns true and frees
  the block with a layout that is not the one it was allocated with, which is undefined.
\<close>

theorem release_last_only:
  assumes "held ops 1 = Some m"
  shows "run_ops ops (Block 1) =
      Ok (release_results (releases ops) m, if m = 0 then Freed ref_layout else Block (of_nat m)) \<and>
    (m = 0 \<longrightarrow> dealloc_call cb_layout ref_layout = Fault UndefinedBehaviour)"
  using run_ops_held [OF assms] by (simp add: tracks_Block dealloc_call_def cb_layout_def ref_layout_def)

theorem release_last_only_witness:
  "run_ops [DoClone, DoClone, DoRelease, DoRelease, DoRelease] (Block 1) =
    Ok ([False, False, True], Freed ref_layout)"
  using release_last_only [of "[DoClone, DoClone, DoRelease, DoRelease, DoRelease]" 0]
  by (simp add: release_results_def)

end
