(* ===== verification/Runtime.thy ===== *)
theory Runtime
  imports Init Control
begin

text \<open>
  \<open>config.rs\<close> and the sequential part of \<open>runtime/mod.rs\<close>: from a configuration to the
  arguments of each context (\<open>create_context_args\<close>, \<open>allocate_actors\<close>), from those to a
  running context (\<open>create_context\<close>), and the routing of messages between contexts.

  Parameters: the registry, the addresses the allocator returns (\<open>alloc i\<close> for the arena of
  the context at index \<open>i\<close>), and the iteration order of the hash map in the cycle check.
\<close>

subsection \<open>Configuration\<close>

record 'v actor_config =
  cfg_typename :: string
  cfg_config :: 'v
  cfg_context :: context_id

datatype 'v scope = Scope
  (scope_name: "string option") (scope_children: "(string \<times> 'v scope) list")
  (scope_actors: "'v actor_config list") (imported_scopes: "string list")

record context_config =
  cc_id :: context_id
  cc_thread_affinity :: "nat list option"

record 'v config =
  config_root :: "'v scope"
  config_contexts :: "context_config list"

subsection \<open>\<open>allocate_actors\<close>\<close>

record ('v, 'c, 's, 'f, 'm) actor_constructor_info =
  aci_id :: actor_id
  aci_offset :: offset
  aci_vtable :: "('v, 'c, 's, 'f, 'm) object_vtable"
  aci_cfg :: "'v actor_config"

definition constructor_info :: "('v, 'c, 's, 'f, 'm) object_registry \<Rightarrow> actor_id \<times> 'v actor_config \<Rightarrow>
    ('v, 'c, 's, 'f, 'm) actor_constructor_info res" where
  "constructor_info registry = (\<lambda>(i, cfg).
     rbind (unwrap (by_name registry (cfg_typename cfg))) (\<lambda>(_, vtable).
     Ok \<lparr>aci_id = i, aci_offset = Offset 0, aci_vtable = vtable, aci_cfg = cfg\<rparr>))"

definition allocate_actors :: "('v, 'c, 's, 'f, 'm) object_registry \<Rightarrow> (layout \<Rightarrow> usize) \<Rightarrow>
    (actor_id \<times> 'v actor_config) list \<Rightarrow>
    (arena \<times> ('v, 'c, 's, 'f, 'm) actor_constructor_info list) res" where
  "allocate_actors registry alloc configs =
     rbind (rmap (constructor_info registry) configs) (\<lambda>infos.
     rbind (rmap (\<lambda>info. vtable_layout (aci_vtable info)) infos) (\<lambda>layouts.
     rbind (from_layouts alloc layouts) (\<lambda>(arena, offsets).
     rbind (guard AssertFailed (length offsets = length infos)) (\<lambda>_.
     Ok (arena, map (\<lambda>(info, off). info\<lparr>aci_offset := off\<rparr>) (zip infos offsets))))))"

subsection \<open>\<open>create_context_args\<close>\<close>

record ('v, 'c, 's, 'f, 'm) context_constructor_args =
  ca_id :: context_id
  ca_actors :: "('v, 'c, 's, 'f, 'm) actor_constructor_info list"
  ca_rx :: nat
  ca_arena :: arena
  ca_links :: "nat list"
  ca_tree :: "('v, 'c, 's, 'f, 'm) object_tree option"
  ca_make_tx :: "nat list"
  ca_resource_map :: "type_id \<rightharpoonup> 's"

text \<open>The loop that hands the actors to their contexts.\<close>

fun assign_actors :: "nat \<Rightarrow> 'v actor_config list \<Rightarrow> (actor_id \<times> 'v actor_config) list list \<Rightarrow>
    (actor_id \<times> 'v actor_config) list list res" where
  "assign_actors i [] contexts = Ok contexts"
| "assign_actors i (c # cs) contexts =
     rbind (id_for_index actor_new i) (\<lambda>this.
     rbind (vec_get contexts (context_as_index (cfg_context c))) (\<lambda>actors.
     assign_actors (Suc i) cs (contexts[context_as_index (cfg_context c) := actors @ [(this, c)]])))"

definition actor_entries :: "context_id \<Rightarrow> ('v, 'c, 's, 'f, 'm) actor_constructor_info list \<Rightarrow>
    ('v, 'c, 's init_view, ('f, 'm) init_outcome) actor_data list" where
  "actor_entries this actors = map (\<lambda>actor. \<lparr>ad_id = aci_id actor, ad_vtable = aci_vtable actor,
     ad_loc = \<lparr>loc_context = this, loc_offset = aci_offset actor\<rparr>\<rparr>) actors"

text \<open>The links of the context at index \<open>i\<close>: a sender for every other context, in order.\<close>

definition links_for :: "nat \<Rightarrow> nat \<Rightarrow> nat list" where
  "links_for n i = filter (\<lambda>j. i \<noteq> j) [0..<n]"

definition clone_links :: "nat list \<Rightarrow> 'q channel list \<Rightarrow> 'q channel list" where
  "clone_links js chans = fold (\<lambda>j cs. cs[j := tx_clone (cs ! j)]) js chans"

record ('v, 'c, 's, 'f, 'm) startup =
  su_args :: "('v, 'c, 's, 'f, 'm) context_constructor_args list"
  su_tree :: "('v, 'c, 's init_view, ('f, 'm) init_outcome) actor_data list"
  su_channels :: "'f queue_item channel list"
  su_control :: control_block

text \<open>The main loop, over the contexts that are left, from the one at index \<open>i\<close>.\<close>

fun build_contexts :: "('v, 'c, 's, 'f, 'm) object_registry \<Rightarrow> (nat \<Rightarrow> layout \<Rightarrow> usize) \<Rightarrow> nat \<Rightarrow> nat \<Rightarrow>
    (actor_id \<times> 'v actor_config) list list \<Rightarrow> ('v, 'c, 's, 'f, 'm) startup \<Rightarrow>
    ('v, 'c, 's, 'f, 'm) startup res" where
  "build_contexts registry alloc n i [] su = Ok su"
| "build_contexts registry alloc n i (configs # rest) su =
     rbind (id_for_index context_new i) (\<lambda>this.
     rbind (allocate_actors registry (alloc i) configs) (\<lambda>(arena, actors).
     rbind (cb_clone (su_control su)) (\<lambda>control.
     build_contexts registry alloc n (Suc i) rest
       \<lparr>su_args = su_args su @ [\<lparr>ca_id = this, ca_actors = actors, ca_rx = i, ca_arena = arena,
          ca_links = links_for n i, ca_tree = None, ca_make_tx = [0..<n],
          ca_resource_map = resource_constructors registry\<rparr>],
        su_tree = su_tree su @ actor_entries this actors,
        su_channels = clone_links (links_for n i) (su_channels su),
        su_control = control\<rparr>)))"

text \<open>
  The channels: each starts with the sender kept in the local vector of contexts, which is
  dropped at the end, and gets a clone in \<open>make_tx\<close>.
\<close>

definition create_context_args :: "('v, 'c, 's, 'f, 'm) object_registry \<Rightarrow> (nat \<Rightarrow> layout \<Rightarrow> usize) \<Rightarrow>
    (layout \<Rightarrow> usize) \<Rightarrow> 'v config \<Rightarrow> ('v, 'c, 's, 'f, 'm) startup res" where
  "create_context_args registry alloc cb_alloc config =
     (let ns = config_root config; n = length (config_contexts config) in
      rbind (guard Unimplemented (scope_children ns = [])) (\<lambda>_.
      rbind (guard Unimplemented (imported_scopes ns = [])) (\<lambda>_.
      rbind (guard AssertFailed
        (list_all (\<lambda>(i, b). i = context_as_index (cc_id b)) (enumerate 0 (config_contexts config)))) (\<lambda>_.
      rbind (assign_actors 0 (scope_actors ns) (map (\<lambda>_. []) (config_contexts config))) (\<lambda>contexts.
      rbind (cb_new cb_alloc) (\<lambda>control.
      rbind (build_contexts registry alloc n 0 contexts
        \<lparr>su_args = [], su_tree = [], su_channels = replicate n (tx_clone remote_channel),
         su_control = control\<rparr>) (\<lambda>su.
      rbind (release (su_control su)) (\<lambda>(_, control).
      Ok (su\<lparr>su_args := map (\<lambda>a. a\<lparr>ca_tree := Some \<lparr>tree_actors = su_tree su\<rparr>\<rparr>) (su_args su),
        su_channels := map tx_drop (su_channels su), su_control := control\<rparr>)))))))))"

subsection \<open>\<open>create_context\<close>\<close>

text \<open>The loop that constructs the actors of a context.\<close>

fun construct_actors :: "('v, 'c, 's, 'f, 'm) object_registry \<Rightarrow> ('v, 'c, 's, 'f, 'm) object_tree \<Rightarrow>
    (type_id \<rightharpoonup> 's) \<Rightarrow> arena \<Rightarrow> ('v, 'c, 's, 'f, 'm) actor_constructor_info list \<Rightarrow> 'm \<Rightarrow> 'f init_data \<Rightarrow>
    ('m \<times> 'f init_data \<times> 'f action list) res" where
  "construct_actors registry tree resources arena [] mem d = Ok (mem, d, [])"
| "construct_actors registry tree resources arena (actor # actors) mem d =
     (let args = \<lparr>ia_actor = aci_id actor, ia_offset = aci_offset actor,
        ia_lookup = tree_query registry tree (aci_id actor), ia_resources = resources\<rparr> in
      rbind (unwrap (vt_deserialize (aci_vtable actor) (cfg_config (aci_cfg actor)))) (\<lambda>cfg.
      rbind (vtable_layout (aci_vtable actor)) (\<lambda>layout.
      rbind (at_offset arena (aci_offset actor) layout) (\<lambda>buf.
      rbind (vt_constructor (aci_vtable actor) (init_view args d) buf cfg) (\<lambda>result.
      rbind (unwrap result) (\<lambda>(calls, write).
      rbind (exec_init_calls args calls d) (\<lambda>(d1, as).
      rbind (construct_actors registry tree resources arena actors (write (fst buf) mem) d1) (\<lambda>(mem2, d2, bs).
      Ok (mem2, d2, as @ bs)))))))))"

definition create_context :: "('v, 'c, 's, 'f, 'm) object_registry \<Rightarrow> (graph \<Rightarrow> graph) \<Rightarrow>
    ('v, 'c, 's, 'f, 'm) context_constructor_args \<Rightarrow> 'm \<Rightarrow> ('m \<times> 'f actor_context \<times> 'f action list) res" where
  "create_context registry iter info mem =
     rbind (unwrap (ca_tree info)) (\<lambda>tree.
     (let drop_fns = map (\<lambda>a. (aci_offset a, vt_drop (aci_vtable a))) (ca_actors info) in
      rbind (construct_actors registry tree (ca_resource_map info) (ca_arena info) (ca_actors info) mem
        \<lparr>id_data = context_data_new (ca_id info), id_relations = [], id_make_tx = ca_make_tx info\<rparr>)
        (\<lambda>(mem', d, as).
      rbind (has_cycles iter (id_relations d)) (\<lambda>cycle.
      rbind (guard ExplicitPanic (\<not> cycle)) (\<lambda>_.
      Ok (mem', \<lparr>ctx_data = id_data d, ctx_arena = ca_arena info, ctx_drop_fns = drop_fns,
            ctx_rx = ca_rx info, ctx_links = ca_links info\<rparr>, as @ [DropMakeTx]))))))"

subsection \<open>Routing\<close>

text \<open>
  The index into the links that \<open>run_thread\<close> computes for a message to the context \<open>rx\<close>, and
  the channel it finds there.
\<close>

definition link_index :: "context_id \<Rightarrow> context_id \<Rightarrow> nat res" where
  "link_index self rx =
     (let i = context_as_index rx; b = (if self > rx then 1 else 0)
      in if i < b then Fault ArithOverflow else Ok (i - b))"

definition route :: "nat list \<Rightarrow> context_id \<Rightarrow> context_id \<Rightarrow> nat res" where
  "route links self rx = rbind (link_index self rx) (vec_get links)"

subsection \<open>What the startup makes of a configuration\<close>

lemma id_for_index_aid: "id_for_index actor_new i = Ok a \<Longrightarrow> a = aid i"
  by (auto simp: id_for_index_def uadd_def actor_new_def aid_def nz_new_def split: if_splits)

lemma id_for_index_cid: "id_for_index context_new i = Ok a \<Longrightarrow> a = cid i"
  by (auto simp: id_for_index_def uadd_def context_new_def cid_def nz_new_def split: if_splits)

definition numbered :: "nat \<Rightarrow> 'v actor_config list \<Rightarrow> (actor_id \<times> 'v actor_config) list" where
  "numbered i cs = map (\<lambda>(j, c). (aid j, c)) (enumerate i cs)"

lemma numbered_simps [simp]:
  "numbered i [] = []" "numbered i (c # cs) = (aid i, c) # numbered (Suc i) cs"
  by (simp_all add: numbered_def)

definition lives_in :: "nat \<Rightarrow> (actor_id \<times> 'v actor_config) list \<Rightarrow> (actor_id \<times> 'v actor_config) list" where
  "lives_in k xs = filter (\<lambda>(_, c). context_as_index (cfg_context c) = k) xs"

lemma assign_actors_Ok:
  "assign_actors i cs ctxs = Ok ctxs' \<Longrightarrow>
    length ctxs' = length ctxs \<and> (\<forall>k<length ctxs. ctxs' ! k = ctxs ! k @ lives_in k (numbered i cs)) \<and>
    (\<forall>c \<in> set cs. context_as_index (cfg_context c) < length ctxs)"
proof (induction i cs ctxs rule: assign_actors.induct)
  case (2 i c cs ctxs)
  let ?k = "context_as_index (cfg_context c)"
  from 2 have k: "?k < length ctxs" by auto
  obtain me where me: "id_for_index actor_new i = Ok me" using 2 by auto
  have "assign_actors (Suc i) cs (ctxs[?k := ctxs ! ?k @ [(me, c)]]) = Ok ctxs'"
    using 2(2) k me by simp
  then show ?case
    using "2.IH" [OF me] k id_for_index_aid [OF me]
    by (auto simp: lives_in_def nth_list_update)
qed (simp add: lives_in_def)

lemma mset_lives_in:
  "\<forall>(_, c) \<in> set xs. context_as_index (cfg_context c) < n \<Longrightarrow>
    mset (concat (map (\<lambda>k. lives_in k xs) [0..<n])) = mset xs"
proof (induction xs)
  case (Cons x xs)
  obtain a c where x: "x = (a, c)" by (cases x)
  have "mset (concat (map (\<lambda>k. lives_in k (x # xs)) [0..<m])) =
      mset (concat (map (\<lambda>k. lives_in k xs) [0..<m])) +
      (if context_as_index (cfg_context c) < m then {#x#} else {#})" for m
    by (induction m) (auto simp: lives_in_def x less_Suc_eq)
  then show ?case using Cons by (simp add: x)
qed (simp add: lives_in_def)

text \<open>What \<open>allocate_actors\<close> makes of the actors of one context.\<close>

lemma constructor_info_Ok:
  "constructor_info r (i, cfg) = Ok info \<longleftrightarrow>
    (\<exists>ty v. by_name r (cfg_typename cfg) = Some (ty, v) \<and>
      info = \<lparr>aci_id = i, aci_offset = Offset 0, aci_vtable = v, aci_cfg = cfg\<rparr>)"
  by (auto simp: constructor_info_def)

definition describes :: "('v, 'c, 's, 'f, 'm) object_registry \<Rightarrow> actor_id \<times> 'v actor_config \<Rightarrow>
    ('v, 'c, 's, 'f, 'm) actor_constructor_info \<Rightarrow> bool" where
  "describes r x info \<longleftrightarrow> aci_id info = fst x \<and> aci_cfg info = snd x \<and>
     map_option snd (by_name r (cfg_typename (snd x))) = Some (aci_vtable info)"

lemma allocate_actors_Ok:
  assumes "allocate_actors r alloc configs = Ok (arena, actors)"
  shows "list_all2 (describes r) configs actors"
    and "\<exists>layouts. rmap (\<lambda>info. vtable_layout (aci_vtable info)) actors = Ok layouts \<and>
      from_layouts alloc layouts = Ok (arena, map aci_offset actors)"
proof -
  obtain infos layouts offsets where infos: "rmap (constructor_info r) configs = Ok infos"
    and layouts: "rmap (\<lambda>info. vtable_layout (aci_vtable info)) infos = Ok layouts"
    and arena: "from_layouts alloc layouts = Ok (arena, offsets)"
    and len: "length offsets = length infos"
    and actors: "actors = map (\<lambda>(info, off). info\<lparr>aci_offset := off\<rparr>) (zip infos offsets)"
    using assms by (auto simp: allocate_actors_def)
  have "length infos = length configs" by (rule rmap_length [OF infos])
  moreover have "describes r (configs ! i) (actors ! i)" if i: "i < length configs" for i
  proof -
    have "constructor_info r (configs ! i) = Ok (infos ! i)" by (rule rmap_nth [OF infos i])
    moreover have "actors ! i = (infos ! i)\<lparr>aci_offset := offsets ! i\<rparr>"
      using i len actors \<open>length infos = length configs\<close> by simp
    ultimately show ?thesis
      by (cases "configs ! i") (auto simp: constructor_info_Ok describes_def)
  qed
  ultimately show "list_all2 (describes r) configs actors"
    using len actors by (simp add: list_all2_conv_all_nth)
  have "rmap (\<lambda>info. vtable_layout (aci_vtable info)) actors = Ok layouts"
    using layouts len actors by (auto simp: rmap_eq_Ok list_all2_conv_all_nth)
  moreover have "map aci_offset actors = offsets"
    using len actors by (auto intro: nth_equalityI)
  ultimately show "\<exists>layouts. rmap (\<lambda>info. vtable_layout (aci_vtable info)) actors = Ok layouts \<and>
      from_layouts alloc layouts = Ok (arena, map aci_offset actors)" using arena by blast
qed

text \<open>The arguments made for the context at index \<open>i\<close> with the actors \<open>configs\<close>.\<close>

definition args_for :: "('v, 'c, 's, 'f, 'm) object_registry \<Rightarrow> (nat \<Rightarrow> layout \<Rightarrow> usize) \<Rightarrow> nat \<Rightarrow> nat \<Rightarrow>
    (actor_id \<times> 'v actor_config) list \<Rightarrow> ('v, 'c, 's, 'f, 'm) object_tree option \<Rightarrow>
    ('v, 'c, 's, 'f, 'm) context_constructor_args \<Rightarrow> bool" where
  "args_for r alloc n i configs tree a \<longleftrightarrow>
     ca_id a = cid i \<and> allocate_actors r (alloc i) configs = Ok (ca_arena a, ca_actors a) \<and>
     ca_rx a = i \<and> ca_links a = links_for n i \<and> ca_tree a = tree \<and> ca_make_tx a = [0..<n] \<and>
     ca_resource_map a = resource_constructors r"

definition entries_of :: "('v, 'c, 's, 'f, 'm) context_constructor_args list \<Rightarrow>
    ('v, 'c, 's init_view, ('f, 'm) init_outcome) actor_data list" where
  "entries_of as = concat (map (\<lambda>a. actor_entries (ca_id a) (ca_actors a)) as)"

lemma build_contexts_Ok:
  "build_contexts r alloc n i ctxs su = Ok su' \<Longrightarrow>
    (\<exists>built. su_args su' = su_args su @ built \<and> length built = length ctxs \<and>
       (\<forall>k<length ctxs. args_for r alloc n (i + k) (ctxs ! k) None (built ! k)) \<and>
       su_tree su' = su_tree su @ entries_of built) \<and>
    su_channels su' = fold (\<lambda>k. clone_links (links_for n k)) [i..<i + length ctxs] (su_channels su) \<and>
    (\<forall>c. su_control su = Block c \<longrightarrow> su_control su' = Block (c + of_nat (length ctxs)))"
proof (induction r alloc n i ctxs su rule: build_contexts.induct)
  case (2 r alloc n i configs rest su)
  from "2.prems" obtain me arena actors control where
    step: "id_for_index context_new i = Ok me" "allocate_actors r (alloc i) configs = Ok (arena, actors)"
      "cb_clone (su_control su) = Ok control" by auto
  let ?a = "\<lparr>ca_id = me, ca_actors = actors, ca_rx = i, ca_arena = arena, ca_links = links_for n i,
      ca_tree = None, ca_make_tx = [0..<n], ca_resource_map = resource_constructors r\<rparr>"
  let ?su = "\<lparr>su_args = su_args su @ [?a], su_tree = su_tree su @ actor_entries me actors,
      su_channels = clone_links (links_for n i) (su_channels su), su_control = control\<rparr>"
  have rest: "build_contexts r alloc n (Suc i) rest ?su = Ok su'" using "2.prems" step by simp
  note IH = "2.IH" [OF step(1,2) refl step(3) rest]
  obtain built where built: "su_args su' = su_args ?su @ built" "length built = length rest"
    "\<forall>k<length rest. args_for r alloc n (Suc i + k) (rest ! k) None (built ! k)"
    "su_tree su' = su_tree ?su @ entries_of built" using IH by blast
  have "args_for r alloc n i configs None ?a"
    using step id_for_index_cid [OF step(1)] by (simp add: args_for_def)
  then have all: "\<forall>k<length (configs # rest). args_for r alloc n (i + k) ((configs # rest) ! k) None ((?a # built) ! k)"
    using built(3) by (auto simp: nth_Cons split: nat.splits)
  have "su_args su' = su_args su @ (?a # built)" "length (?a # built) = length (configs # rest)"
    "su_tree su' = su_tree su @ entries_of (?a # built)"
    using built by (simp_all add: entries_of_def)
  then have 1: "\<exists>built. su_args su' = su_args su @ built \<and> length built = length (configs # rest) \<and>
      (\<forall>k<length (configs # rest). args_for r alloc n (i + k) ((configs # rest) ! k) None (built ! k)) \<and>
      su_tree su' = su_tree su @ entries_of built" using all by blast
  have 2: "su_channels su' = fold (\<lambda>k. clone_links (links_for n k)) [i..<i + length (configs # rest)] (su_channels su)"
    using IH upt_conv_Cons [of i "i + length (configs # rest)"] by (simp del: upt_Suc)
  have 3: "\<forall>c. su_control su = Block c \<longrightarrow> su_control su' = Block (c + of_nat (length (configs # rest)))"
    using IH step(3) by (auto simp: cb_clone_def fetch_add_def algebra_simps)
  show ?case using 1 2 3 by blast
qed (auto simp: entries_of_def)

lemma links_for_set [simp]: "set (links_for n i) = {0..<n} - {i}" "distinct (links_for n i)"
  by (auto simp: links_for_def)

text \<open>The channels after some senders were cloned: their queues and receivers are as before.\<close>

lemma clone_links_nth:
  "distinct js \<Longrightarrow> \<forall>j \<in> set js. j < length chans \<Longrightarrow>
    length (clone_links js chans) = length chans \<and>
    (\<forall>j<length chans. clone_links js chans ! j = (if j \<in> set js then tx_clone (chans ! j) else chans ! j))"
  unfolding clone_links_def
proof (induction js arbitrary: chans)
  case (Cons k js)
  then show ?case using Cons.IH [of "chans[k := tx_clone (chans ! k)]"] by (auto simp: nth_list_update)
qed simp

lemma clone_all_links_nth:
  assumes "m \<le> length chans" "j < length chans"
  shows "length (fold (\<lambda>k. clone_links (links_for (length chans) k)) [0..<m] chans) = length chans \<and>
    fold (\<lambda>k. clone_links (links_for (length chans) k)) [0..<m] chans ! j =
      (tx_clone ^^ (if j < m then m - 1 else m)) (chans ! j)"
  using assms(1)
proof (induction m)
  case (Suc m)
  let ?cs = "fold (\<lambda>k. clone_links (links_for (length chans) k)) [0..<m] chans"
  have cs: "length ?cs = length chans" "?cs ! j = (tx_clone ^^ (if j < m then m - 1 else m)) (chans ! j)"
    using Suc by simp_all
  have "clone_links (links_for (length chans) m) ?cs ! j = (if j \<noteq> m then tx_clone (?cs ! j) else ?cs ! j)"
    using clone_links_nth [of "links_for (length chans) m" ?cs] cs assms(2) by auto
  moreover have "length (clone_links (links_for (length chans) m) ?cs) = length chans"
    using clone_links_nth [of "links_for (length chans) m" ?cs] cs by auto
  moreover have "tx_clone ((tx_clone ^^ (m - 1)) c) = (tx_clone ^^ m) c" if "0 < m" for c :: "'b channel"
    using that by (metis Suc_diff_1 funpow.simps(2) o_apply)
  ultimately show ?case using cs by (auto simp: less_Suc_eq)
qed simp

lemma enumerated_ids:
  "list_all (\<lambda>(i, b). i = context_as_index (cc_id b)) (enumerate 0 bs) \<longleftrightarrow> map cc_id bs = map cid [0..<length bs] \<and> length bs < 2 ^ 32"
proof
  assume all: "list_all (\<lambda>(i, b). i = context_as_index (cc_id b)) (enumerate 0 bs)"
  have nth: "context_as_index (cc_id (bs ! i)) = i" if "i < length bs" for i
    using all that by (auto simp: list_all_length nth_enumerate_eq)
  have small: "length bs < 2 ^ 32"
  proof (cases "length bs")
    case (Suc k)
    then show ?thesis using nth [of k] ctx.index_less [of "cc_id (bs ! k)"] by simp
  qed simp
  have "cc_id (bs ! i) = cid i" if "i < length bs" for i
  proof -
    have "i < 2 ^ 32 - 1" using nth [OF that] ctx.index_less [of "cc_id (bs ! i)"] by simp
    then show ?thesis using nth [OF that] ctx.index_eq by (metis context_index_cid)
  qed
  then show "map cc_id bs = map cid [0..<length bs] \<and> length bs < 2 ^ 32"
    using small by (auto intro: nth_equalityI)
next
  assume r: "map cc_id bs = map cid [0..<length bs] \<and> length bs < 2 ^ 32"
  have "cc_id (bs ! i) = cid i" if "i < length bs" for i
    using r that by (metis add_0 length_map nth_map nth_upt)
  then show "list_all (\<lambda>(i, b). i = context_as_index (cc_id b)) (enumerate 0 bs)"
    using r by (auto simp: list_all_length nth_enumerate_eq)
qed

text \<open>The whole of \<open>create_context_args\<close>.\<close>

definition started :: "('v, 'c, 's, 'f, 'm) object_registry \<Rightarrow> (nat \<Rightarrow> layout \<Rightarrow> usize) \<Rightarrow> 'v config \<Rightarrow>
    ('v, 'c, 's, 'f, 'm) startup \<Rightarrow> bool" where
  "started r alloc config su \<longleftrightarrow>
     (let n = length (config_contexts config); actors = numbered 0 (scope_actors (config_root config)) in
      length (su_args su) = n \<and> n < 2 ^ 32 \<and> map cc_id (config_contexts config) = map cid [0..<n] \<and>
      (\<forall>(_, c) \<in> set actors. context_as_index (cfg_context c) < n) \<and>
      (\<forall>k<n. args_for r alloc n k (lives_in k actors) (Some \<lparr>tree_actors = su_tree su\<rparr>) (su_args su ! k)) \<and>
      su_tree su = entries_of (su_args su) \<and>
      su_channels su = replicate n (remote_channel\<lparr>senders := n\<rparr>) \<and>
      (n + 1 < 2 ^ 32 \<longrightarrow> su_control su = (if n = 0 then Freed ref_layout else Block (of_nat n))))"

lemma funpow_tx_clone: "(tx_clone ^^ k) c = c\<lparr>senders := senders c + k\<rparr>"
  by (induction k) (simp_all add: tx_clone_def)

lemma final_channels:
  "map tx_drop (fold (\<lambda>k. clone_links (links_for n k)) [0..<n] (replicate n (tx_clone remote_channel))) =
    (replicate n (remote_channel\<lparr>senders := n\<rparr>) :: 'q channel list)"
proof -
  let ?cs = "replicate n (tx_clone remote_channel) :: 'q channel list"
  have "length (fold (\<lambda>k. clone_links (links_for n k)) [0..<n] ?cs) = n" if "0 < n"
    using clone_all_links_nth [of n ?cs 0] that by simp
  moreover have "fold (\<lambda>k. clone_links (links_for n k)) [0..<n] ?cs ! j = remote_channel\<lparr>senders := n + 1\<rparr>"
    if "j < n" for j
    using clone_all_links_nth [of n ?cs j] that
    by (simp add: funpow_tx_clone del: upt_Suc) (simp add: tx_clone_def remote_channel_def)
  ultimately show ?thesis by (cases "n = 0") (auto intro!: nth_equalityI simp: tx_drop_def simp del: upt_Suc)
qed

lemma create_context_args_started:
  assumes "create_context_args r alloc cb_alloc config = Ok su"
  shows "started r alloc config su"
proof -
  let ?bs = "config_contexts config" and ?cs = "scope_actors (config_root config)"
  let ?n = "length ?bs"
  obtain ctxs control su1 b control1 where
    ids: "list_all (\<lambda>(i, b). i = context_as_index (cc_id b)) (enumerate 0 ?bs)"
    and ctxs: "assign_actors 0 ?cs (map (\<lambda>_. []) ?bs) = Ok ctxs"
    and control: "cb_new cb_alloc = Ok control"
    and su1: "build_contexts r alloc ?n 0 ctxs \<lparr>su_args = [], su_tree = [],
        su_channels = replicate ?n (tx_clone remote_channel), su_control = control\<rparr> = Ok su1"
    and rel: "release (su_control su1) = Ok (b, control1)"
    and su: "su = su1\<lparr>su_args := map (\<lambda>a. a\<lparr>ca_tree := Some \<lparr>tree_actors = su_tree su1\<rparr>\<rparr>) (su_args su1),
        su_channels := map tx_drop (su_channels su1), su_control := control1\<rparr>"
    using assms by (auto simp: create_context_args_def Let_def)
  have small: "?n < 2 ^ 32" and names: "map cc_id ?bs = map cid [0..<?n]"
    using ids by (simp_all add: enumerated_ids)
  have ctxs': "length ctxs = ?n" "\<forall>k<?n. ctxs ! k = lives_in k (numbered 0 ?cs)"
    "\<forall>c \<in> set ?cs. context_as_index (cfg_context c) < ?n"
    using assign_actors_Ok [OF ctxs] by auto
  have "control = Block 1" using control by (auto simp: cb_new_def)
  then have c1: "su_control su1 = Block (1 + of_nat ?n)"
    using build_contexts_Ok [OF su1] ctxs'(1) by auto
  obtain built where built: "su_args su1 = built" "length built = ?n"
    "\<forall>k<?n. args_for r alloc ?n k (ctxs ! k) None (built ! k)" "su_tree su1 = entries_of built"
    using build_contexts_Ok [OF su1] ctxs'(1) by auto
  have args: "\<forall>k<?n. args_for r alloc ?n k (lives_in k (numbered 0 ?cs)) (Some \<lparr>tree_actors = su_tree su\<rparr>) (su_args su ! k)"
    using built ctxs' su by (auto simp: args_for_def)
  have tree: "su_tree su = entries_of (su_args su)"
    using built su by (simp add: entries_of_def comp_def)
  have chans: "su_channels su = replicate ?n (remote_channel\<lparr>senders := ?n\<rparr>)"
    using build_contexts_Ok [OF su1] ctxs'(1) su final_channels [of ?n] by simp
  have "su_control su = (if ?n = 0 then Freed ref_layout else Block (of_nat ?n))" if "?n + 1 < 2 ^ 32"
    using release_tracks [of "su_control su1" ?n] that rel su c1 by (auto simp: tracks_Block split: if_splits)
  then show ?thesis
    using small names ctxs'(3) args tree chans su built(1,2)
    by (auto simp: started_def Let_def numbered_def in_set_enumerate_eq)
qed

lemma assign_actors_few:
  "assign_actors i cs ctxs = Ok ctxs' \<Longrightarrow> i < 2 ^ 32 \<Longrightarrow> i + length cs < 2 ^ 32"
proof (induction i cs ctxs rule: assign_actors.induct)
  case (2 i c cs ctxs)
  obtain me where me: "id_for_index actor_new i = Ok me" using 2 by auto
  then have "i \<noteq> 2 ^ 32 - 1" using act.id_for_index_last by (metis Inl_Inr_False)
  then have "Suc i < 2 ^ 32" using "2.prems"(2) by simp
  then show ?case using 2 me by auto
qed simp

lemma startup_few_actors:
  "create_context_args r alloc cb_alloc config = Ok su \<Longrightarrow> length (scope_actors (config_root config)) < 2 ^ 32"
  using assign_actors_few [of 0] by (fastforce simp: create_context_args_def Let_def)

lemma distinct_numbered: "length cs < 2 ^ 32 \<Longrightarrow> distinct (map fst (numbered 0 cs))"
  by (auto simp: distinct_conv_nth numbered_def nth_enumerate_eq)

text \<open>An entry of the tree and the configured actor it should stand for, side by side.\<close>

abbreviation entry_summary where
  "entry_summary d \<equiv> (ad_id d, loc_context (ad_loc d), Some (ad_vtable d))"

abbreviation config_summary where
  "config_summary r x \<equiv> (fst x, cfg_context (snd x), map_option snd (by_name r (cfg_typename (snd x))))"

lemma actor_entries_summary:
  assumes "list_all2 (describes r) configs actors" "\<forall>x \<in> set configs. cfg_context (snd x) = k"
  shows "map entry_summary (actor_entries k actors) = map (config_summary r) configs"
  using assms
proof (induction configs actors rule: list_all2_induct)
  case (Cons x xs y ys)
  then show ?case by (auto simp: actor_entries_def describes_def)
qed (simp add: actor_entries_def)

lemma lives_in_context:
  "k < 2 ^ 32 - 1 \<Longrightarrow> x \<in> set (lives_in k xs) \<Longrightarrow> cfg_context (snd x) = cid k"
  by (auto simp: lives_in_def ctx.index_eq [symmetric])

lemma startedD:
  assumes "started r alloc config su"
  defines "n \<equiv> length (config_contexts config)"
  defines "actors \<equiv> numbered 0 (scope_actors (config_root config))"
  shows "length (su_args su) = n" "n < 2 ^ 32" "map cc_id (config_contexts config) = map cid [0..<n]"
    "\<forall>(_, c) \<in> set actors. context_as_index (cfg_context c) < n"
    "\<And>k. k < n \<Longrightarrow> args_for r alloc n k (lives_in k actors) (Some \<lparr>tree_actors = su_tree su\<rparr>) (su_args su ! k)"
    "su_tree su = entries_of (su_args su)"
    "su_channels su = replicate n (remote_channel\<lparr>senders := n\<rparr>)"
    "n + 1 < 2 ^ 32 \<Longrightarrow> su_control su = (if n = 0 then Freed ref_layout else Block (of_nat n))"
  using assms(1) unfolding started_def Let_def n_def actors_def by blast+

lemma startup_tree_summary:
  assumes "started r alloc config su"
  shows "mset (map entry_summary (su_tree su)) =
    mset (map (config_summary r) (numbered 0 (scope_actors (config_root config))))"
proof -
  note s = startedD [OF assms]
  let ?n = "length (config_contexts config)" and ?xs = "numbered 0 (scope_actors (config_root config))"
  have one: "map entry_summary (actor_entries (ca_id (su_args su ! k)) (ca_actors (su_args su ! k))) =
      map (config_summary r) (lives_in k ?xs)" if k: "k < ?n" for k
  proof -
    have a: "ca_id (su_args su ! k) = cid k"
      "list_all2 (describes r) (lives_in k ?xs) (ca_actors (su_args su ! k))"
      using s(5) [OF k] allocate_actors_Ok(1) by (auto simp: args_for_def)
    have "\<forall>x \<in> set (lives_in k ?xs). cfg_context (snd x) = cid k"
      by (intro ballI lives_in_context) (use s(2) k in simp_all)
    then show ?thesis using actor_entries_summary [OF a(2)] a(1) by simp
  qed
  have "su_args su = map (\<lambda>k. su_args su ! k) [0..<?n]" using s(1) by (metis map_nth)
  then have "su_tree su = concat (map (\<lambda>k. actor_entries (ca_id (su_args su ! k)) (ca_actors (su_args su ! k))) [0..<?n])"
    using s(6) by (metis (no_types, lifting) entries_of_def map_map comp_def map_eq_conv)
  then have "map entry_summary (su_tree su) =
      concat (map (\<lambda>k. map (config_summary r) (lives_in k ?xs)) [0..<?n])"
    by (simp only: map_concat map_map) (intro arg_cong [of _ _ concat] map_cong, use one in simp_all)
  also have "\<dots> = map (config_summary r) (concat (map (\<lambda>k. lives_in k ?xs) [0..<?n]))"
    by (simp add: map_concat comp_def)
  finally show ?thesis using mset_lives_in [of ?xs ?n] s(4) by (simp only: mset_map)
qed

text \<open>The links of a context: the one to another context is at its index, or one before.\<close>

lemma links_for_nth:
  "i < n \<Longrightarrow> links_for n i = [0..<i] @ [Suc i..<n]"
proof -
  assume i: "i < n"
  have "[0..<n] = [0..<i] @ i # [Suc i..<n]"
    using i upt_add_eq_append [of 0 i "n - i"] by (simp add: upt_conv_Cons)
  then show ?thesis by (simp add: links_for_def)
qed

lemma links_for_index:
  assumes "i < n" "j < n" "i \<noteq> j"
  shows "links_for n i ! (if j < i then j else j - 1) = j"
  using assms by (auto simp: links_for_nth nth_append)

text \<open>What \<open>run_thread\<close>'s expression finds instead, for a message from context \<open>i\<close> to context \<open>j\<close>.\<close>

lemma route_outcome:
  assumes "i < n" "j < n" "i \<noteq> j" "n < 2 ^ 32"
  shows "route (links_for n i) (cid i) (cid j) =
    (if j < i then if j = 0 then Fault ArithOverflow else Ok (j - 1)
     else if j = n - 1 then Fault IndexOutOfBounds else Ok (j + 1))"
proof -
  have ij: "i < 2 ^ 32 - 1" "j < 2 ^ 32 - 1" using assms by simp_all
  have "cid i > cid j \<longleftrightarrow> j < i" using ctx.index_mono ij by simp
  then have idx: "link_index (cid i) (cid j) =
      (if j < i then if j = 0 then Fault ArithOverflow else Ok (j - 1) else Ok j)"
    using ij by (auto simp: link_index_def Let_def)
  show ?thesis
  proof (cases "j < i")
    case True
    then show ?thesis using idx assms by (auto simp: route_def vec_get_def links_for_nth nth_append)
  next
    case False
    then have "length (links_for n i) = n - 1" "i < j" using assms by (auto simp: links_for_nth)
    then show ?thesis using idx assms False
      by (auto simp: route_def vec_get_def links_for_nth nth_append)
  qed
qed

text \<open>The places of the actors of a context whose arena was allocated.\<close>

lemma allocate_actors_placed:
  assumes "allocate_actors r alloc configs = Ok (arena, actors)"
    and alloc: "alloc_ok alloc (arena_layout (arena_capacity arena))"
  shows "(\<forall>i<length actors.
      unat (vt_align (aci_vtable (actors ! i))) dvd unat (arena_offset arena (aci_offset (actors ! i))) \<and>
      unat (offset_val (aci_offset (actors ! i))) + unat (vt_size (aci_vtable (actors ! i)))
        \<le> unat (arena_capacity arena)) \<and>
    (\<forall>i j. i < j \<and> j < length actors \<longrightarrow>
      unat (offset_val (aci_offset (actors ! i))) + unat (vt_size (aci_vtable (actors ! i)))
        \<le> unat (offset_val (aci_offset (actors ! j)))) \<and>
    (\<forall>i<length actors. is_pow2 (vt_align (aci_vtable (actors ! i))))"
proof -
  obtain ls where ls: "rmap (\<lambda>info. vtable_layout (aci_vtable info)) actors = Ok ls"
    "from_layouts alloc ls = Ok (arena, map aci_offset actors)"
    using allocate_actors_Ok(2) [OF assms(1)] by blast
  have len: "length ls = length actors" by (rule rmap_length [OF ls(1)])
  have nth: "vtable_layout (aci_vtable (actors ! i)) = Ok (ls ! i)" if "i < length actors" for i
    by (rule rmap_nth [OF ls(1) that])
  then have lay: "lay_size (ls ! i) = vt_size (aci_vtable (actors ! i))"
    "lay_align (ls ! i) = vt_align (aci_vtable (actors ! i))" "wf_layout (ls ! i)"
    if "i < length actors" for i
    using that vtable_layout_fields vtable_layout_wf by blast+
  then have wf: "\<forall>l \<in> set ls. wf_layout l" using len by (auto simp: in_set_conv_nth)
  obtain c where c0: "compute_space_required ls = Ok c" "(ucast c :: usize) \<noteq> 0" "arena_capacity arena = c"
    using ls(2) by (auto simp: from_layouts_def alloc_call_def from_size_align_def Let_def split: if_splits)
  have c: "compute_space_required ls = Ok c" "c \<noteq> 0" "arena_capacity arena = c"
    using c0 by (auto simp del: of_nat_eq_0_iff)
  obtain a offs where a: "from_layouts alloc ls = Ok (a, offs)"
    "\<forall>i<length ls. unat (lay_align (ls ! i)) dvd unat (arena_offset a (offs ! i)) \<and>
       unat (offset_val (offs ! i)) + unat (lay_size (ls ! i)) \<le> unat c"
    "\<forall>i j. i < j \<and> j < length ls \<longrightarrow>
       unat (offset_val (offs ! i)) + unat (lay_size (ls ! i)) \<le> unat (offset_val (offs ! j))"
    using from_layouts_facts [OF wf c(1,2)] alloc c(3) by blast
  then have same: "a = arena" "offs = map aci_offset actors" using ls(2) by simp_all
  show ?thesis
    using a(2,3) same len lay c(3) by (simp add: wf_layout_def)
qed

lemma drop_actors_ok:
  "\<forall>(off, dropf) \<in> set fs. dropf (arena_offset a off) = Ok () \<Longrightarrow> drop_actors a fs = Ok ()"
  by (induction fs) auto

lemma create_context_fields:
  "create_context r iter info mem = Ok (mem', c, as) \<Longrightarrow>
    ctx_drop_fns c = map (\<lambda>a. (aci_offset a, vt_drop (aci_vtable a))) (ca_actors info) \<and>
    ctx_arena c = ca_arena info \<and> ctx_rx c = ca_rx info \<and> ctx_links c = ca_links info"
  by (auto simp: create_context_def Let_def)

text \<open>A registry in which every vtable was made by \<open>create_vtable\<close>, as \<open>Registry::get\<close> makes it.\<close>

definition vtables_created :: "('v, 'c, 'a, 'r, 's) registry \<Rightarrow> bool" where
  "vtables_created r \<longleftrightarrow> (\<forall>ty v. actor_types r ty = Some v \<longrightarrow> (\<exists>t. v = create_vtable t))"

lemma run_nodes_vtables:
  assumes "run_nodes ns builder_default = Ok r"
  shows "vtables_created r"
proof -
  have "actor_types r = map_of (map (\<lambda>t. (at_type_id t, create_vtable t)) (actors_of ns))"
    using run_nodes_result(1) [OF assms] by (simp add: builder_default_def)
  then show ?thesis by (auto simp: vtables_created_def dest!: map_of_SomeD)
qed

lemma by_name_created:
  "vtables_created r \<Longrightarrow> by_name r name = Some (ty, v) \<Longrightarrow> \<exists>t. v = create_vtable t"
  by (auto simp: vtables_created_def by_name_def split: option.splits)

text \<open>
  A small program for the witnesses: two registered actor types with a word of data each, and a
  configuration of three contexts with an actor each. The program \<open>p\<close> says which calls the
  actor of each context makes when it is initialised.
\<close>

type_synonym demo_program = "nat \<Rightarrow> nat init_call list"

definition demo_type :: "demo_program \<Rightarrow> nat \<Rightarrow> string \<Rightarrow> (unit, unit, unit init_view, (nat, nat) init_outcome) actor_type" where
  "demo_type p i name = \<lparr>at_type_id = TypeId i, at_ident = name, at_size = 8, at_align = 8,
     at_config_type = TypeId 0, at_deserialize = Some,
     at_init = (\<lambda>v _. Some (p (context_as_index (iv_context v)), \<lambda>_ m. m))\<rparr>"

definition demo_nodes :: "demo_program \<Rightarrow> (unit, unit, unit init_view, (nat, nat) init_outcome, unit) registration list" where
  "demo_nodes p = [RegisterActor (demo_type p 1 ''Producer'') [], RegisterActor (demo_type p 2 ''Consumer'') []]"

definition demo_registry :: "demo_program \<Rightarrow> (unit, unit, unit, nat, nat) object_registry" where
  "demo_registry p = (case run_nodes (demo_nodes p) builder_default of Ok r \<Rightarrow> r | Fault _ \<Rightarrow> builder_default)"

definition demo_actor :: "string \<Rightarrow> nat \<Rightarrow> unit actor_config" where
  "demo_actor name k = \<lparr>cfg_typename = name, cfg_config = (), cfg_context = cid k\<rparr>"

definition demo_config :: "unit config" where
  "demo_config = \<lparr>config_root = Scope None [] [demo_actor ''Producer'' 0, demo_actor ''Consumer'' (Suc 0),
      demo_actor ''Consumer'' (Suc (Suc 0))] [],
     config_contexts = [\<lparr>cc_id = cid 0, cc_thread_affinity = None\<rparr>, \<lparr>cc_id = cid 1, cc_thread_affinity = None\<rparr>,
       \<lparr>cc_id = cid 2, cc_thread_affinity = None\<rparr>]\<rparr>"

definition demo_alloc :: "nat \<Rightarrow> layout \<Rightarrow> usize" where
  "demo_alloc k l = 4100 + 64 * of_nat k"

lemma demo_nodes_run: "run_nodes (demo_nodes p) builder_default = Ok (demo_registry p)"
proof -
  have "\<exists>r. run_nodes (demo_nodes p) builder_default = Ok r"
    by (simp add: demo_nodes_def demo_type_def init_actor_def builder_default_def uniquely_named_def Let_def)
  then show ?thesis by (auto simp: demo_registry_def)
qed

lemma demo_by_name:
  "by_name (demo_registry p) ''Producer'' = Some (TypeId 1, create_vtable (demo_type p 1 ''Producer''))"
  "by_name (demo_registry p) ''Consumer'' = Some (TypeId 2, create_vtable (demo_type p 2 ''Consumer''))"
  by (simp_all add: demo_registry_def demo_nodes_def demo_type_def init_actor_def builder_default_def
      uniquely_named_def Let_def by_name_def)

lemma demo_layout: "vtable_layout (create_vtable (demo_type p i name)) = Ok \<lparr>lay_size = 8, lay_align = 8\<rparr>"
  by (rule trans [OF create_vtable_layout]) (simp_all add: wf_actor_type_def demo_type_def wf_layout_def)

lemma demo_space: "compute_space_required [\<lparr>lay_size = 8, lay_align = 8\<rparr>] = Ok 15"
  by (simp add: space_eval)

lemma demo_arena:
  "k < 3 \<Longrightarrow> from_layouts (demo_alloc k) [\<lparr>lay_size = 8, lay_align = 8\<rparr>] =
    Ok (\<lparr>arena_data = 4100 + 64 * of_nat k, arena_capacity = 15\<rparr>, [Offset 4])"
proof -
  have "k < 3 \<Longrightarrow> k = 0 \<or> k = 1 \<or> k = 2" by auto
  then show "k < 3 \<Longrightarrow> from_layouts (demo_alloc k) [\<lparr>lay_size = 8, lay_align = 8\<rparr>] =
      Ok (\<lparr>arena_data = 4100 + 64 * of_nat k, arena_capacity = 15\<rparr>, [Offset 4])"
    by (auto simp: from_layouts_def demo_space alloc_call_def from_size_align_def wf_layout_def
        nonnull_new_def get_offsets_def align_offset_def offset_from_u32_def demo_alloc_def)
qed

definition demo_info :: "demo_program \<Rightarrow> nat \<Rightarrow> (unit, unit, unit, nat, nat) actor_constructor_info" where
  "demo_info p k = \<lparr>aci_id = aid k, aci_offset = Offset 4,
     aci_vtable = create_vtable (if k = 0 then demo_type p 1 ''Producer'' else demo_type p 2 ''Consumer''),
     aci_cfg = demo_actor (if k = 0 then ''Producer'' else ''Consumer'') k\<rparr>"

lemma demo_allocate:
  "k < 3 \<Longrightarrow> allocate_actors (demo_registry p) (demo_alloc k) [(aid k, aci_cfg (demo_info p k))] =
    Ok (\<lparr>arena_data = 4100 + 64 * of_nat k, arena_capacity = 15\<rparr>, [demo_info p k])"
  by (simp add: allocate_actors_def constructor_info_def demo_info_def demo_actor_def demo_by_name
      demo_layout demo_arena)

lemma demo_ids:
  "id_for_index actor_new 0 = Ok (aid 0)" "id_for_index actor_new (Suc 0) = Ok (aid (Suc 0))"
  "id_for_index actor_new (Suc (Suc 0)) = Ok (aid (Suc (Suc 0)))" "id_for_index context_new 0 = Ok (cid 0)"
  "id_for_index context_new (Suc 0) = Ok (cid (Suc 0))" "id_for_index context_new (Suc (Suc 0)) = Ok (cid (Suc (Suc 0)))"
  by (simp_all add: id_for_index_def uadd_def actor_new_def context_new_def nz_new_def aid_def cid_def)

lemma demo_assign:
  "assign_actors 0 (scope_actors (config_root demo_config)) (map (\<lambda>_. []) (config_contexts demo_config)) =
    Ok [[(aid 0, demo_actor ''Producer'' 0)], [(aid (Suc 0), demo_actor ''Consumer'' (Suc 0))], [(aid (Suc (Suc 0)), demo_actor ''Consumer'' (Suc (Suc 0)))]]"
  by (simp add: demo_config_def demo_actor_def demo_ids)

definition demo_args :: "demo_program \<Rightarrow> nat \<Rightarrow> (unit, unit, unit, nat, nat) object_tree \<Rightarrow>
    (unit, unit, unit, nat, nat) context_constructor_args" where
  "demo_args p k tree = \<lparr>ca_id = cid k, ca_actors = [demo_info p k], ca_rx = k,
     ca_arena = \<lparr>arena_data = 4100 + 64 * of_nat k, arena_capacity = 15\<rparr>, ca_links = links_for 3 k,
     ca_tree = Some tree, ca_make_tx = [0..<3], ca_resource_map = Map.empty\<rparr>"

definition demo_tree :: "demo_program \<Rightarrow> (unit, unit, unit, nat, nat) object_tree" where
  "demo_tree p = \<lparr>tree_actors = map (\<lambda>k. \<lparr>ad_id = aid k, ad_vtable = aci_vtable (demo_info p k),
     ad_loc = \<lparr>loc_context = cid k, loc_offset = Offset 4\<rparr>\<rparr>) [0, Suc 0, Suc (Suc 0)]\<rparr>"

lemma demo_startup:
  "\<exists>su. create_context_args (demo_registry p) demo_alloc (\<lambda>_. 64) demo_config = Ok su \<and>
    su_args su = map (\<lambda>k. demo_args p k (demo_tree p)) [0, Suc 0, Suc (Suc 0)] \<and> su_tree su = tree_actors (demo_tree p)"
proof -
  have alloc: "allocate_actors (demo_registry p) (demo_alloc 0) [(aid 0, demo_actor ''Producer'' 0)] =
      Ok (\<lparr>arena_data = 4100, arena_capacity = 15\<rparr>, [demo_info p 0])"
    "allocate_actors (demo_registry p) (demo_alloc (Suc 0)) [(aid (Suc 0), demo_actor ''Consumer'' (Suc 0))] =
      Ok (\<lparr>arena_data = 4164, arena_capacity = 15\<rparr>, [demo_info p (Suc 0)])"
    "allocate_actors (demo_registry p) (demo_alloc (Suc (Suc 0))) [(aid (Suc (Suc 0)), demo_actor ''Consumer'' (Suc (Suc 0)))] =
      Ok (\<lparr>arena_data = 4228, arena_capacity = 15\<rparr>, [demo_info p (Suc (Suc 0))])"
    using demo_allocate [of 0] demo_allocate [of "Suc 0"] demo_allocate [of "Suc (Suc 0)"]
    by (simp_all add: demo_info_def)
  have "scope_children (config_root demo_config) = []" "imported_scopes (config_root demo_config) = []"
    "length (config_contexts demo_config) = 3"
    "list_all (\<lambda>(i, b). i = context_as_index (cc_id b)) (enumerate 0 (config_contexts demo_config))"
    by (simp_all add: demo_config_def)
  moreover have "resource_constructors (demo_registry p) = Map.empty"
    using run_nodes_result(2,3) [OF demo_nodes_run] by (simp add: demo_nodes_def builder_default_def)
  ultimately show ?thesis
    by (simp add: create_context_args_def demo_assign alloc demo_ids cb_new_def alloc_call_def
        cb_layout_def nonnull_new_def cb_clone_def fetch_add_def fetch_sub_def release_def actor_entries_def
        demo_info_def demo_args_def demo_tree_def)
qed

definition demo_init_args :: "demo_program \<Rightarrow> nat \<Rightarrow> unit init_args" where
  "demo_init_args p k = \<lparr>ia_actor = aid k, ia_offset = Offset 4,
     ia_lookup = tree_query (demo_registry p) (demo_tree p) (aid k), ia_resources = Map.empty\<rparr>"

lemma demo_context:
  "k < 3 \<Longrightarrow> exec_init_calls (demo_init_args p k) (p k)
      \<lparr>id_data = context_data_new (cid k), id_relations = [], id_make_tx = [0..<3]\<rparr> = Ok (d, as) \<Longrightarrow>
    construct_actors (demo_registry p) (demo_tree p) (ca_resource_map (demo_args p k (demo_tree p)))
      (ca_arena (demo_args p k (demo_tree p))) (ca_actors (demo_args p k (demo_tree p))) mem
      \<lparr>id_data = context_data_new (ca_id (demo_args p k (demo_tree p))), id_relations = [],
        id_make_tx = ca_make_tx (demo_args p k (demo_tree p))\<rparr> = Ok (mem, d, as)"
proof -
  assume k: "k < 3" and calls: "exec_init_calls (demo_init_args p k) (p k)
      \<lparr>id_data = context_data_new (cid k), id_relations = [], id_make_tx = [0..<3]\<rparr> = Ok (d, as)"
  have "k = 0 \<or> k = 1 \<or> k = 2" using k by auto
  then show ?thesis
    using calls
    by (auto simp: demo_args_def demo_info_def create_vtable_def vtable_deserialize_def demo_type_def
        demo_layout [unfolded create_vtable_def demo_type_def, simplified] at_offset_def align_offset_def
        actor_constructor_def context_data_new_def demo_init_args_def init_view_def)
qed

definition demo_actor_context :: "demo_program \<Rightarrow> nat \<Rightarrow> nat context_data \<Rightarrow> nat actor_context" where
  "demo_actor_context p k d = \<lparr>ctx_data = d, ctx_arena = ca_arena (demo_args p k (demo_tree p)),
     ctx_drop_fns = [(Offset 4, vt_drop (aci_vtable (demo_info p k)))], ctx_rx = k, ctx_links = links_for 3 k\<rparr>"

lemma demo_create:
  assumes "k < 3" "exec_init_calls (demo_init_args p k) (p k)
      \<lparr>id_data = context_data_new (cid k), id_relations = [], id_make_tx = [0..<3]\<rparr> = Ok (d, as)"
    and "id_relations d = []"
  shows "create_context (demo_registry p) id (demo_args p k (demo_tree p)) mem =
    Ok (mem, demo_actor_context p k (id_data d), as @ [DropMakeTx])"
proof -
  have "ca_tree (demo_args p k (demo_tree p)) = Some (demo_tree p)" by (simp add: demo_args_def)
  then show ?thesis
    using demo_context [OF assms(1,2), of mem] assms(3)
    by (simp add: create_context_def has_cycles_def demo_actor_context_def)
      (simp add: demo_args_def demo_info_def)
qed

text \<open>The program of most witnesses: every actor makes an accessor to itself, and keeps it.\<close>

definition keep_accessor :: demo_program where
  "keep_accessor k = [InitAccessor]"

lemma keep_accessor_calls:
  "k < 3 \<Longrightarrow> exec_init_calls (demo_init_args keep_accessor k) (keep_accessor k)
      \<lparr>id_data = context_data_new (cid k), id_relations = [], id_make_tx = [0..<3]\<rparr> =
    Ok (\<lparr>id_data = context_data_new (cid k), id_relations = [], id_make_tx = [0..<3]\<rparr>,
      [AccClone \<lparr>acc_offset = Offset 4, acc_meta = MetaUnit, acc_queue = k\<rparr>])"
  by (simp add: keep_accessor_def init_accessor_def demo_init_args_def context_data_new_def)

text \<open>The actors of a context that was created can be dropped.\<close>

lemma created_context_drops:
  assumes "run_nodes ns builder_default = Ok registry"
    and "create_context_args registry alloc cb_alloc config = Ok su" "k < length (su_args su)"
    and "alloc_ok (alloc k) (arena_layout (arena_capacity (ca_arena (su_args su ! k))))"
    and "create_context registry iter (su_args su ! k) mem = Ok (mem', c, as)"
  shows "context_drop c = Ok ()"
proof -
  let ?a = "su_args su ! k"
  have st: "started registry alloc config su" by (rule create_context_args_started [OF assms(2)])
  then obtain configs where ac: "allocate_actors registry (alloc k) configs = Ok (ca_arena ?a, ca_actors ?a)"
    using startedD(1,5) [OF st] assms(3) by (auto simp: args_for_def)
  have "vt_drop (aci_vtable a) (arena_offset (ca_arena ?a) (aci_offset a)) = Ok ()"
    if a: "a \<in> set (ca_actors ?a)" for a
  proof -
    obtain i where i: "i < length (ca_actors ?a)" "a = ca_actors ?a ! i"
      using a by (auto simp: in_set_conv_nth)
    then have "describes registry (configs ! i) a"
      using allocate_actors_Ok(1) [OF ac] by (simp add: list_all2_conv_all_nth)
    then obtain ty where "by_name registry (cfg_typename (snd (configs ! i))) = Some (ty, aci_vtable a)"
      by (auto simp: describes_def)
    from by_name_created [OF run_nodes_vtables [OF assms(1)] this]
    obtain t where t: "aci_vtable a = create_vtable t" by blast
    have "is_pow2 (vt_align (aci_vtable a))"
      "unat (vt_align (aci_vtable a)) dvd unat (arena_offset (ca_arena ?a) (aci_offset a))"
      using allocate_actors_placed [OF ac assms(4)] i by blast+
    then show ?thesis by (simp add: t create_vtable_def vtable_drop_def align_offset_0_iff)
  qed
  then show ?thesis
    using create_context_fields [OF assms(5)] by (auto simp: context_drop_def intro!: drop_actors_ok)
qed

subsection \<open>Properties\<close>

text \<open>
  C17. If \<open>create_context_args\<close> returns, the tree has every configured actor exactly once: under
  an identifier of its own, located in the context its configuration names, with the vtable
  registered under its type name. Every context is one of \<open>1 ..= n\<close>, shares that tree, and has
  a sender to each of the other contexts; the control block counts one event for each context.
\<close>

theorem startup_complete:
  assumes "create_context_args registry alloc cb_alloc config = Ok su"
    and "length (config_contexts config) = n"
  shows "mset (map entry_summary (su_tree su)) =
      mset (map (config_summary registry) (numbered 0 (scope_actors (config_root config)))) \<and>
    distinct (map ad_id (su_tree su)) \<and>
    length (su_args su) = n \<and>
    (\<forall>k<n. ca_id (su_args su ! k) = cid k \<and> ca_rx (su_args su ! k) = k \<and>
      ca_tree (su_args su ! k) = Some \<lparr>tree_actors = su_tree su\<rparr> \<and>
      set (ca_links (su_args su ! k)) = {0..<n} - {k}) \<and>
    su_channels su = replicate n (remote_channel\<lparr>senders := n\<rparr>) \<and>
    (0 < n \<and> n + 1 < 2 ^ 32 \<longrightarrow> su_control su = Block (of_nat n))"
proof -
  have st: "started registry alloc config su" by (rule create_context_args_started [OF assms(1)])
  note s = startedD [OF st, unfolded assms(2)]
  have "mset (map fst (map entry_summary (su_tree su))) =
      mset (map fst (map (config_summary registry) (numbered 0 (scope_actors (config_root config)))))"
    using startup_tree_summary [OF st] by (simp only: mset_map)
  then have "mset (map ad_id (su_tree su)) = mset (map fst (numbered 0 (scope_actors (config_root config))))"
    by (simp add: comp_def)
  then have "distinct (map ad_id (su_tree su))"
    using distinct_numbered [OF startup_few_actors [OF assms(1)]] mset_eq_imp_distinct_iff by blast
  moreover have "\<forall>k<n. ca_id (su_args su ! k) = cid k \<and> ca_rx (su_args su ! k) = k \<and>
      ca_tree (su_args su ! k) = Some \<lparr>tree_actors = su_tree su\<rparr> \<and>
      set (ca_links (su_args su ! k)) = {0..<n} - {k}"
    using s(5) by (simp add: args_for_def)
  ultimately show ?thesis
    using startup_tree_summary [OF st] s(1,7,8) by simp
qed

theorem startup_complete_witness:
  "\<exists>su. create_context_args (demo_registry keep_accessor) demo_alloc (\<lambda>_. 64) demo_config = Ok su \<and>
    distinct (map ad_id (su_tree su)) \<and> su_control su = Block 3 \<and> set (ca_links (su_args su ! 1)) = {0, 2}"
proof -
  obtain su where su: "create_context_args (demo_registry keep_accessor) demo_alloc (\<lambda>_. 64) demo_config = Ok su"
    using demo_startup by blast
  have "length (config_contexts demo_config) = 3" by (simp add: demo_config_def)
  note facts = startup_complete [OF su this]
  have "set (ca_links (su_args su ! 1)) = {0, 2}" using facts by auto
  then show ?thesis using su facts by auto
qed

text \<open>
  C18. For the arguments of every context, if the allocator kept its contract for its arena: each
  actor's address has the alignment of its type, each lies inside the arena, and the actors of
  the context are disjoint and in the order in which they were configured.
\<close>

theorem startup_memory:
  assumes "create_context_args registry alloc cb_alloc config = Ok su" "k < length (su_args su)"
    and "alloc_ok (alloc k) (arena_layout (arena_capacity (ca_arena (su_args su ! k))))"
    and "ca_actors (su_args su ! k) = actors" "ca_arena (su_args su ! k) = arena"
  shows "(\<forall>i<length actors.
      unat (vt_align (aci_vtable (actors ! i))) dvd unat (arena_offset arena (aci_offset (actors ! i))) \<and>
      unat (offset_val (aci_offset (actors ! i))) + unat (vt_size (aci_vtable (actors ! i)))
        \<le> unat (arena_capacity arena)) \<and>
    (\<forall>i j. i < j \<and> j < length actors \<longrightarrow>
      unat (offset_val (aci_offset (actors ! i))) + unat (vt_size (aci_vtable (actors ! i)))
        \<le> unat (offset_val (aci_offset (actors ! j))))"
proof -
  have st: "started registry alloc config su" by (rule create_context_args_started [OF assms(1)])
  then obtain configs where "allocate_actors registry (alloc k) configs = Ok (arena, actors)"
    using startedD(1,5) [OF st] assms(2,4,5) by (auto simp: args_for_def)
  from allocate_actors_placed [OF this] show ?thesis using assms(3,5) by blast
qed

theorem startup_memory_witness:
  "\<exists>su. create_context_args (demo_registry keep_accessor) demo_alloc (\<lambda>_. 64) demo_config = Ok su \<and>
    8 dvd unat (arena_offset (ca_arena (su_args su ! 1)) (aci_offset (ca_actors (su_args su ! 1) ! 0)))"
proof -
  obtain su where su: "create_context_args (demo_registry keep_accessor) demo_alloc (\<lambda>_. 64) demo_config = Ok su"
    "su_args su = map (\<lambda>k. demo_args keep_accessor k (demo_tree keep_accessor)) [0, Suc 0, Suc (Suc 0)]"
    using demo_startup by blast
  have "alloc_ok (demo_alloc 1) (arena_layout (arena_capacity (ca_arena (su_args su ! 1))))"
    by (simp add: su demo_args_def alloc_ok_def demo_alloc_def)
  from startup_memory [OF su(1) _ this refl refl] show ?thesis
    using su by (auto simp: demo_args_def demo_info_def create_vtable_def demo_type_def)
qed

text \<open>
  C16. No message to another context is routed to it. Among the \<open>n\<close> contexts that
  \<open>create_context_args\<close> sets up, the link to context \<open>j\<close> exists among those of context \<open>i\<close>,
  but the index that \<open>run_thread\<close> computes is the one before it or the one after it: for the
  first context the subtraction overflows, for the last one the index is out of bounds, and
  every other message goes to a neighbour of its destination.
\<close>

theorem messages_are_misrouted:
  assumes "create_context_args registry alloc cb_alloc config = Ok su"
    and "length (su_args su) = n" "i < n" "j < n" "i \<noteq> j"
  shows "j \<in> set (ca_links (su_args su ! i)) \<and>
    route (ca_links (su_args su ! i)) (ca_id (su_args su ! i)) (ca_id (su_args su ! j)) =
      (if j < i then if j = 0 then Fault ArithOverflow else Ok (j - 1)
       else if j = n - 1 then Fault IndexOutOfBounds else Ok (j + 1))"
proof -
  have st: "started registry alloc config su" by (rule create_context_args_started [OF assms(1)])
  have n: "length (config_contexts config) = n" using startedD(1) [OF st] assms(2) by simp
  note s = startedD [OF st, unfolded n]
  have "ca_links (su_args su ! i) = links_for n i" "ca_id (su_args su ! i) = cid i" "ca_id (su_args su ! j) = cid j"
    using s(5) [of i] s(5) [of j] assms(3,4) by (simp_all add: args_for_def)
  then show ?thesis using route_outcome [OF assms(3,4,5) s(2)] assms(4,5) by simp
qed

theorem messages_are_misrouted_witness:
  "\<exists>su. create_context_args (demo_registry keep_accessor) demo_alloc (\<lambda>_. 64) demo_config = Ok su \<and>
    route (ca_links (su_args su ! 0)) (ca_id (su_args su ! 0)) (ca_id (su_args su ! 1)) = Ok 2 \<and>
    route (ca_links (su_args su ! 1)) (ca_id (su_args su ! 1)) (ca_id (su_args su ! 0)) = Fault ArithOverflow"
proof -
  obtain su where su: "create_context_args (demo_registry keep_accessor) demo_alloc (\<lambda>_. 64) demo_config = Ok su"
    "length (su_args su) = 3"
    using demo_startup [of keep_accessor] by auto
  show ?thesis
    using messages_are_misrouted [OF su, of 0 1] messages_are_misrouted [OF su, of 1 0] su(1) by auto
qed



end
