(* ===== verification/System.thy ===== *)
theory System
  imports Runtime
begin

text \<open>
  \<open>run_thread\<close> on all threads at once: a state of the whole process and a step function for the
  thread of each context, at the granularity of the accesses to what the threads share: the
  control block, the channels, and the memory of the process (a handler runs in one step).
  Interleavings are sequentially consistent; a panic ends the modelled run.

  Which accessors exist is tracked in \<open>sys_live\<close>. Rust's ownership ensures that an accessor is
  used or dropped only while it exists: a thread about to do so otherwise has no step. An accessor
  may be sent to a thread outside the runtime: \<open>outside_step\<close> are the steps of all such threads.
\<close>

subsection \<open>States\<close>

text \<open>Where a thread is in \<open>run_thread\<close>.\<close>

datatype 'f point =
    PDrain                              \<comment> \<open>first draining of the local queue\<close>
  | PRelease                            \<comment> \<open>\<open>into_unowned\<close>\<close>
  | PRecv                               \<comment> \<open>\<open>ctx.rx.recv()\<close>\<close>
  | PHandled                            \<comment> \<open>draining of the local queue after a message\<close>
  | PCount                              \<comment> \<open>\<open>match ctx.data.unsent_messages.len()\<close>\<close>
  | PFlush "(context_id \<times> 'f msg) list"  \<comment> \<open>the messages still to be sent\<close>
  | PDropped                            \<comment> \<open>an accessor was dropped\<close>
  | PStop "nat list" bool               \<comment> \<open>links still to be stopped; whether to free the block\<close>
  | PExit                               \<comment> \<open>after the loop\<close>

datatype ('i, 'f) thread =
    Waiting 'i
  | Running "'f point" "'f action list" "'f actor_context"  \<comment> \<open>with the pending shared accesses\<close>
  | Finished

record ('i, 'f, 'm) sys =
  sys_threads :: "('i, 'f) thread list"
  sys_channels :: "'f queue_item channel list"
  sys_control :: control_block
  sys_live :: "accessor list"
  sys_outside :: "'f action list"  \<comment> \<open>the pending shared accesses of threads outside the runtime\<close>
  sys_make_tx :: nat  \<comment> \<open>references to the shared \<open>make_tx\<close>\<close>
  sys_mem :: 'm

definition set_thread :: "nat \<Rightarrow> ('i, 'f) thread \<Rightarrow> ('i, 'f, 'm) sys \<Rightarrow> ('i, 'f, 'm) sys" where
  "set_thread k t s = s\<lparr>sys_threads := (sys_threads s)[k := t]\<rparr>"

definition set_channel :: "nat \<Rightarrow> 'f queue_item channel \<Rightarrow> ('i, 'f, 'm) sys \<Rightarrow> ('i, 'f, 'm) sys" where
  "set_channel j ch s = s\<lparr>sys_channels := (sys_channels s)[j := ch]\<rparr>"

text \<open>\<open>queue.send(item).unwrap()\<close>.\<close>

definition send_unwrap :: "nat \<Rightarrow> 'f queue_item \<Rightarrow> ('i, 'f, 'm) sys \<Rightarrow> ('i, 'f, 'm) sys res" where
  "send_unwrap j item s =
     (case tx_send (sys_channels s ! j) item of
        (Inl e, ch) \<Rightarrow> Fault UnwrapFailed
      | (Inr u, ch) \<Rightarrow> Ok (set_channel j ch s))"

definition drop_txs :: "nat list \<Rightarrow> 'q channel list \<Rightarrow> 'q channel list" where
  "drop_txs js chans = fold (\<lambda>j cs. cs[j := tx_drop (cs ! j)]) js chans"

subsection \<open>Steps\<close>

text \<open>
  An accessor is not shared: while a thread outside the runtime is in the middle of a \<open>send\<close>, the
  accessor it uses is not available to any other call.
\<close>

definition push_of :: "accessor \<Rightarrow> 'f action \<Rightarrow> bool" where
  "push_of a x \<longleftrightarrow> (case x of AccPush b m \<Rightarrow> b = a | _ \<Rightarrow> False)"

definition borrowed :: "accessor \<Rightarrow> ('i, 'f, 'm) sys \<Rightarrow> nat" where
  "borrowed a s = length (filter (push_of a) (sys_outside s))"

definition available :: "accessor \<Rightarrow> ('i, 'f, 'm) sys \<Rightarrow> bool" where
  "available a s \<longleftrightarrow> borrowed a s < count_list (sys_live s) a"

text \<open>
  One shared access: the accesses that remain of it, and the state after it; \<open>None\<close> if the
  accessor is not available.
\<close>

fun action_step :: "'f action \<Rightarrow> ('i, 'f, 'm) sys \<Rightarrow> ('f action list \<times> ('i, 'f, 'm) sys) res option" where
  "action_step (AccClone a) s = Some (
     rbind (cb_clone (sys_control s)) (\<lambda>control.
     Ok ([], set_channel (acc_queue a) (tx_clone (sys_channels s ! acc_queue a))
       (s\<lparr>sys_control := control, sys_live := a # sys_live s\<rparr>))))"
| "action_step (AccIncrement a m) s =
     (if available a s then Some (
        rbind (fetch_add 1 (sys_control s)) (\<lambda>(_, control). Ok ([AccPush a m], s\<lparr>sys_control := control\<rparr>)))
      else None)"
| "action_step (AccPush a m) s = Some (
     rbind (send_unwrap (acc_queue a) (Msg m) s) (\<lambda>s'. Ok ([], s')))"
| "action_step (AccDrop a) s =
     (if available a s then Some (
        rbind (send_unwrap (acc_queue a) AccessorDropped s) (\<lambda>s'.
        Ok ([], set_channel (acc_queue a) (tx_drop (sys_channels s' ! acc_queue a))
          (s'\<lparr>sys_live := remove1 a (sys_live s')\<rparr>))))
      else None)"
| "action_step DropMakeTx s = Some (Ok ([],
     s\<lparr>sys_make_tx := sys_make_tx s - 1,
       sys_channels := (if sys_make_tx s = 1 then map tx_drop (sys_channels s) else sys_channels s)\<rparr>))"

text \<open>The context after a message was taken from it, and the thread that runs it.\<close>

definition after_run :: "nat \<Rightarrow> 'f point \<Rightarrow> ('i, 'f, 'm) sys \<Rightarrow>
    ('m \<times> 'f actor_context \<times> 'f action list) res \<Rightarrow> ('i, 'f, 'm) sys res" where
  "after_run k pt s r = rbind r (\<lambda>(mem, c, as). Ok (set_thread k (Running pt as c) (s\<lparr>sys_mem := mem\<rparr>)))"

definition drain_point :: "('f, 'm) user \<Rightarrow> nat \<Rightarrow> 'f point \<Rightarrow> 'f point \<Rightarrow> 'f actor_context \<Rightarrow>
    ('i, 'f, 'm) sys \<Rightarrow> ('i, 'f, 'm) sys res" where
  "drain_point user k again nxt c s =
     (case drain_step user (sys_mem s) c of
        None \<Rightarrow> Ok (set_thread k (Running nxt [] c) s)
      | Some r \<Rightarrow> after_run k again s r)"

text \<open>The receive, and the branch on the item received.\<close>

definition recv_point :: "('f, 'm) user \<Rightarrow> nat \<Rightarrow> 'f actor_context \<Rightarrow> ('i, 'f, 'm) sys \<Rightarrow>
    ('i, 'f, 'm) sys res option" where
  "recv_point user k c s =
     (case rx_recv (sys_channels s ! ctx_rx c) of
        None \<Rightarrow> None
      | Some (None, ch) \<Rightarrow> Some (Fault UnwrapFailed)
      | Some (Some item, ch) \<Rightarrow> Some (
          let s' = set_channel (ctx_rx c) ch s in
          case item of
            Msg m \<Rightarrow> after_run k PHandled s' (run_msg user m (sys_mem s') c)
          | AccessorDropped \<Rightarrow> Ok (set_thread k (Running PDropped [] c) s')
          | Stop \<Rightarrow> Ok (set_thread k (Running PExit [] c) s')))"

text \<open>The decrement of the counter, with the branch on whether it was the last event.\<close>

definition handled_point :: "nat \<Rightarrow> bool \<Rightarrow> 'f actor_context \<Rightarrow> ('i, 'f, 'm) sys \<Rightarrow> ('i, 'f, 'm) sys res" where
  "handled_point k free c s =
     rbind (fetch_sub 1 (sys_control s)) (\<lambda>(old, control).
     Ok (set_thread k (if old \<le> 1 then Running (PStop (ctx_links c) free) [] c else Running PRecv [] c)
       (s\<lparr>sys_control := control\<rparr>)))"

definition clear_unsent :: "'f actor_context \<Rightarrow> 'f actor_context" where
  "clear_unsent c = c\<lparr>ctx_data := (ctx_data c)\<lparr>cd_unsent := []\<rparr>\<rparr>"

definition count_point :: "nat \<Rightarrow> 'f actor_context \<Rightarrow> ('i, 'f, 'm) sys \<Rightarrow> ('i, 'f, 'm) sys res" where
  "count_point k c s =
     (case cd_unsent (ctx_data c) of
        [] \<Rightarrow> handled_point k False c s
      | [x] \<Rightarrow> Ok (set_thread k (Running (PFlush [x]) [] (clear_unsent c)) s)
      | xs \<Rightarrow>
          rbind (usub (of_nat (length xs) :: u32) 1) (\<lambda>n.
          rbind (fetch_add n (sys_control s)) (\<lambda>(_, control).
          Ok (set_thread k (Running (PFlush (sort_key fst xs)) [] (clear_unsent c))
            (s\<lparr>sys_control := control\<rparr>)))))"

fun flush_point :: "nat \<Rightarrow> (context_id \<times> 'f msg) list \<Rightarrow> 'f actor_context \<Rightarrow> ('i, 'f, 'm) sys \<Rightarrow>
    ('i, 'f, 'm) sys res" where
  "flush_point k [] c s = Ok (set_thread k (Running PRecv [] c) s)"
| "flush_point k ((rx, m) # xs) c s =
     rbind (route (ctx_links c) (cd_id (ctx_data c)) rx) (\<lambda>l.
     rbind (send_unwrap l (Msg m) s) (\<lambda>s'.
     Ok (set_thread k (Running (if xs = [] then PRecv else PFlush xs) [] c) s')))"

fun stop_point :: "nat \<Rightarrow> nat list \<Rightarrow> bool \<Rightarrow> 'f actor_context \<Rightarrow> ('i, 'f, 'm) sys \<Rightarrow> ('i, 'f, 'm) sys res" where
  "stop_point k [] free c s =
     (if free then
        rbind (cb_dealloc cb_layout (sys_control s)) (\<lambda>control.
        Ok (set_thread k (Running PExit [] c) (s\<lparr>sys_control := control\<rparr>)))
      else Ok (set_thread k (Running PExit [] c) s))"
| "stop_point k (l # ls) free c s =
     rbind (send_unwrap l Stop s) (\<lambda>s'. Ok (set_thread k (Running (PStop ls free) [] c) s'))"

text \<open>The end of \<open>run_thread\<close>: the context is dropped, with its receiver and its links.\<close>

definition exit_point :: "nat \<Rightarrow> 'f actor_context \<Rightarrow> ('i, 'f, 'm) sys \<Rightarrow> ('i, 'f, 'm) sys res" where
  "exit_point k c s =
     rbind (context_drop c) (\<lambda>_.
     (let chans = (sys_channels s)[ctx_rx c := rx_drop (sys_channels s ! ctx_rx c)] in
      Ok (set_thread k Finished (s\<lparr>sys_channels := drop_txs (ctx_links c) chans\<rparr>))))"

fun point_step :: "('f, 'm) user \<Rightarrow> nat \<Rightarrow> 'f point \<Rightarrow> 'f actor_context \<Rightarrow> ('i, 'f, 'm) sys \<Rightarrow>
    ('i, 'f, 'm) sys res option" where
  "point_step user k PDrain c s = Some (drain_point user k PDrain PRelease c s)"
| "point_step user k PRelease c s = Some (
     rbind (into_unowned (sys_control s)) (\<lambda>control.
     Ok (set_thread k (Running PRecv [] c) (s\<lparr>sys_control := control\<rparr>))))"
| "point_step user k PRecv c s = recv_point user k c s"
| "point_step user k PHandled c s = Some (drain_point user k PHandled PCount c s)"
| "point_step user k PCount c s = Some (count_point k c s)"
| "point_step user k (PFlush xs) c s = Some (flush_point k xs c s)"
| "point_step user k PDropped c s = Some (handled_point k True c s)"
| "point_step user k (PStop ls free) c s = Some (stop_point k ls free c s)"
| "point_step user k PExit c s = Some (exit_point k c s)"

text \<open>
  A step of the thread \<open>k\<close>: \<open>None\<close> if it has none (it waits for a message, or has ended).
  \<open>build\<close> is \<open>create_context\<close>.
\<close>

definition thread_step :: "('i \<Rightarrow> 'm \<Rightarrow> ('m \<times> 'f actor_context \<times> 'f action list) res) \<Rightarrow>
    ('f, 'm) user \<Rightarrow> nat \<Rightarrow> ('i, 'f, 'm) sys \<Rightarrow> ('i, 'f, 'm) sys res option" where
  "thread_step build user k s =
     (if k < length (sys_threads s) then
        (case sys_threads s ! k of
           Waiting i \<Rightarrow> Some (after_run k PDrain s (build i (sys_mem s)))
         | Running pt (a # as) c \<Rightarrow>
             map_option (\<lambda>r. rbind r (\<lambda>(bs, s'). Ok (set_thread k (Running pt (bs @ as) c) s')))
               (action_step a s)
         | Running pt [] c \<Rightarrow> point_step user k pt c s
         | Finished \<Rightarrow> None)
      else None)"

text \<open>
  A step of a thread outside the runtime: it calls \<open>send\<close> of an accessor, or drops it, or makes a
  shared access of such a call. Calls of different threads are in any order.
\<close>

datatype 'f outside = OutSend accessor 'f | OutDrop accessor | OutStep nat

fun outside_step :: "'f outside \<Rightarrow> ('i, 'f, 'm) sys \<Rightarrow> ('i, 'f, 'm) sys res option" where
  "outside_step (OutSend a f) s =
     (if a \<in> set (sys_live s) then Some (Ok (s\<lparr>sys_outside := sys_outside s @ accessor_send a f\<rparr>)) else None)"
| "outside_step (OutDrop a) s =
     (if a \<in> set (sys_live s) then Some (Ok (s\<lparr>sys_outside := sys_outside s @ accessor_drop a\<rparr>)) else None)"
| "outside_step (OutStep i) s =
     (if i < length (sys_outside s) then
        map_option (\<lambda>r. rbind r (\<lambda>(bs, s').
            Ok (s'\<lparr>sys_outside := take i (sys_outside s) @ bs @ drop (Suc i) (sys_outside s)\<rparr>)))
          (action_step (sys_outside s ! i) s)
      else None)"

text \<open>The start of \<open>run\<close>: a thread for each context.\<close>

definition start :: "('v, 'c, 's, 'f, 'm) startup \<Rightarrow> 'm \<Rightarrow>
    (('v, 'c, 's, 'f, 'm) context_constructor_args, 'f, 'm) sys" where
  "start su mem = \<lparr>sys_threads = map Waiting (su_args su), sys_channels = su_channels su,
     sys_control = su_control su, sys_live = [], sys_outside = [], sys_make_tx = length (su_args su), sys_mem = mem\<rparr>"

definition run :: "('v, 'c, 's, 'f, 'm) object_registry \<Rightarrow> (nat \<Rightarrow> layout \<Rightarrow> usize) \<Rightarrow> (layout \<Rightarrow> usize) \<Rightarrow>
    'v config \<Rightarrow> 'm \<Rightarrow> (('v, 'c, 's, 'f, 'm) context_constructor_args, 'f, 'm) sys res" where
  "run registry alloc cb_alloc config mem =
     rbind (create_context_args registry alloc cb_alloc config) (\<lambda>su.
     rbind (guard UnwrapFailed (su_args su \<noteq> [])) (\<lambda>_.
     Ok (start su mem)))"

text \<open>A schedule, for the evaluation of concrete runs: the threads that take a step, in order.\<close>

fun run_schedule :: "('i \<Rightarrow> 'm \<Rightarrow> ('m \<times> 'f actor_context \<times> 'f action list) res) \<Rightarrow> ('f, 'm) user \<Rightarrow>
    nat list \<Rightarrow> ('i, 'f, 'm) sys \<Rightarrow> ('i, 'f, 'm) sys option" where
  "run_schedule build user [] s = Some s"
| "run_schedule build user (k # ks) s =
     (case thread_step build user k s of Some (Ok s') \<Rightarrow> run_schedule build user ks s' | _ \<Rightarrow> None)"

end
