(* ===== verification/Counting.thy ===== *)
theory Counting
  imports System
begin

text \<open>
  The counter of the control block: what it counts (\<open>total\<close>), and that every step of a thread
  before the end of a run keeps it equal to that count, or reaches the end: the phases
  \<open>running\<close>, \<open>stuck\<close> and \<open>stopping\<close>. Each point of \<open>run_thread\<close> has its lemma.
\<close>

subsection \<open>Tokens\<close>

text \<open>
  What the counter of the control block counts: one for each message and each drop notice that
  is in a channel, being handled, or about to be sent, one for each accessor, and one for each
  thread that has not reached its main loop.
\<close>

definition chan_tokens :: "'f queue_item channel \<Rightarrow> nat" where
  "chan_tokens ch = length (filter (\<lambda>x. x \<noteq> Stop) (pending ch))"

fun action_tokens :: "'f action \<Rightarrow> nat" where
  "action_tokens (AccPush a m) = 1"
| "action_tokens _ = 0"

fun point_tokens :: "'f point \<Rightarrow> nat" where
  "point_tokens (PFlush xs) = length xs"
| "point_tokens PRecv = 0"
| "point_tokens (PStop ls free) = 0"
| "point_tokens PExit = 0"
| "point_tokens _ = 1"

fun thread_tokens :: "('i, 'f) thread \<Rightarrow> nat" where
  "thread_tokens (Waiting i) = 1"
| "thread_tokens (Running pt as c) = point_tokens pt + sum_list (map action_tokens as)"
| "thread_tokens Finished = 0"

definition total :: "('i, 'f, 'm) sys \<Rightarrow> nat" where
  "total s = sum_list (map thread_tokens (sys_threads s)) + sum_list (map chan_tokens (sys_channels s)) +
     sum_list (map action_tokens (sys_outside s)) + length (sys_live s)"

lemma sys_simps [simp]:
  "sys_threads (set_thread k t s) = (sys_threads s)[k := t]"
  "sys_channels (set_thread k t s) = sys_channels s"
  "sys_control (set_thread k t s) = sys_control s"
  "sys_live (set_thread k t s) = sys_live s"
  "sys_make_tx (set_thread k t s) = sys_make_tx s"
  "sys_mem (set_thread k t s) = sys_mem s"
  "sys_outside (set_thread k t s) = sys_outside s"
  "sys_threads (set_channel j ch s) = sys_threads s"
  "sys_channels (set_channel j ch s) = (sys_channels s)[j := ch]"
  "sys_control (set_channel j ch s) = sys_control s"
  "sys_live (set_channel j ch s) = sys_live s"
  "sys_make_tx (set_channel j ch s) = sys_make_tx s"
  "sys_mem (set_channel j ch s) = sys_mem s"
  "sys_outside (set_channel j ch s) = sys_outside s"
  by (simp_all add: set_thread_def set_channel_def)

lemma borrowed_fields [simp]:
  "borrowed a (set_thread k t s) = borrowed a s" "borrowed a (set_channel j ch s) = borrowed a s"
  "borrowed a (s\<lparr>sys_control := b\<rparr>) = borrowed a s" "borrowed a (s\<lparr>sys_mem := m\<rparr>) = borrowed a s"
  "borrowed a (s\<lparr>sys_make_tx := mt\<rparr>) = borrowed a s" "borrowed a (s\<lparr>sys_live := l\<rparr>) = borrowed a s"
  "borrowed a (s\<lparr>sys_make_tx := mt, sys_channels := chs\<rparr>) = borrowed a s"
  "borrowed a (s\<lparr>sys_control := b, sys_live := l\<rparr>) = borrowed a s"
  "borrowed a (s\<lparr>sys_channels := chs\<rparr>) = borrowed a s"
  by (simp_all add: borrowed_def)

lemma push_of_simps [simp]:
  "push_of a (AccPush b m) \<longleftrightarrow> b = a" "\<not> push_of a (AccClone b)" "\<not> push_of a (AccIncrement b m)"
  "\<not> push_of a (AccDrop b)" "\<not> push_of a DropMakeTx"
  by (simp_all add: push_of_def)

lemma count_list_remove1: "count_list (remove1 x xs) y = count_list xs y - (if x = y then 1 else 0)"
  by (induction xs) (auto simp: count_list_0_iff Suc_diff_le)

lemma available_live: "available a s \<Longrightarrow> a \<in> set (sys_live s)"
  by (metis available_def count_list_0_iff not_less_zero)

lemma total_fields [simp]:
  "total (s\<lparr>sys_control := b\<rparr>) = total s" "total (s\<lparr>sys_mem := m\<rparr>) = total s"
  "total (s\<lparr>sys_make_tx := t\<rparr>) = total s"
  by (simp_all add: total_def)

lemma total_set_thread:
  "k < length (sys_threads s) \<Longrightarrow>
    total (set_thread k t s) + thread_tokens (sys_threads s ! k) = total s + thread_tokens t"
  using sum_list_map_update [of k "sys_threads s" thread_tokens t] by (simp add: total_def)

lemma total_set_channel:
  "j < length (sys_channels s) \<Longrightarrow>
    total (set_channel j ch s) + chan_tokens (sys_channels s ! j) = total s + chan_tokens ch"
  using sum_list_map_update [of j "sys_channels s" chan_tokens ch] by (simp add: total_def)

lemma total_set_live:
  "total (s\<lparr>sys_live := l\<rparr>) + length (sys_live s) = total s + length l"
  by (simp add: total_def)

lemma chan_tokens_simps [simp]:
  "chan_tokens (tx_clone ch) = chan_tokens ch" "chan_tokens (tx_drop ch) = chan_tokens ch"
  "chan_tokens (ch\<lparr>pending := xs\<rparr>) = length (filter (\<lambda>x. x \<noteq> Stop) xs)"
  by (simp_all add: chan_tokens_def tx_clone_def tx_drop_def)

lemma total_ge_thread: "k < length (sys_threads s) \<Longrightarrow> thread_tokens (sys_threads s ! k) \<le> total s"
  using member_le_sum_list [of "thread_tokens (sys_threads s ! k)" "map thread_tokens (sys_threads s)"]
  by (simp add: total_def)

lemma total_0:
  "total s = 0 \<longleftrightarrow> (\<forall>t \<in> set (sys_threads s). thread_tokens t = 0) \<and>
    (\<forall>ch \<in> set (sys_channels s). chan_tokens ch = 0) \<and>
    (\<forall>a \<in> set (sys_outside s). action_tokens a = 0) \<and> sys_live s = []"
  by (auto simp: total_def)

subsection \<open>The shape of a state\<close>

text \<open>
  What does not depend on counting. \<open>ready k i\<close> states of the arguments \<open>i\<close> that the context
  built from them is the one at index \<open>k\<close>.
\<close>

definition action_ok :: "nat \<Rightarrow> 'f action \<Rightarrow> bool" where
  "action_ok n a = (case a of AccClone x \<Rightarrow> acc_queue x < n | AccPush x m \<Rightarrow> acc_queue x < n | _ \<Rightarrow> True)"

fun point_ok :: "nat \<Rightarrow> nat \<Rightarrow> 'f point \<Rightarrow> bool" where
  "point_ok n k (PFlush xs) \<longleftrightarrow> xs \<noteq> []"
| "point_ok n k (PStop ls free) \<longleftrightarrow> distinct ls \<and> set ls \<subseteq> {0..<n} - {k}"
| "point_ok n k _ \<longleftrightarrow> True"

fun thread_ok :: "nat \<Rightarrow> (nat \<Rightarrow> 'i \<Rightarrow> bool) \<Rightarrow> nat \<Rightarrow> ('i, 'f) thread \<Rightarrow> bool" where
  "thread_ok n ready k (Waiting i) \<longleftrightarrow> ready k i"
| "thread_ok n ready k (Running pt as c) \<longleftrightarrow>
     ctx_rx c = k \<and> ctx_links c = links_for n k \<and> point_ok n k pt \<and>
     (\<forall>a \<in> set as. action_ok n a) \<and> (as \<noteq> [] \<longrightarrow> pt = PDrain \<or> pt = PHandled)"
| "thread_ok n ready k Finished \<longleftrightarrow> True"

text \<open>A handler makes no accessor, and none of its actions holds a token yet.\<close>

definition handler_action :: "'f action \<Rightarrow> bool" where
  "handler_action a \<longleftrightarrow> (case a of AccIncrement x m \<Rightarrow> True | AccDrop x \<Rightarrow> True | _ \<Rightarrow> False)"

definition outside_ok :: "nat \<Rightarrow> 'f action \<Rightarrow> bool" where
  "outside_ok n a \<longleftrightarrow> handler_action a \<or> (\<exists>x m. a = AccPush x m \<and> acc_queue x < n)"

definition shape :: "nat \<Rightarrow> (nat \<Rightarrow> 'i \<Rightarrow> bool) \<Rightarrow> ('i, 'f, 'm) sys \<Rightarrow> bool" where
  "shape n ready s \<longleftrightarrow> length (sys_threads s) = n \<and> length (sys_channels s) = n \<and>
     (\<forall>k<n. thread_ok n ready k (sys_threads s ! k)) \<and> (\<forall>a \<in> set (sys_live s). acc_queue a < n) \<and>
     (\<forall>a \<in> set (sys_outside s). outside_ok n a) \<and> (\<forall>a. borrowed a s \<le> count_list (sys_live s) a)"

lemma shape_set_thread:
  "shape n ready s \<Longrightarrow> thread_ok n ready k t \<Longrightarrow> shape n ready (set_thread k t s)"
  by (auto simp: shape_def) (metis nth_list_update_eq nth_list_update_neq)

lemma shape_set_channel: "shape n ready s \<Longrightarrow> shape n ready (set_channel j ch s)"
  by (auto simp: shape_def)

lemma shape_fields [simp]:
  "shape n ready (s\<lparr>sys_control := b\<rparr>) = shape n ready s" "shape n ready (s\<lparr>sys_mem := m\<rparr>) = shape n ready s"
  "shape n ready (s\<lparr>sys_make_tx := t\<rparr>) = shape n ready s"
  by (simp_all add: shape_def)

lemma shape_thread: "shape n ready s \<Longrightarrow> k < n \<Longrightarrow> thread_ok n ready k (sys_threads s ! k)"
  by (simp add: shape_def)

lemma handler_action_ok: "handler_action a \<Longrightarrow> action_ok n a \<and> action_tokens a = 0 \<and> a \<noteq> DropMakeTx"
  by (cases a) (auto simp: handler_action_def action_ok_def)

lemma exec_cmds_actions: "exec_cmds cmds d = (d', as) \<Longrightarrow> \<forall>a \<in> set as. handler_action a"
proof -
  assume "exec_cmds cmds d = (d', as)"
  then have "as = concat (map cmd_actions cmds)" using exec_cmds_effect by blast
  moreover have "\<forall>a \<in> set (cmd_actions cmd). handler_action a" for cmd :: "'a cmd"
    by (cases cmd) (auto simp: accessor_send_def accessor_drop_def handler_action_def)
  ultimately show ?thesis by auto
qed

lemma run_msg_actions:
  assumes "run_msg user m mem c = Ok (mem', c', as)"
  shows "\<forall>a \<in> set as. handler_action a" "ctx_rx c' = ctx_rx c" "ctx_links c' = ctx_links c"
    "cd_id (ctx_data c') = cd_id (ctx_data c)"
proof -
  have "run_targets user a f rs mem d = Ok (mem', d', as) \<Longrightarrow> \<forall>x \<in> set as. handler_action x" for a f rs d d' mem as
  proof (induction rs arbitrary: mem d as)
    case (Cons r rs)
    obtain off m where r: "r = (off, m)" by (cases r)
    obtain mem1 cmds where u: "user f (arena_offset a off, m) mem = Ok (mem1, cmds)"
      using Cons.prems r by auto
    obtain d1 as1 where d1: "exec_cmds cmds d = (d1, as1)" by (cases "exec_cmds cmds d")
    then obtain as2 where "run_targets user a f rs mem1 d1 = Ok (mem', d', as2)" "as = as1 @ as2"
      using Cons.prems r u by auto
    then show ?case using Cons.IH exec_cmds_actions [OF d1] by auto
  qed simp
  then show "\<forall>a \<in> set as. handler_action a" using assms by (auto simp: run_msg_def)
  show "ctx_rx c' = ctx_rx c" "ctx_links c' = ctx_links c" "cd_id (ctx_data c') = cd_id (ctx_data c)"
    using assms run_msg_frame(1) [OF assms] by (auto simp: run_msg_def)
qed


subsection \<open>The running phase\<close>

fun ended :: "('i, 'f) thread \<Rightarrow> bool" where
  "ended (Running (PStop ls free) as c) \<longleftrightarrow> True"
| "ended (Running PExit as c) \<longleftrightarrow> True"
| "ended Finished \<longleftrightarrow> True"
| "ended _ \<longleftrightarrow> False"

definition active :: "('i, 'f, 'm) sys \<Rightarrow> bool" where
  "active s \<longleftrightarrow> (\<forall>t \<in> set (sys_threads s). \<not> ended t) \<and>
     (\<forall>ch \<in> set (sys_channels s). receiver_alive ch \<and> Stop \<notin> set (pending ch))"

definition running :: "nat \<Rightarrow> (nat \<Rightarrow> 'i \<Rightarrow> bool) \<Rightarrow> ('i, 'f, 'm) sys \<Rightarrow> bool" where
  "running n ready s \<longleftrightarrow> shape n ready s \<and> active s \<and> sys_control s = Block (of_nat (total s))"

lemma active_set_thread: "active s \<Longrightarrow> \<not> ended t \<Longrightarrow> active (set_thread k t s)"
  using set_update_subset_insert [of "sys_threads s" k t] by (auto simp: active_def)

lemma active_set_channel:
  "active s \<Longrightarrow> receiver_alive ch \<Longrightarrow> Stop \<notin> set (pending ch) \<Longrightarrow> active (set_channel j ch s)"
  using set_update_subset_insert [of "sys_channels s" j ch] by (auto simp: active_def)

lemma active_fields [simp]:
  "active (s\<lparr>sys_control := b\<rparr>) = active s" "active (s\<lparr>sys_mem := m\<rparr>) = active s"
  "active (s\<lparr>sys_make_tx := t\<rparr>) = active s" "active (s\<lparr>sys_live := l\<rparr>) = active s"
  by (simp_all add: active_def)

lemma active_channel:
  "active s \<Longrightarrow> j < length (sys_channels s) \<Longrightarrow>
    receiver_alive (sys_channels s ! j) \<and> Stop \<notin> set (pending (sys_channels s ! j))"
  by (simp add: active_def)

lemma send_active:
  assumes "active s" "j < length (sys_channels s)" "item \<noteq> Stop"
  shows "\<exists>s'. send_unwrap j item s = Ok s' \<and> active s' \<and> total s' = Suc (total s) \<and>
    sys_threads s' = sys_threads s \<and> sys_outside s' = sys_outside s \<and>
    sys_control s' = sys_control s \<and> sys_live s' = sys_live s \<and>
    (shape n ready s \<longrightarrow> shape n ready s')"
proof -
  let ?ch = "sys_channels s ! j"
  let ?s = "set_channel j (?ch\<lparr>pending := pending ?ch @ [item]\<rparr>) s"
  have ch: "receiver_alive ?ch" "Stop \<notin> set (pending ?ch)" using active_channel [OF assms(1,2)] by auto
  have "send_unwrap j item s = Ok ?s" using ch by (simp add: send_unwrap_def tx_send_def)
  moreover have "active ?s" by (rule active_set_channel [OF assms(1)]) (use ch assms(3) in simp_all)
  moreover have "total ?s = Suc (total s)"
    using total_set_channel [OF assms(2), of "?ch\<lparr>pending := pending ?ch @ [item]\<rparr>"] assms(3)
    by (simp add: chan_tokens_def)
  ultimately show ?thesis by (auto intro: shape_set_channel)
qed

lemma running_tokens:
  assumes "running n ready s" "k < n"
  shows "k < length (sys_threads s)" "k < length (sys_channels s)"
    "thread_ok n ready k (sys_threads s ! k)" "\<not> ended (sys_threads s ! k)"
  using assms by (auto simp: running_def shape_def active_def)

text \<open>A thread's step that leaves the threads alone except its own.\<close>

lemma running_set_thread:
  assumes "shape n ready s" "active s" "k < n" "thread_ok n ready k t" "\<not> ended t"
    and "sys_control s = Block (of_nat m)" "total s + thread_tokens t = m + thread_tokens (sys_threads s ! k)"
  shows "running n ready (set_thread k t s)" "total (set_thread k t s) = m"
proof -
  have "k < length (sys_threads s)" using assms(1,3) by (simp add: shape_def)
  from total_set_thread [OF this, of t] show m: "total (set_thread k t s) = m" using assms(7) by simp
  show "running n ready (set_thread k t s)"
    unfolding running_def m
    using shape_set_thread [OF assms(1,4)] active_set_thread [OF assms(2,5)] assms(6) by simp
qed

text \<open>One shared access, of a thread of the runtime or outside it.\<close>

lemma action_effect:
  fixes s :: "('i, 'f, 'm) sys"
  assumes sh: "shape n ready s" and act: "active s" and cb: "sys_control s = Block (of_nat m)"
    and ok: "action_ok n a" and step: "action_step a s = Some r"
  shows "\<exists>bs s' m'. r = Ok (bs, s') \<and> shape n ready s' \<and> active s' \<and> sys_threads s' = sys_threads s \<and>
    sys_outside s' = sys_outside s \<and> sys_control s' = Block (of_nat m') \<and> m \<le> m' \<and>
    total s' + m + sum_list (map action_tokens bs) = total s + m' + action_tokens a \<and>
    (\<forall>b \<in> set bs. \<exists>x f. b = AccPush x f \<and> acc_queue x < n) \<and>
    (\<forall>x. borrowed x s + length (filter (push_of x) bs) \<le>
       count_list (sys_live s') x + (if push_of x a then 1 else 0))"
proof -
  have len: "length (sys_channels s) = n" using sh by (simp add: shape_def)
  have live: "acc_queue x < n" if "x \<in> set (sys_live s)" for x
    using sh that by (simp add: shape_def)
  have held: "borrowed x s \<le> count_list (sys_live s) x" for x using sh by (simp add: shape_def)
  show ?thesis
  proof (cases a)
    case (AccClone x)
    let ?s1 = "s\<lparr>sys_control := Block (of_nat m + 1), sys_live := x # sys_live s\<rparr>"
    let ?s = "set_channel (acc_queue x) (tx_clone (sys_channels s ! acc_queue x)) ?s1"
    have x: "acc_queue x < n" using ok AccClone by (simp add: action_ok_def)
    have "r = Ok ([], ?s)" using step AccClone cb by (simp add: cb_clone_def fetch_add_def)
    moreover have "shape n ready ?s"
      using sh x by (intro shape_set_channel) (auto simp: shape_def intro: le_SucI)
    moreover have "active ?s"
      using act active_channel [OF act] x len by (intro active_set_channel) (simp_all add: tx_clone_def)
    moreover have "total ?s = Suc (total s)"
      using total_set_channel [of "acc_queue x" ?s1 "tx_clone (sys_channels s ! acc_queue x)"]
        total_set_live [of "x # sys_live s" s] x len by (simp add: total_def)
    ultimately show ?thesis using AccClone held by (auto intro!: exI [of _ "Suc m"] simp: add.commute intro: le_SucI)
  next
    case (AccIncrement x f)
    have x: "acc_queue x < n" "available x s" using step AccIncrement live available_live by (auto split: if_splits)
    have "r = Ok ([AccPush x f], s\<lparr>sys_control := Block (of_nat m + 1)\<rparr>)"
      using step AccIncrement cb by (auto simp: fetch_add_def split: if_splits)
    then show ?thesis using sh act x AccIncrement held
      by (auto intro!: exI [of _ "Suc m"] simp: add.commute push_of_def available_def)
  next
    case (AccPush x f)
    have x: "acc_queue x < length (sys_channels s)" using ok AccPush len by (simp add: action_ok_def)
    obtain s' where "send_unwrap (acc_queue x) (Msg f) s = Ok s'" "active s'" "total s' = Suc (total s)"
      "sys_threads s' = sys_threads s" "sys_outside s' = sys_outside s" "sys_control s' = sys_control s" "shape n ready s'"
      "sys_live s' = sys_live s"
      using send_active [OF act x, of "Msg f" n ready] sh by auto
    then show ?thesis using step AccPush cb held le_SucI [OF held [of x]] by (auto intro!: exI [of _ m])
  next
    case (AccDrop x)
    have av: "available x s" using step AccDrop by (auto split: if_splits)
    have x: "x \<in> set (sys_live s)" "acc_queue x < n" using available_live [OF av] live by auto
    have rem: "borrowed y s \<le> count_list (remove1 x (sys_live s)) y" for y
      using av held [of y] by (auto simp: available_def count_list_remove1)
    obtain s' where s': "send_unwrap (acc_queue x) AccessorDropped s = Ok s'" "active s'" "total s' = Suc (total s)"
      "sys_threads s' = sys_threads s" "sys_outside s' = sys_outside s" "sys_control s' = sys_control s"
      "sys_live s' = sys_live s" "shape n ready s'"
      using send_active [OF act, of "acc_queue x" AccessorDropped n ready] x sh len by auto
    let ?s1 = "s'\<lparr>sys_live := remove1 x (sys_live s')\<rparr>"
    let ?s = "set_channel (acc_queue x) (tx_drop (sys_channels s' ! acc_queue x)) ?s1"
    have x': "acc_queue x < length (sys_channels s')" using x(2) s'(8) by (simp add: shape_def)
    have "borrowed y s' = borrowed y s" for y using s'(5) by (simp add: borrowed_def)
    then have rem': "\<forall>y. borrowed y s' \<le> count_list (remove1 x (sys_live s')) y" using rem s'(7) by simp
    have "r = Ok ([], ?s)" using step AccDrop av s' by simp
    moreover have "shape n ready ?s"
      using s'(8) rem' by (intro shape_set_channel) (auto simp: shape_def dest: notin_set_remove1 intro: set_remove1_subset [THEN subsetD])
    moreover have "active ?s"
      using s'(2) active_channel [OF s'(2) x'] by (intro active_set_channel) (simp_all add: tx_drop_def)
    moreover have "total ?s1 + 1 = total s'"
      using total_set_live [of "remove1 x (sys_live s')" s'] x s'(7)
      by (cases "length (sys_live s)") (simp_all add: length_remove1)
    then have "total ?s = total s"
      using total_set_channel [of "acc_queue x" ?s1 "tx_drop (sys_channels s' ! acc_queue x)"] x' s'(3) by simp
    ultimately show ?thesis using AccDrop s' cb rem by (auto intro!: exI [of _ m])
  next
    case DropMakeTx
    let ?s = "s\<lparr>sys_make_tx := sys_make_tx s - 1,
        sys_channels := (if sys_make_tx s = 1 then map tx_drop (sys_channels s) else sys_channels s)\<rparr>"
    have "r = Ok ([], ?s)" using step DropMakeTx by simp
    moreover have "shape n ready ?s" using sh by (simp add: shape_def)
    moreover have "active ?s" using act by (auto simp: active_def tx_drop_def)
    moreover have "total ?s = total s" by (simp add: total_def comp_def)
    ultimately show ?thesis using DropMakeTx cb held by (auto intro!: exI [of _ m] simp: push_of_def)
  qed
qed

lemma action_running:
  fixes s :: "('i, 'f, 'm) sys"
  assumes run: "running n ready s" and k: "k < n" "sys_threads s ! k = Running pt (a # as) c"
    and step: "action_step a s = Some r"
  shows "\<exists>bs s'. r = Ok (bs, s') \<and> running n ready (set_thread k (Running pt (bs @ as) c) s') \<and>
    total s \<le> total (set_thread k (Running pt (bs @ as) c) s')"
proof -
  have sh: "shape n ready s" and act: "active s" and cb: "sys_control s = Block (of_nat (total s))"
    using run by (simp_all add: running_def)
  have ok: "thread_ok n ready k (Running pt (a # as) c)" "\<not> ended (Running pt (a # as) c :: ('i, 'f) thread)"
    using running_tokens(3,4) [OF run k(1)] k(2) by simp_all
  then have a: "action_ok n a" by simp
  obtain bs s' m' where s': "r = Ok (bs, s')" "shape n ready s'" "active s'" "sys_threads s' = sys_threads s"
    "sys_control s' = Block (of_nat m')" "total s \<le> m'"
    "total s' + total s + sum_list (map action_tokens bs) = total s + m' + action_tokens a"
    "\<forall>b \<in> set bs. \<exists>x f. b = AccPush x f \<and> acc_queue x < n"
    using action_effect [OF sh act cb a step] by blast
  have "\<forall>b \<in> set bs. action_ok n b" using s'(8) by (auto simp: action_ok_def)
  then have t: "thread_ok n ready k (Running pt (bs @ as) c)" "\<not> ended (Running pt (bs @ as) c :: ('i, 'f) thread)"
    using ok by (cases pt; auto)+
  show ?thesis
    using running_set_thread [OF s'(2,3) k(1) t s'(5)] s' k(2) by simp
qed

text \<open>What a thread outside the runtime does to a running one: it never faults.\<close>

lemma outside_running:
  fixes s :: "('i, 'f, 'm) sys"
  assumes run: "running n ready s" and step: "outside_step e s = Some r"
  shows "\<exists>s'. r = Ok s' \<and> running n ready s' \<and> total s \<le> total s'"
proof -
  have sh: "shape n ready s" and act: "active s" and cb: "sys_control s = Block (of_nat (total s))"
    using run by (simp_all add: running_def)
  have call: "running n ready (s\<lparr>sys_outside := sys_outside s @ [a]\<rparr>)"
    "total (s\<lparr>sys_outside := sys_outside s @ [a]\<rparr>) = total s" if "handler_action a" for a
  proof -
    show "total (s\<lparr>sys_outside := sys_outside s @ [a]\<rparr>) = total s"
      using that by (cases a) (auto simp: total_def handler_action_def)
    moreover have "\<not> push_of x a" for x using that by (cases a) (auto simp: push_of_def handler_action_def)
    ultimately show "running n ready (s\<lparr>sys_outside := sys_outside s @ [a]\<rparr>)"
      using run that by (simp add: running_def shape_def active_def outside_ok_def borrowed_def)
  qed
  show ?thesis
  proof (cases e)
    case (OutSend a f)
    then show ?thesis using step call by (auto simp: accessor_send_def handler_action_def split: if_splits)
  next
    case (OutDrop a)
    then show ?thesis using step call by (auto simp: accessor_drop_def handler_action_def split: if_splits)
  next
    case (OutStep i)
    let ?as = "sys_outside s"
    obtain r1 where i: "i < length ?as" and r1: "action_step (?as ! i) s = Some r1"
      and r: "r = rbind r1 (\<lambda>(bs, s'). Ok (s'\<lparr>sys_outside := take i ?as @ bs @ drop (Suc i) ?as\<rparr>))"
      using step OutStep by (auto split: if_splits)
    have out: "\<forall>a \<in> set ?as. outside_ok n a" using sh by (simp add: shape_def)
    then have "outside_ok n (?as ! i)" using nth_mem [OF i] by blast
    then have "action_ok n (?as ! i)"
      by (auto simp: outside_ok_def handler_action_def action_ok_def split: action.splits)
    from action_effect [OF sh act cb this r1]
    obtain bs s' m' where s': "r1 = Ok (bs, s')" "shape n ready s'" "active s'" "sys_outside s' = ?as"
      "sys_control s' = Block (of_nat m')" "total s \<le> m'"
      "total s' + total s + sum_list (map action_tokens bs) = total s + m' + action_tokens (?as ! i)"
      "\<forall>b \<in> set bs. \<exists>x f. b = AccPush x f \<and> acc_queue x < n"
      "\<forall>x. borrowed x s + length (filter (push_of x) bs) \<le>
        count_list (sys_live s') x + (if push_of x (?as ! i) then 1 else 0)"
      by blast
    let ?s = "s'\<lparr>sys_outside := take i ?as @ bs @ drop (Suc i) ?as\<rparr>"
    have split: "?as = take i ?as @ ?as ! i # drop (Suc i) ?as" using i by (simp add: id_take_nth_drop)
    have "sum_list (map action_tokens ?as) = sum_list (map action_tokens (take i ?as)) + action_tokens (?as ! i) +
        sum_list (map action_tokens (drop (Suc i) ?as))"
      by (subst split) (simp del: append_take_drop_id)
    then have tot: "total ?s = m'" using s'(4,7) by (simp add: total_def)
    have "borrowed x s = length (filter (push_of x) (take i ?as)) + (if push_of x (?as ! i) then 1 else 0) +
        length (filter (push_of x) (drop (Suc i) ?as))" for x
      unfolding borrowed_def by (subst split) (simp del: append_take_drop_id)
    then have "borrowed x ?s \<le> count_list (sys_live s') x" for x
      using s'(9) [rule_format, of x] by (simp add: borrowed_def split: if_splits)
    moreover have "set (take i ?as) \<subseteq> set ?as" "set (drop (Suc i) ?as) \<subseteq> set ?as"
      by (rule set_take_subset, rule set_drop_subset)
    ultimately have "shape n ready ?s" using s'(2,8) out by (auto simp: shape_def outside_ok_def)
    then have "running n ready ?s" using s'(3,5) tot by (simp add: running_def active_def)
    then show ?thesis using r s' tot by auto
  qed
qed

text \<open>What \<open>create_context\<close> makes for the context at index \<open>k\<close>.\<close>

definition builds :: "nat \<Rightarrow> ('i \<Rightarrow> 'm \<Rightarrow> ('m \<times> 'f actor_context \<times> 'f action list) res) \<Rightarrow> nat \<Rightarrow> 'i \<Rightarrow> bool" where
  "builds n build k i \<longleftrightarrow> (\<forall>mem mem' c as. build i mem = Ok (mem', c, as) \<longrightarrow>
     ctx_rx c = k \<and> ctx_links c = links_for n k \<and> (\<forall>a \<in> set as. action_ok n a \<and> action_tokens a = 0))"

text \<open>
  The faults the runtime leaves room for: panics of user code (while an actor is built, dropped,
  or handles a message), a message that cannot be routed, \<open>2 ^ 32\<close> unsent messages, and a
  receive of the only thread after the control block was freed by the last \<open>release\<close>.
\<close>

definition fault_excused :: "('i \<Rightarrow> 'm \<Rightarrow> ('m \<times> 'f actor_context \<times> 'f action list) res) \<Rightarrow> ('f, 'm) user \<Rightarrow>
    nat \<Rightarrow> ('i, 'f, 'm) sys \<Rightarrow> bool" where
  "fault_excused build user k s \<longleftrightarrow> (case sys_threads s ! k of
     Waiting i \<Rightarrow> \<not> is_ok (build i (sys_mem s))
   | Running pt as c \<Rightarrow> as = [] \<and> (case pt of
       PDrain \<Rightarrow> \<exists>e. drain_step user (sys_mem s) c = Some (Fault e)
     | PRecv \<Rightarrow> length (sys_threads s) = 1 \<and> sys_control s = Freed ref_layout \<or>
         (\<exists>m ms e. pending (sys_channels s ! k) = Msg m # ms \<and> run_msg user m (sys_mem s) c = Fault e)
     | PHandled \<Rightarrow> \<exists>e. drain_step user (sys_mem s) c = Some (Fault e)
     | PCount \<Rightarrow> cd_unsent (ctx_data c) \<noteq> [] \<and> (of_nat (length (cd_unsent (ctx_data c))) :: u32) = 0
     | PFlush xs \<Rightarrow> \<not> is_ok (route (ctx_links c) (cd_id (ctx_data c)) (fst (hd xs)))
     | PExit \<Rightarrow> \<not> is_ok (context_drop c)
     | _ \<Rightarrow> False)
   | Finished \<Rightarrow> False)"

lemma thread_tokens_handler: "\<forall>a \<in> set as. handler_action a \<Longrightarrow> sum_list (map action_tokens as) = 0"
  using handler_action_ok by (induction as) fastforce+

lemma after_run_running:
  fixes s :: "('i, 'f, 'm) sys"
  assumes "shape n ready s" "active s" "k < n" "sys_control s = Block (of_nat m)"
    and "total s + point_tokens pt = m + thread_tokens (sys_threads s ! k)"
    and r: "run_msg user msg (sys_mem s) c = Ok (mem', c', as)" "ctx_rx c = k" "ctx_links c = links_for n k"
    and pt: "pt = PDrain \<or> pt = PHandled"
  shows "running n ready (set_thread k (Running pt as c') (s\<lparr>sys_mem := mem'\<rparr>)) \<and>
    total (set_thread k (Running pt as c') (s\<lparr>sys_mem := mem'\<rparr>)) = m"
proof -
  note acts = run_msg_actions [OF r(1)]
  have "thread_ok n ready k (Running pt as c')" "\<not> ended (Running pt as c' :: ('i, 'f) thread)"
    using acts r(2,3) pt handler_action_ok by auto
  then show ?thesis
    using running_set_thread [of n ready "s\<lparr>sys_mem := mem'\<rparr>" k "Running pt as c'" m] assms
      thread_tokens_handler [OF acts(1)] by auto
qed

lemma drain_point_running:
  fixes s :: "('i, 'f, 'm) sys"
  assumes "running n ready s" "k < n" "sys_threads s ! k = Running pt [] c"
    and pt: "pt = PDrain \<and> nxt = PRelease \<or> pt = PHandled \<and> nxt = PCount"
  shows "case drain_point user k pt nxt c s of
      Ok s' \<Rightarrow> running n ready s' \<and> total s' = total s
    | Fault e \<Rightarrow> fault_excused build user k s"
proof -
  have sh: "shape n ready s" and act: "active s" and cb: "sys_control s = Block (of_nat (total s))"
    using assms(1) by (simp_all add: running_def)
  have ok: "thread_ok n ready k (Running pt [] c)" using running_tokens(3) [OF assms(1,2)] assms(3) by simp
  show ?thesis
  proof (cases "drain_step user (sys_mem s) c")
    case None
    have "thread_ok n ready k (Running nxt [] c)" "\<not> ended (Running nxt [] c :: ('i, 'f) thread)"
      using ok pt by auto
    then show ?thesis
      using running_set_thread [OF sh act assms(2), of "Running nxt [] c" "total s"] assms(3) pt cb None
      by (auto simp: drain_point_def)
  next
    case (Some r)
    obtain m c1 where r: "r = run_msg user m (sys_mem s) c1" "ctx_rx c1 = ctx_rx c" "ctx_links c1 = ctx_links c"
      "cd_id (ctx_data c1) = cd_id (ctx_data c)"
      using Some by (auto simp: drain_step_def split: prod.splits option.splits)
    show ?thesis
    proof (cases r)
      case (Inl e)
      then show ?thesis using Some assms(3) pt r
        by (auto simp: drain_point_def after_run_def fault_excused_def)
    next
      case (Inr x)
      obtain mem' c' as where x: "x = (mem', c', as)" by (cases x)
      have "running n ready (set_thread k (Running pt as c') (s\<lparr>sys_mem := mem'\<rparr>)) \<and>
          total (set_thread k (Running pt as c') (s\<lparr>sys_mem := mem'\<rparr>)) = total s"
        by (rule after_run_running [OF sh act assms(2) cb, of pt user m c1])
          (use assms(3) pt r Inr x ok in auto)
      then show ?thesis using Some Inr x by (simp add: drain_point_def after_run_def)
    qed
  qed
qed

lemma flush_point_running:
  fixes s :: "('i, 'f, 'm) sys"
  assumes "running n ready s" "k < n" "sys_threads s ! k = Running (PFlush xs) [] c"
  shows "case flush_point k xs c s of
      Ok s' \<Rightarrow> running n ready s' \<and> total s' = total s
    | Fault e \<Rightarrow> fault_excused build user k s"
proof -
  have sh: "shape n ready s" and act: "active s" and cb: "sys_control s = Block (of_nat (total s))"
    using assms(1) by (simp_all add: running_def)
  have ok: "thread_ok n ready k (Running (PFlush xs) [] c)"
    using running_tokens(3) [OF assms(1,2)] assms(3) by simp
  then obtain rx m ys where xs: "xs = (rx, m) # ys" by (cases xs) auto
  show ?thesis
  proof (cases "route (ctx_links c) (cd_id (ctx_data c)) rx")
    case (Inl e)
    then show ?thesis using xs assms(3) by (simp add: fault_excused_def)
  next
    case (Inr l)
    then have "l \<in> set (ctx_links c)" by (auto simp: route_def)
    then have l: "l < length (sys_channels s)" using ok sh by (auto simp: shape_def)
    obtain s' where s': "send_unwrap l (Msg m) s = Ok s'" "active s'" "total s' = Suc (total s)"
      "sys_threads s' = sys_threads s" "sys_control s' = sys_control s" "shape n ready s'"
      using send_active [OF act l, of "Msg m" n ready] sh by auto
    let ?t = "Running (if ys = [] then PRecv else PFlush ys) [] c :: ('i, 'f) thread"
    have "thread_ok n ready k ?t" "\<not> ended ?t" using ok by auto
    then show ?thesis
      using running_set_thread [OF s'(6,2) assms(2), of ?t "total s"] s' cb assms(3) xs Inr by auto
  qed
qed


text \<open>When the count reaches zero, the other threads wait and the channels are empty.\<close>

definition idle :: "nat \<Rightarrow> ('i, 'f, 'm) sys \<Rightarrow> bool" where
  "idle j s \<longleftrightarrow> (\<exists>c. sys_threads s ! j = Running PRecv [] c)"

lemma no_tokens_idle:
  assumes "running n ready s" "j < n" "thread_tokens (sys_threads s ! j) = 0"
  shows "idle j s"
proof -
  have ok: "thread_ok n ready j (sys_threads s ! j)" "\<not> ended (sys_threads s ! j)"
    using running_tokens(3,4) [OF assms(1,2)] by auto
  show ?thesis
  proof (cases "sys_threads s ! j")
    case (Running pt as c)
    then show ?thesis using ok assms(3) by (cases pt) (auto simp: idle_def)
  qed (use ok assms(3) in auto)
qed

lemma no_tokens_channel:
  assumes "active s" "j < length (sys_channels s)" "chan_tokens (sys_channels s ! j) = 0"
  shows "pending (sys_channels s ! j) = []"
  using active_channel [OF assms(1,2)] assms(3)
  by (cases "pending (sys_channels s ! j)") (auto simp: chan_tokens_def split: if_splits)

text \<open>
  The end of a run. \<open>stuck\<close>: the last \<open>release\<close> freed the block, and all threads wait.
  \<open>stopping k\<close>: the thread \<open>k\<close> handled the last event and sends \<open>Stop\<close> to the others; those it
  has not reached wait, those it has wait with the \<open>Stop\<close> in their channel, or leave, or are gone.
\<close>

definition stuck :: "nat \<Rightarrow> (nat \<Rightarrow> 'i \<Rightarrow> bool) \<Rightarrow> ('i, 'f, 'm) sys \<Rightarrow> bool" where
  "stuck n ready s \<longleftrightarrow> shape n ready s \<and> active s \<and> sys_control s = Freed ref_layout \<and> sys_live s = [] \<and>
     (\<forall>a \<in> set (sys_outside s). action_tokens a = 0) \<and> (\<forall>j<n. idle j s \<and> pending (sys_channels s ! j) = [])"

definition leaving :: "nat \<Rightarrow> ('i, 'f, 'm) sys \<Rightarrow> bool" where
  "leaving j s \<longleftrightarrow> (\<exists>c. sys_threads s ! j = Running PExit [] c) \<or> sys_threads s ! j = Finished"

definition stopper :: "nat \<Rightarrow> nat list \<Rightarrow> ('i, 'f, 'm) sys \<Rightarrow> bool" where
  "stopper k ls s \<longleftrightarrow>
     (\<exists>free c. sys_threads s ! k = Running (PStop ls free) [] c \<and> sys_control s = Block 0) \<or>
     ls = [] \<and> leaving k s \<and> (sys_control s = Block 0 \<or> sys_control s = Freed cb_layout)"

definition follower :: "nat \<Rightarrow> nat list \<Rightarrow> ('i, 'f, 'm) sys \<Rightarrow> bool" where
  "follower j ls s \<longleftrightarrow>
     idle j s \<and> pending (sys_channels s ! j) = (if j \<in> set ls then [] else [Stop]) \<and>
       receiver_alive (sys_channels s ! j) \<or>
     j \<notin> set ls \<and> leaving j s \<and> pending (sys_channels s ! j) = []"

definition stopping :: "nat \<Rightarrow> (nat \<Rightarrow> 'i \<Rightarrow> bool) \<Rightarrow> nat \<Rightarrow> nat list \<Rightarrow> ('i, 'f, 'm) sys \<Rightarrow> bool" where
  "stopping n ready k ls s \<longleftrightarrow> shape n ready s \<and> k < n \<and> sys_live s = [] \<and>
     (\<forall>a \<in> set (sys_outside s). action_tokens a = 0) \<and> pending (sys_channels s ! k) = [] \<and> stopper k ls s \<and> (\<forall>j<n. j \<noteq> k \<longrightarrow> follower j ls s)"

lemma all_zero:
  assumes "running n ready s" "k < n" "total s = thread_tokens (sys_threads s ! k)"
  shows "sys_live s = []" "\<forall>j<n. pending (sys_channels s ! j) = []" "\<forall>j<n. j \<noteq> k \<longrightarrow> idle j s"
    "\<forall>a \<in> set (sys_outside s). action_tokens a = 0"
proof -
  have len: "length (sys_threads s) = n" "length (sys_channels s) = n" "active s"
    using assms(1) by (auto simp: running_def shape_def)
  let ?s = "set_thread k Finished s"
  have "total ?s = 0" using total_set_thread [of k s Finished] assms(2,3) len by simp
  then have z: "\<forall>t \<in> set (sys_threads ?s). thread_tokens t = 0" "\<forall>ch \<in> set (sys_channels s). chan_tokens ch = 0"
    "sys_live s = []" "\<forall>a \<in> set (sys_outside s). action_tokens a = 0" by (simp_all add: total_0)
  show "sys_live s = []" by (rule z(3))
  show "\<forall>a \<in> set (sys_outside s). action_tokens a = 0" by (rule z(4))
  show "\<forall>j<n. pending (sys_channels s ! j) = []"
    using z(2) no_tokens_channel [OF len(3)] len(2) by simp
  have "thread_tokens (sys_threads s ! j) = 0" if "j < n" "j \<noteq> k" for j
  proof -
    have "sys_threads ?s ! j \<in> set (sys_threads ?s)" by (rule nth_mem) (use that len in simp)
    then have "thread_tokens (sys_threads ?s ! j) = 0" using z(1) by blast
    then show ?thesis using that by simp
  qed
  then show "\<forall>j<n. j \<noteq> k \<longrightarrow> idle j s" using no_tokens_idle [OF assms(1)] by blast
qed

lemma idle_set_thread: "j \<noteq> k \<Longrightarrow> idle j (set_thread k t s) = idle j s"
  by (simp add: idle_def)

lemma release_running:
  fixes s :: "('i, 'f, 'm) sys"
  assumes run: "running n ready s" and k: "k < n" "sys_threads s ! k = Running PRelease [] c"
    and small: "total s < 2 ^ 32"
  shows "\<exists>s'. point_step user k PRelease c s = Some (Ok s') \<and>
    (running n ready s' \<and> 0 < total s' \<or> stuck n ready s')"
proof -
  have sh: "shape n ready s" and act: "active s" and cb: "sys_control s = Block (of_nat (total s))"
    using run by (simp_all add: running_def)
  have len: "length (sys_threads s) = n" "length (sys_channels s) = n" using sh by (auto simp: shape_def)
  let ?t = "Running PRecv [] c :: ('i, 'f) thread"
  have ok: "thread_ok n ready k ?t" "\<not> ended ?t" using running_tokens(3) [OF run k(1)] k(2) by auto
  have "1 \<le> total s" using total_ge_thread [of k s] len k by simp
  then obtain m where m: "total s = Suc m" by (cases "total s") auto
  have rel: "release (sys_control s) = (if m = 0 then Ok (True, Freed ref_layout) else Ok (False, Block (of_nat m)))"
    using release_tracks [of "sys_control s" m] cb m small by (simp add: tracks_Block)
  show ?thesis
  proof (cases "m = 0")
    case True
    have "total s = thread_tokens (sys_threads s ! k)" using m True k by simp
    note z = all_zero [OF run k(1) this]
    have "stuck n ready (set_thread k ?t (s\<lparr>sys_control := Freed ref_layout\<rparr>))"
      unfolding stuck_def
    proof (intro conjI allI impI)
      fix j assume "j < n"
      then show "idle j (set_thread k ?t (s\<lparr>sys_control := Freed ref_layout\<rparr>))"
        using z(3) len by (cases "j = k") (auto simp: idle_def)
    qed (use z sh act ok in \<open>auto intro: shape_set_thread active_set_thread\<close>)
    then show ?thesis using rel True by (simp add: into_unowned_def)
  next
    case False
    then show ?thesis
      using running_set_thread [of n ready "s\<lparr>sys_control := Block (of_nat m)\<rparr>" k ?t m] sh act k ok m rel
      by (simp add: into_unowned_def)
  qed
qed

lemma handled_running:
  fixes s :: "('i, 'f, 'm) sys"
  assumes run: "running n ready s" and k: "k < n" "sys_threads s ! k = Running pt [] c" "point_tokens pt = 1"
    and small: "total s < 2 ^ 32"
  shows "\<exists>s'. handled_point k free c s = Ok s' \<and>
    (running n ready s' \<and> 0 < total s' \<or> stopping n ready k (ctx_links c) s')"
proof -
  have sh: "shape n ready s" and act: "active s" and cb: "sys_control s = Block (of_nat (total s))"
    using run by (simp_all add: running_def)
  have len: "length (sys_threads s) = n" "length (sys_channels s) = n" using sh by (auto simp: shape_def)
  have c: "ctx_rx c = k" "ctx_links c = links_for n k" using running_tokens(3) [OF run k(1)] k(2) by auto
  have "1 \<le> total s" using total_ge_thread [of k s] len k by simp
  then obtain m where m: "total s = Suc m" by (cases "total s") auto
  obtain b' where b': "fetch_sub 1 (sys_control s) = Ok (of_nat (Suc m), b')" "cb.tracks b' m"
    using cb.tracks_decr [of "sys_control s" m] cb m by (auto simp: tracks_Block)
  have last: "(of_nat (Suc m) :: u32) \<le> 1 \<longleftrightarrow> m = 0" using cb.last_one [of "Suc m"] small m by simp
  show ?thesis
  proof (cases "m = 0")
    case True
    let ?t = "Running (PStop (ctx_links c) free) [] c :: ('i, 'f) thread"
    let ?s = "set_thread k ?t (s\<lparr>sys_control := Block 0\<rparr>)"
    have "total s = thread_tokens (sys_threads s ! k)" using m True k by simp
    note z = all_zero [OF run k(1) this]
    have "stopping n ready k (ctx_links c) ?s"
      unfolding stopping_def
    proof (intro conjI allI impI)
      show "shape n ready ?s" by (rule shape_set_thread) (use sh c in auto)
      show "stopper k (ctx_links c) ?s" using k(1) len by (simp add: stopper_def)
      fix j assume "j < n" "j \<noteq> k"
      then show "follower j (ctx_links c) ?s"
        using z active_channel [OF act] len c(2) by (simp add: follower_def idle_set_thread) (simp add: idle_def)
    qed (use z k in auto)
    then show ?thesis using b' last True by (simp add: handled_point_def tracks_Block)
  next
    case False
    let ?t = "Running PRecv [] c :: ('i, 'f) thread"
    have "thread_ok n ready k ?t" "\<not> ended ?t" using c by auto
    then show ?thesis
      using running_set_thread [of n ready "s\<lparr>sys_control := Block (of_nat m)\<rparr>" k ?t m] sh act k m b' last False
      by (simp add: handled_point_def tracks_Block)
  qed
qed


lemma count_point_running:
  fixes s :: "('i, 'f, 'm) sys"
  assumes run: "running n ready s" and k: "k < n" "sys_threads s ! k = Running PCount [] c"
    and small: "total s < 2 ^ 32"
  shows "case count_point k c s of
      Ok s' \<Rightarrow> running n ready s' \<and> 0 < total s' \<or> stopping n ready k (ctx_links c) s'
    | Fault e \<Rightarrow> fault_excused build user k s"
proof -
  have sh: "shape n ready s" and act: "active s" and cb: "sys_control s = Block (of_nat (total s))"
    using run by (simp_all add: running_def)
  have c: "ctx_rx c = k" "ctx_links c = links_for n k" using running_tokens(3) [OF run k(1)] k(2) by auto
  have pos: "1 \<le> total s" using total_ge_thread [of k s] running_tokens(1) [OF run k(1)] k by simp
  show ?thesis
  proof (cases "cd_unsent (ctx_data c)")
    case Nil
    obtain s' where "handled_point k False c s = Ok s'"
      "running n ready s' \<and> 0 < total s' \<or> stopping n ready k (ctx_links c) s'"
      using handled_running [OF run k _ small, of False] by auto
    then show ?thesis using Nil by (simp add: count_point_def)
  next
    case (Cons x xs)
    let ?l = "cd_unsent (ctx_data c)"
    let ?ys = "if xs = [] then [x] else sort_key fst ?l"
    let ?t = "Running (PFlush ?ys) [] (clear_unsent c) :: ('i, 'f) thread"
    have "?ys \<noteq> []" using Cons by (auto dest: arg_cong [of _ _ length])
    then have t: "thread_ok n ready k ?t" "\<not> ended ?t" using c by (auto simp: clear_unsent_def)
    have len: "length ?ys = length ?l" using Cons by simp
    have set: "running n ready (set_thread k ?t (s\<lparr>sys_control := Block b\<rparr>)) \<and>
        total (set_thread k ?t (s\<lparr>sys_control := Block b\<rparr>)) = total s + length xs"
      if "b = of_nat (total s + length xs)" for b
      using running_set_thread [of n ready "s\<lparr>sys_control := Block b\<rparr>" k ?t "total s + length xs"]
        sh act k t that len Cons by simp
    show ?thesis
    proof (cases xs)
      case Nil
      then show ?thesis
        using running_set_thread [OF sh act k(1) t cb] k(2) pos Cons by (simp add: count_point_def)
    next
      case (Cons y ys)
      note l = \<open>?l = x # xs\<close> Cons
      show ?thesis
      proof (cases "(of_nat (length ?l) :: u32) = 0")
        case True
        then show ?thesis using l k(2)
          by (auto simp: count_point_def usub_def word_le_nat_alt fault_excused_def simp del: of_nat_Suc)
      next
        case False
        then have "usub (of_nat (length ?l) :: u32) 1 = Ok (of_nat (length ?l) - 1)"
          by (auto simp: usub_def word_le_nat_alt unat_gt_0 Suc_le_eq simp del: of_nat_Suc)
        moreover have "of_nat (length ?l) - 1 = (of_nat (length xs) :: u32)" using l by simp
        ultimately have "count_point k c s = Ok (set_thread k ?t (s\<lparr>sys_control := Block (of_nat (total s) + of_nat (length xs))\<rparr>))"
          using l cb by (simp add: count_point_def fetch_add_def del: of_nat_Suc length_Cons)
        then show ?thesis using set [of "of_nat (total s) + of_nat (length xs)"] pos by simp
      qed
    qed
  qed
qed

end
