(* ===== verification/Senders.thy ===== *)
theory Senders
  imports Counting
begin

text \<open>
  How many senders each channel has: at least the links and accessors that lead to it, so a
  receive that waits finds the channel connected.
\<close>

subsection \<open>Senders\<close>

text \<open>
  The senders of a channel: the links of the other threads, the accessors of its context, and
  the sender in \<open>make_tx\<close> while that exists.
\<close>

definition links_to :: "nat \<Rightarrow> ('i, 'f, 'm) sys \<Rightarrow> nat" where
  "links_to j s = card {i. i < length (sys_threads s) \<and> i \<noteq> j \<and> sys_threads s ! i \<noteq> Finished}"

definition live_to :: "nat \<Rightarrow> ('i, 'f, 'm) sys \<Rightarrow> nat" where
  "live_to j s = length (filter (\<lambda>a. acc_queue a = j) (sys_live s))"

definition senders_ok :: "('i, 'f, 'm) sys \<Rightarrow> bool" where
  "senders_ok s \<longleftrightarrow> (\<forall>j<length (sys_channels s).
     links_to j s + live_to j s + (if 0 < sys_make_tx s then 1 else 0) \<le> senders (sys_channels s ! j))"

lemma senders_ok_fields [simp]:
  "senders_ok (s\<lparr>sys_control := b\<rparr>) = senders_ok s" "senders_ok (s\<lparr>sys_mem := m\<rparr>) = senders_ok s"
  by (simp_all add: senders_ok_def links_to_def live_to_def)

lemma links_to_set_thread:
  assumes "k < length (sys_threads s)" "sys_threads s ! k \<noteq> Finished"
  shows "links_to j (set_thread k t s) = links_to j s - (if t = Finished \<and> j \<noteq> k then 1 else 0)"
    "j \<noteq> k \<Longrightarrow> 0 < links_to j s"
proof -
  let ?I = "{i. i < length (sys_threads s) \<and> i \<noteq> j \<and> sys_threads s ! i \<noteq> Finished}"
  have "{i. i < length (sys_threads (set_thread k t s)) \<and> i \<noteq> j \<and> sys_threads (set_thread k t s) ! i \<noteq> Finished} =
      (if t = Finished \<and> j \<noteq> k then ?I - {k} else ?I)"
    using assms by (auto simp: nth_list_update split: if_splits)
  moreover have "k \<in> ?I" if "j \<noteq> k" using assms that by simp
  ultimately show "links_to j (set_thread k t s) = links_to j s - (if t = Finished \<and> j \<noteq> k then 1 else 0)"
    by (auto simp: links_to_def)
  assume "j \<noteq> k"
  then have "?I \<noteq> {}" "finite ?I" using assms by auto
  then show "0 < links_to j s" by (simp add: links_to_def card_gt_0_iff)
qed

lemma live_to_set [simp]:
  "live_to j (set_thread k t s) = live_to j s" "live_to j (set_channel i ch s) = live_to j s"
  "links_to j (set_channel i ch s) = links_to j s"
  by (simp_all add: live_to_def links_to_def)

lemma senders_ok_set_thread:
  assumes "senders_ok s" "k < length (sys_threads s)" "sys_threads s ! k \<noteq> Finished"
  shows "senders_ok (set_thread k t s)"
  using assms(1) links_to_set_thread(1) [OF assms(2,3)] by (fastforce simp: senders_ok_def)

lemma senders_ok_set_channel:
  assumes "senders_ok s" "senders (sys_channels s ! j) \<le> senders ch"
  shows "senders_ok (set_channel j ch s)"
  unfolding senders_ok_def
proof (intro allI impI)
  fix i assume "i < length (sys_channels (set_channel j ch s))"
  then have "links_to i s + live_to i s + (if 0 < sys_make_tx s then 1 else 0) \<le> senders (sys_channels s ! i)"
    "i < length (sys_channels s)" using assms(1) unfolding senders_ok_def by auto
  then show "links_to i (set_channel j ch s) + live_to i (set_channel j ch s) +
      (if 0 < sys_make_tx (set_channel j ch s) then 1 else 0) \<le> senders (sys_channels (set_channel j ch s) ! i)"
    using assms(2) by (cases "i = j") auto
qed

lemma send_unwrap_Ok:
  "send_unwrap j item s = Ok s' \<Longrightarrow>
    s' = set_channel j ((sys_channels s ! j)\<lparr>pending := pending (sys_channels s ! j) @ [item]\<rparr>) s"
  by (auto simp: send_unwrap_def tx_send_def split: if_splits)

lemma senders_ok_send: "senders_ok s \<Longrightarrow> send_unwrap j item s = Ok s' \<Longrightarrow> senders_ok s'"
  by (auto dest!: send_unwrap_Ok intro: senders_ok_set_channel)

lemma drop_txs_nth:
  "distinct js \<Longrightarrow> \<forall>j \<in> set js. j < length chans \<Longrightarrow>
    length (drop_txs js chans) = length chans \<and>
    (\<forall>j<length chans. drop_txs js chans ! j = (if j \<in> set js then tx_drop (chans ! j) else chans ! j))"
  unfolding drop_txs_def
proof (induction js arbitrary: chans)
  case (Cons k js)
  then show ?case using Cons.IH [of "chans[k := tx_drop (chans ! k)]"] by (auto simp: nth_list_update)
qed simp

lemma senders_ok_exit:
  assumes "senders_ok s" "shape n ready s" "k < n" "sys_threads s ! k = Running PExit [] c"
    and "exit_point k c s = Ok s'"
  shows "senders_ok s'"
proof -
  let ?ch0 = "(sys_channels s)[k := rx_drop (sys_channels s ! k)]"
  let ?chans = "drop_txs (links_for n k) ?ch0"
  have c: "ctx_rx c = k" "ctx_links c = links_for n k"
    using shape_thread [OF assms(2,3)] assms(4) by auto
  have len: "length (sys_threads s) = n" "length (sys_channels s) = n" using assms(2) by (auto simp: shape_def)
  have s': "s' = set_thread k Finished (s\<lparr>sys_channels := ?chans\<rparr>)"
    using assms(5) c by (simp add: exit_point_def Let_def)
  have chans: "length ?chans = n"
    "\<And>j. j < n \<Longrightarrow> senders (?chans ! j) = senders (sys_channels s ! j) - (if j \<noteq> k then 1 else 0)"
    using drop_txs_nth [of "links_for n k" ?ch0] len by (auto simp: tx_drop_def rx_drop_def nth_list_update)
  have links: "links_to j s' = links_to j s - (if j \<noteq> k then 1 else 0)" for j
    using links_to_set_thread(1) [of k "s\<lparr>sys_channels := ?chans\<rparr>" j Finished] assms(3,4) len s'
    by (simp add: links_to_def)
  have pos: "j \<noteq> k \<Longrightarrow> 0 < links_to j s" for j
    by (rule links_to_set_thread(2) [of k]) (use assms(3,4) len in auto)
  have "live_to j s' = live_to j s" for j by (simp add: s' live_to_def)
  moreover have "sys_channels s' = ?chans" "sys_make_tx s' = sys_make_tx s" by (simp_all add: s')
  ultimately show ?thesis
    using assms(1) chans links pos len unfolding senders_ok_def
    by (auto simp: Suc_le_eq)
qed


lemma senders_ok_action:
  assumes ok: "senders_ok s" and step: "action_step a s = Some (Ok (bs, s'))"
  shows "senders_ok s'"
proof (cases a)
  case (AccClone x)
  then show ?thesis
    using step ok unfolding senders_ok_def
    by (fastforce simp: nth_list_update live_to_def links_to_def tx_clone_def)
next
  case (AccIncrement x m)
  then show ?thesis using step ok by (auto split: if_splits)
next
  case (AccPush x m)
  then show ?thesis using step senders_ok_send [OF ok] by auto
next
  case (AccDrop x)
  then obtain s1 where x: "x \<in> set (sys_live s)" and s1: "send_unwrap (acc_queue x) AccessorDropped s = Ok s1"
    and s': "s' = set_channel (acc_queue x) (tx_drop (sys_channels s1 ! acc_queue x))
        (s1\<lparr>sys_live := remove1 x (sys_live s1)\<rparr>)"
    using step available_live by (auto split: if_splits)
  have ok1: "senders_ok s1" by (rule senders_ok_send [OF ok s1])
  have live: "sys_live s1 = sys_live s" using send_unwrap_Ok [OF s1] by simp
  have rem: "live_to j s = live_to j s' + (if acc_queue x = j then 1 else 0)" for j
  proof -
    have "sys_live s' = remove1 x (sys_live s)" by (simp add: s' live)
    moreover have "length (filter P xs) = length (filter P (remove1 x xs)) + (if P x then 1 else 0)"
      if "x \<in> set xs" for P and xs :: "accessor list"
      using that by (induction xs) auto
    ultimately show ?thesis using x by (simp add: live_to_def)
  qed
  show ?thesis
    unfolding senders_ok_def
  proof (intro allI impI)
    fix j assume j: "j < length (sys_channels s')"
    have "links_to j s' = links_to j s1" "live_to j s1 = live_to j s" "sys_make_tx s' = sys_make_tx s1"
      using live by (simp_all add: s' links_to_def live_to_def)
    moreover have "senders (sys_channels s' ! j) =
        senders (sys_channels s1 ! j) - (if acc_queue x = j then 1 else 0)"
      using j by (simp add: s' tx_drop_def nth_list_update)
    moreover have "links_to j s1 + live_to j s1 + (if 0 < sys_make_tx s1 then 1 else 0) \<le> senders (sys_channels s1 ! j)"
      using ok1 j unfolding senders_ok_def by (simp add: s')
    ultimately show "links_to j s' + live_to j s' + (if 0 < sys_make_tx s' then 1 else 0) \<le> senders (sys_channels s' ! j)"
      using rem [of j] by auto
  qed
next
  case DropMakeTx
  then have s': "s' = s\<lparr>sys_make_tx := sys_make_tx s - 1,
     sys_channels := (if sys_make_tx s = 1 then map tx_drop (sys_channels s) else sys_channels s)\<rparr>"
    using step by simp
  show ?thesis
    unfolding senders_ok_def
  proof (intro allI impI)
    fix j assume j: "j < length (sys_channels s')"
    have "links_to j s' = links_to j s" "live_to j s' = live_to j s" by (simp_all add: s' links_to_def live_to_def)
    moreover have "senders (sys_channels s' ! j) = senders (sys_channels s ! j) - (if sys_make_tx s = 1 then 1 else 0)"
      using j by (auto simp: s' tx_drop_def)
    moreover have "links_to j s + live_to j s + (if 0 < sys_make_tx s then 1 else 0) \<le> senders (sys_channels s ! j)"
      using ok j unfolding senders_ok_def by (simp add: s' split: if_splits)
    ultimately show "links_to j s' + live_to j s' + (if 0 < sys_make_tx s' then 1 else 0) \<le> senders (sys_channels s' ! j)"
      by (auto simp: s')
  qed
qed

lemma senders_ok_recv:
  assumes "rx_recv (sys_channels s ! j) = Some (x, ch)"
  shows "senders ch = senders (sys_channels s ! j)"
  using assms by (auto simp: rx_recv_def split: list.splits if_splits)

lemma senders_ok_point:
  assumes ok: "senders_ok s" and sh: "shape n ready s" and k: "k < n" "sys_threads s ! k = Running pt [] c"
    and step: "point_step user k pt c s = Some (Ok s')"
  shows "senders_ok s'"
proof -
  have st: "senders_ok (set_thread k t s1)"
    if "senders_ok s1" "sys_threads s1 = sys_threads s" for t s1
    by (rule senders_ok_set_thread [OF that(1)]) (use that k sh in \<open>auto simp: shape_def\<close>)
  have run: "senders_ok s2" if "after_run k p s1 r = Ok s2" "senders_ok s1" "sys_threads s1 = sys_threads s" for p s1 r s2
    using that by (auto simp: after_run_def intro!: st)
  have drain: "senders_ok s'" if "drain_point user k p q c s = Ok s'" for p q
    using that st [OF ok] run [OF _ ok] by (auto simp: drain_point_def split: option.splits)
  have handled: "senders_ok s'" if "handled_point k free c s = Ok s'" for free
    using that by (auto simp: handled_point_def intro!: st ok)
  have send: "senders_ok (set_thread k t s1)" if "send_unwrap l item s = Ok s1" for l item s1 t
    using senders_ok_send [OF ok that] send_unwrap_Ok [OF that] by (auto intro!: st)
  show ?thesis
  proof (cases pt)
    case PRecv
    then obtain item ch where recv: "rx_recv (sys_channels s ! ctx_rx c) = Some (Some item, ch)"
      using step by (auto simp: recv_point_def split: option.splits prod.splits)
    then have ch: "senders_ok (set_channel (ctx_rx c) ch s)"
      using senders_ok_recv [OF recv] ok by (intro senders_ok_set_channel) auto
    show ?thesis
    proof (cases item)
      case (Msg m)
      then have "after_run k PHandled (set_channel (ctx_rx c) ch s) (run_msg user m (sys_mem s) c) = Ok s'"
        using step PRecv recv by (simp add: recv_point_def)
      from run [OF this ch] show ?thesis by simp
    qed (use step PRecv recv st [OF ch] in \<open>auto simp: recv_point_def\<close>)
  next
    case PCount
    then show ?thesis
      using step handled by (auto simp: count_point_def split: list.splits intro!: st ok)
  next
    case (PFlush xs)
    then show ?thesis using step by (cases xs) (auto intro: send st ok)
  next
    case (PStop ls free)
    show ?thesis
    proof (cases ls)
      case Nil
      then show ?thesis using step PStop by (auto split: if_splits intro!: st ok)
    qed (use step PStop in \<open>auto intro: send\<close>)
  next
    case PExit
    then show ?thesis using step senders_ok_exit [OF ok sh k(1)] k(2) by simp
  qed (use step drain handled in \<open>auto intro!: st ok\<close>)
qed

lemma senders_ok_step:
  assumes "senders_ok s" "shape n ready s" "thread_step build user k s = Some (Ok s')"
  shows "senders_ok s'"
proof -
  have k: "k < n" using assms(2,3) by (auto simp: thread_step_def shape_def split: if_splits)
  have len: "length (sys_threads s) = n" using assms(2) by (simp add: shape_def)
  show ?thesis
  proof (cases "sys_threads s ! k")
    case (Waiting i)
    then show ?thesis using assms k len
      by (auto simp: thread_step_def after_run_def intro!: senders_ok_set_thread)
  next
    case (Running pt as c)
    show ?thesis
    proof (cases as)
      case Nil
      then show ?thesis using senders_ok_point [OF assms(1,2) k] Running assms(3) k len
        by (simp add: thread_step_def)
    next
      case (Cons a bs)
      then obtain cs s1 where s1: "action_step a s = Some (Ok (cs, s1))"
        and s': "s' = set_thread k (Running pt (cs @ bs) c) s1"
        using assms(3) k len Running by (auto simp: thread_step_def)
      have "sys_threads s1 = sys_threads s"
        using s1 by (cases a) (auto simp: split: if_splits dest: send_unwrap_Ok)
      then show ?thesis
        using senders_ok_action [OF assms(1) s1] s' k len Running by (auto intro: senders_ok_set_thread)
    qed
  next
    case Finished
    then show ?thesis using assms(3) k len by (simp add: thread_step_def)
  qed
qed

end
