(* ===== verification/Invariant.thy ===== *)
theory Invariant
  imports Senders
begin

text \<open>
  The invariant of all reachable states, \<open>sys_inv\<close>: the channels have their senders, and the
  process is running, stuck or stopping. Every step keeps it, and a step that faults does so
  for one of the reasons of \<open>fault_excused\<close>.
\<close>

subsection \<open>The invariant and its preservation\<close>

lemma other_thread_links:
  "i < length (sys_threads s) \<Longrightarrow> i \<noteq> j \<Longrightarrow> sys_threads s ! i \<noteq> Finished \<Longrightarrow> 0 < links_to j s"
  using links_to_set_thread(2) [of i s j] by simp

lemma senders_pos:
  assumes "senders_ok s" "j < length (sys_channels s)" "0 < links_to j s \<or> 0 < live_to j s"
  shows "senders (sys_channels s ! j) \<noteq> 0"
proof -
  have "links_to j s + live_to j s \<le> senders (sys_channels s ! j)"
    using assms(1,2) unfolding senders_ok_def by (meson add_leD1)
  then show ?thesis using assms(3) by auto
qed

lemma running_senders:
  assumes run: "running n ready s" "0 < total s" "senders_ok s" and k: "k < n"
    and wait: "thread_tokens (sys_threads s ! k) = 0" "pending (sys_channels s ! k) = []"
  shows "senders (sys_channels s ! k) \<noteq> 0"
proof (rule senders_pos [OF run(3)])
  have len: "length (sys_threads s) = n" "length (sys_channels s) = n"
    and live: "\<forall>a \<in> set (sys_live s). acc_queue a < n" and act: "active s"
    using run(1) by (auto simp: running_def shape_def)
  show "k < length (sys_channels s)" using k len by simp
  show "0 < links_to k s \<or> 0 < live_to k s"
  proof (cases "n = 1")
    case True
    have "sys_live s \<noteq> []"
    proof
      assume "sys_live s = []"
      then have "\<forall>a. borrowed a s = 0" "\<forall>a \<in> set (sys_outside s). outside_ok n a"
        using run(1) by (auto simp: running_def shape_def)
      then have "action_tokens a = 0" if "a \<in> set (sys_outside s)" for a
        using that by (cases a) (auto simp: borrowed_def filter_empty_conv dest!: bspec)
      moreover have "thread_tokens t = 0" if "t \<in> set (sys_threads s)" for t
        using that len True k wait(1) by (auto simp: in_set_conv_nth)
      moreover have "chan_tokens ch = 0" if "ch \<in> set (sys_channels s)" for ch
        using that len True k wait(2) by (auto simp: in_set_conv_nth chan_tokens_def)
      ultimately show False using run(2) \<open>sys_live s = []\<close> total_0 [of s] by simp
    qed
    then obtain a where "a \<in> set (sys_live s)" by (cases "sys_live s") auto
    then have "a \<in> set (filter (\<lambda>a. acc_queue a = k) (sys_live s))" using live True k by auto
    then have "filter (\<lambda>a. acc_queue a = k) (sys_live s) \<noteq> []" by (metis empty_iff empty_set)
    then show ?thesis by (simp add: live_to_def)
  next
    case False
    then obtain i where i: "i < n" "i \<noteq> k" using k by (metis less_one linorder_neqE_nat not_less_eq less_Suc_eq)
    then have "sys_threads s ! i \<noteq> Finished" using act len by (auto simp: active_def all_set_conv_all_nth)
    then show ?thesis using other_thread_links [of i s k] i len by simp
  qed
qed

lemma recv_point_running:
  fixes s :: "('i, 'f, 'm) sys"
  assumes run: "running n ready s" "0 < total s" "senders_ok s"
    and k: "k < n" "sys_threads s ! k = Running PRecv [] c"
    and step: "recv_point user k c s = Some r"
  shows "case r of Ok s' \<Rightarrow> running n ready s' \<and> total s' = total s
    | Fault e \<Rightarrow> fault_excused build user k s"
proof -
  have sh: "shape n ready s" and act: "active s" and cb: "sys_control s = Block (of_nat (total s))"
    using run by (simp_all add: running_def)
  have len: "length (sys_threads s) = n" "length (sys_channels s) = n" using sh by (auto simp: shape_def)
  have c: "ctx_rx c = k" "ctx_links c = links_for n k" using running_tokens(3) [OF run(1) k(1)] k(2) by auto
  let ?ch = "sys_channels s ! k"
  have "pending ?ch \<noteq> []"
  proof
    assume e: "pending ?ch = []"
    then have "senders ?ch \<noteq> 0" by (intro running_senders [OF run k(1)]) (simp_all add: k)
    then show False using step e c by (simp add: recv_point_def rx_recv_def)
  qed
  then obtain item rest where p: "pending ?ch = item # rest" by (cases "pending ?ch") auto
  let ?s = "set_channel k (?ch\<lparr>pending := rest\<rparr>) s"
  have recv: "rx_recv ?ch = Some (Some item, ?ch\<lparr>pending := rest\<rparr>)" using p by (simp add: rx_recv_def)
  have nstop: "receiver_alive ?ch" "item \<noteq> Stop" "Stop \<notin> set rest" using active_channel [OF act] k len p by force+
  have sh': "shape n ready ?s" by (rule shape_set_channel [OF sh])
  have act': "active ?s" by (rule active_set_channel [OF act]) (use nstop in simp_all)
  have tot: "total ?s + 1 = total s"
    using total_set_channel [of k s "?ch\<lparr>pending := rest\<rparr>"] k len p nstop by (simp add: chan_tokens_def)
  show ?thesis
  proof (cases item)
    case (Msg m)
    then have r: "r = after_run k PHandled ?s (run_msg user m (sys_mem s) c)"
      using step recv c by (simp add: recv_point_def)
    show ?thesis
    proof (cases "run_msg user m (sys_mem s) c")
      case (Inl e)
      then show ?thesis using r k(2) p Msg by (auto simp: after_run_def fault_excused_def)
    next
      case (Inr x)
      obtain mem' c' as where x: "x = (mem', c', as)" by (cases x)
      have "running n ready (set_thread k (Running PHandled as c') (?s\<lparr>sys_mem := mem'\<rparr>)) \<and>
          total (set_thread k (Running PHandled as c') (?s\<lparr>sys_mem := mem'\<rparr>)) = total s"
        by (rule after_run_running [OF sh' act' k(1), of "total s" PHandled user m c])
          (use cb tot k Inr x c in auto)
      then show ?thesis using r Inr x by (simp add: after_run_def)
    qed
  next
    case AccessorDropped
    let ?t = "Running PDropped [] c :: ('i, 'f) thread"
    have "thread_ok n ready k ?t" "\<not> ended ?t" using c by auto
    then show ?thesis
      using running_set_thread [OF sh' act' k(1), of ?t "total s"] AccessorDropped step recv c cb tot k(2)
      by (auto simp: recv_point_def)
  qed (use nstop in auto)
qed

definition sys_inv where
  "sys_inv n ready s \<longleftrightarrow> senders_ok s \<and>
     (running n ready s \<and> 0 < total s \<or> stuck n ready s \<or> (\<exists>k ls. stopping n ready k ls s))"

lemma sys_inv_shape: "sys_inv n ready s \<Longrightarrow> shape n ready s"
  by (auto simp: sys_inv_def running_def stuck_def stopping_def)

text \<open>The steps while the runtime is running.\<close>

lemma running_point_step:
  assumes run: "running n ready s" "0 < total s" "senders_ok s"
    and k: "k < n" "sys_threads s ! k = Running pt [] c"
    and small: "total s < 2 ^ 32" and step: "point_step user k pt c s = Some r"
  shows "case r of Ok s' \<Rightarrow> running n ready s' \<and> 0 < total s' \<or> stuck n ready s' \<or> (\<exists>k ls. stopping n ready k ls s')
    | Fault e \<Rightarrow> fault_excused build user k s"
proof (cases pt)
  case PDrain
  then show ?thesis
    using drain_point_running [OF run(1) k(1), where build = build and user = user and pt = PDrain and c = c and nxt = PRelease] k step run(2) by (auto split: sum.splits)
next
  case PHandled
  then show ?thesis
    using drain_point_running [OF run(1) k(1), where build = build and user = user and pt = PHandled and c = c and nxt = PCount] k step run(2) by (auto split: sum.splits)
next
  case PRelease
  then show ?thesis using release_running [OF run(1) k(1) _ small, of c user] k step by auto
next
  case PRecv
  then show ?thesis
    using recv_point_running [OF run k(1), where build = build and user = user and r = r and c = c] k step run(2) by (auto split: sum.splits)
next
  case PCount
  then show ?thesis
    using count_point_running [OF run(1) k(1) _ small, where build = build and user = user and c = c] k step by (auto split: sum.splits)
next
  case (PFlush xs)
  then show ?thesis
    using flush_point_running [OF run(1) k(1), where build = build and user = user and xs = xs and c = c] k step run(2) by (auto split: sum.splits)
next
  case PDropped
  then show ?thesis using handled_running [OF run(1) k _ small, of True] step by auto
next
  case (PStop ls free)
  then show ?thesis using running_tokens(4) [OF run(1) k(1)] k by simp
next
  case PExit
  then show ?thesis using running_tokens(4) [OF run(1) k(1)] k by simp
qed

lemma running_step:
  fixes s :: "('i, 'f, 'm) sys"
  assumes run: "running n (builds n build) s" "0 < total s" "senders_ok s"
    and small: "total s < 2 ^ 32" and step: "thread_step build user k s = Some r"
  shows "case r of
      Ok s' \<Rightarrow> running n (builds n build) s' \<and> 0 < total s' \<or> stuck n (builds n build) s' \<or>
        (\<exists>k ls. stopping n (builds n build) k ls s')
    | Fault e \<Rightarrow> fault_excused build user k s"
proof -
  have sh: "shape n (builds n build) s" and act: "active s" and cb: "sys_control s = Block (of_nat (total s))"
    using run by (simp_all add: running_def)
  have len: "length (sys_threads s) = n" using sh by (auto simp: shape_def)
  have k: "k < n" using step len by (simp add: thread_step_def split: if_splits)
  have ok: "thread_ok n (builds n build) k (sys_threads s ! k)" by (rule running_tokens(3) [OF run(1) k])
  show ?thesis
  proof (cases "sys_threads s ! k")
    case (Waiting i)
    then have r: "r = after_run k PDrain s (build i (sys_mem s))" using step k len by (simp add: thread_step_def)
    show ?thesis
    proof (cases "build i (sys_mem s)")
      case (Inl e)
      then show ?thesis using r Waiting by (simp add: after_run_def fault_excused_def)
    next
      case (Inr x)
      obtain mem' c as where x: "x = (mem', c, as)" by (cases x)
      let ?t = "Running PDrain as c :: ('i, 'f) thread"
      have b: "ctx_rx c = k" "ctx_links c = links_for n k" "\<forall>a \<in> set as. action_ok n a \<and> action_tokens a = 0"
        using ok Waiting Inr x by (auto simp: builds_def)
      then have t: "thread_ok n (builds n build) k ?t" "\<not> ended ?t" "thread_tokens ?t = 1"
        by (auto simp: sum_list_eq_0_iff)
      then show ?thesis
        using running_set_thread [of n "builds n build" "s\<lparr>sys_mem := mem'\<rparr>" k ?t "total s"]
          sh act k cb Waiting r Inr x run(2) by (simp add: after_run_def)
    qed
  next
    case (Running pt as c)
    show ?thesis
    proof (cases as)
      case Nil
      then show ?thesis
        using running_point_step [OF run k _ small, where build = build and user = user and pt = pt and c = c and r = r] Running step k len
        by (simp add: thread_step_def)
    next
      case (Cons a bs)
      then obtain r1 where "action_step a s = Some r1"
        and r: "r = rbind r1 (\<lambda>(cs, s'). Ok (set_thread k (Running pt (cs @ bs) c) s'))"
        using step Running k len by (auto simp: thread_step_def)
      from action_running [OF run(1) k _ this(1), of pt bs c] Running Cons
      show ?thesis using run(2) r by auto
    qed
  next
    case Finished
    then show ?thesis using step k len by (simp add: thread_step_def)
  qed
qed

subsection \<open>Shutdown\<close>

text \<open>The channels after a thread has ended: its own is closed, the others only lose a sender.\<close>

lemma exit_point_Ok:
  fixes s :: "('i, 'f, 'm) sys"
  assumes "shape n ready s" "k < n" "sys_threads s ! k = Running PExit [] c"
  shows "case exit_point k c s of
      Fault e \<Rightarrow> \<not> is_ok (context_drop c)
    | Ok s' \<Rightarrow> sys_threads s' = (sys_threads s)[k := Finished] \<and> sys_control s' = sys_control s \<and>
        sys_live s' = sys_live s \<and> sys_outside s' = sys_outside s \<and> length (sys_channels s') = n \<and> pending (sys_channels s' ! k) = [] \<and>
        (\<forall>j<n. j \<noteq> k \<longrightarrow> pending (sys_channels s' ! j) = pending (sys_channels s ! j) \<and>
           receiver_alive (sys_channels s' ! j) = receiver_alive (sys_channels s ! j)) \<and> shape n ready s'"
proof (cases "context_drop c")
  case (Inr u)
  let ?ch0 = "(sys_channels s)[k := rx_drop (sys_channels s ! k)]"
  let ?chans = "drop_txs (links_for n k) ?ch0"
  have c: "ctx_rx c = k" "ctx_links c = links_for n k" using shape_thread [OF assms(1,2)] assms(3) by auto
  have len: "length (sys_channels s) = n" using assms(1) by (auto simp: shape_def)
  have s': "exit_point k c s = Ok (set_thread k Finished (s\<lparr>sys_channels := ?chans\<rparr>))"
    using Inr c by (simp add: exit_point_def Let_def)
  have chans: "length ?chans = n" "\<And>j. j < n \<Longrightarrow> ?chans ! j = (if j \<noteq> k then tx_drop (sys_channels s ! j) else rx_drop (sys_channels s ! k))"
    using drop_txs_nth [of "links_for n k" ?ch0] len by (auto simp: nth_list_update)
  have "shape n ready (s\<lparr>sys_channels := ?chans\<rparr>)" using assms(1) chans(1) by (simp add: shape_def)
  then have "shape n ready (set_thread k Finished (s\<lparr>sys_channels := ?chans\<rparr>))" by (rule shape_set_thread) simp
  then show ?thesis using s' chans assms(2) by (auto simp: tx_drop_def rx_drop_def)
qed (simp add: exit_point_def)

lemma idle_other [simp]:
  "i \<noteq> j \<Longrightarrow> idle i (set_thread j t s) = idle i s" "idle i (set_channel l ch s) = idle i s"
  "idle i (s\<lparr>sys_control := b\<rparr>) = idle i s"
  "i \<noteq> j \<Longrightarrow> leaving i (set_thread j t s) = leaving i s" "leaving i (set_channel l ch s) = leaving i s"
  "leaving i (s\<lparr>sys_control := b\<rparr>) = leaving i s"
  by (simp_all add: idle_def leaving_def)

lemma follower_other:
  "i \<noteq> j \<Longrightarrow> follower i ls (set_thread j t s) = follower i ls s"
  "i \<noteq> l \<Longrightarrow> follower i ls (set_channel l ch s) = follower i ls s"
  "follower i ls (s\<lparr>sys_control := b\<rparr>) = follower i ls s"
  by (simp_all add: follower_def)

lemma stopper_other:
  "k \<noteq> j \<Longrightarrow> stopper k ls (set_thread j t s) = stopper k ls s"
  "stopper k ls (set_channel l ch s) = stopper k ls s"
  by (simp_all add: stopper_def)

lemma stop_point_stopping:
  fixes s :: "('i, 'f, 'm) sys"
  assumes st: "stopping n ready k ls s" and k: "sys_threads s ! k = Running (PStop ls free) [] c"
    and step: "stop_point k ls free c s = r"
  shows "\<exists>s'. r = Ok s' \<and> stopping n ready k (tl ls) s'"
proof -
  have sh: "shape n ready s" and kn: "k < n" and live: "sys_live s = []"
    and out: "\<forall>a \<in> set (sys_outside s). action_tokens a = 0" and pend: "pending (sys_channels s ! k) = []"
    and cb: "sys_control s = Block 0" and fol: "\<forall>j<n. j \<noteq> k \<longrightarrow> follower j ls s"
    using st k by (auto simp: stopping_def stopper_def leaving_def)
  have len: "length (sys_threads s) = n" "length (sys_channels s) = n" using sh by (auto simp: shape_def)
  have ok: "thread_ok n ready k (Running (PStop ls free) [] c)" using shape_thread [OF sh kn] k by simp
  show ?thesis
  proof (cases ls)
    case Nil
    let ?t = "Running PExit [] c :: ('i, 'f) thread"
    have "stopping n ready k [] (set_thread k ?t (s\<lparr>sys_control := Freed cb_layout\<rparr>))"
      using sh kn live out pend fol len ok Nil
      by (auto simp: stopping_def stopper_def leaving_def follower_other intro!: shape_set_thread)
    moreover have "stopping n ready k [] (set_thread k ?t s)"
      using sh kn live out pend fol len ok Nil cb
      by (auto simp: stopping_def stopper_def leaving_def follower_other intro!: shape_set_thread)
    ultimately show ?thesis using step Nil cb by (auto simp: cb_dealloc_def)
  next
    case (Cons l rest)
    have l: "l < n" "l \<noteq> k" "l \<notin> set rest" using ok Cons by auto
    have fl: "idle l s" "pending (sys_channels s ! l) = []" "receiver_alive (sys_channels s ! l)"
      using fol l Cons by (auto simp: follower_def)
    let ?ch = "(sys_channels s ! l)\<lparr>pending := [Stop]\<rparr>"
    let ?t = "Running (PStop rest free) [] c :: ('i, 'f) thread"
    let ?s = "set_thread k ?t (set_channel l ?ch s)"
    have "r = Ok ?s" using step Cons fl by (simp add: send_unwrap_def tx_send_def)
    moreover have "stopping n ready k rest ?s"
      unfolding stopping_def
    proof (intro conjI allI impI)
      show "shape n ready ?s" by (rule shape_set_thread [OF shape_set_channel [OF sh]]) (use ok Cons in auto)
      show "stopper k rest ?s" using kn len cb by (simp add: stopper_def)
      fix j assume j: "j < n" "j \<noteq> k"
      show "follower j rest ?s"
      proof (cases "j = l")
        case True
        then show ?thesis using fl l len j by (simp add: follower_def)
      next
        case False
        then show ?thesis using fol j Cons by (auto simp: follower_def)
      qed
    qed (use kn live out pend l in auto)
    ultimately show ?thesis using Cons by simp
  qed
qed

text \<open>A step of any thread while the runtime stops.\<close>

lemma stopping_step:
  fixes s :: "('i, 'f, 'm) sys"
  assumes st: "stopping n ready k ls s" "senders_ok s" and step: "thread_step build user j s = Some r"
  shows "case r of Ok s' \<Rightarrow> \<exists>ls'. stopping n ready k ls' s' | Fault e \<Rightarrow> fault_excused build user j s"
proof -
  have sh: "shape n ready s" and kn: "k < n" and live: "sys_live s = []"
    and out: "\<forall>a \<in> set (sys_outside s). action_tokens a = 0" and pend: "pending (sys_channels s ! k) = []"
    and stk: "stopper k ls s" and fol: "\<forall>j<n. j \<noteq> k \<longrightarrow> follower j ls s"
    using st by (auto simp: stopping_def)
  have len: "length (sys_threads s) = n" "length (sys_channels s) = n" using sh by (auto simp: shape_def)
  have j: "j < n" using step len by (simp add: thread_step_def split: if_splits)
  have exit: ?thesis if e: "sys_threads s ! j = Running PExit [] c" for c
  proof -
    have r: "r = exit_point j c s" using step e j len by (simp add: thread_step_def)
    show ?thesis
    proof (cases "exit_point j c s")
      case (Inl f)
      then show ?thesis using exit_point_Ok [OF sh j e] r e by (simp add: fault_excused_def)
    next
      case (Inr s')
      note f = exit_point_Ok [OF sh j e, unfolded Inr, simplified]
      have other: "follower i ls s' = follower i ls s" if "i < n" "i \<noteq> j" for i
        using f that by (simp add: follower_def idle_def leaving_def)
      have fin: "leaving j s'" using f j len by (simp add: leaving_def)
      have "stopper k ls s'"
      proof (cases "j = k")
        case True
        then show ?thesis using stk e fin f by (auto simp: stopper_def)
      qed (use stk f in \<open>simp add: stopper_def leaving_def\<close>)
      moreover have "pending (sys_channels s' ! k) = []" using f pend kn by (cases "j = k") auto
      moreover have "\<forall>i<n. i \<noteq> k \<longrightarrow> follower i ls s'"
      proof (intro allI impI)
        fix i assume i: "i < n" "i \<noteq> k"
        show "follower i ls s'"
        proof (cases "i = j")
          case True
          then have "j \<notin> set ls" using fol i e by (auto simp: follower_def idle_def)
          then show ?thesis using True fin f by (auto simp: follower_def)
        qed (use fol i other in auto)
      qed
      ultimately have "stopping n ready k ls s'" using f kn live out by (simp add: stopping_def)
      then show ?thesis using r Inr by auto
    qed
  qed
  show ?thesis
  proof (cases "j = k")
    case True
    from stk consider free c where "sys_threads s ! k = Running (PStop ls free) [] c" | "leaving k s"
      by (auto simp: stopper_def)
    then show ?thesis
    proof cases
      case 1
      then have "stop_point k ls free c s = r" using step True j len by (simp add: thread_step_def)
      from stop_point_stopping [OF st(1) 1 this] show ?thesis by auto
    next
      case 2
      then show ?thesis using exit True step j len by (auto simp: leaving_def thread_step_def)
    qed
  next
    case False
    then have "follower j ls s" using fol j by simp
    then consider c where "sys_threads s ! j = Running PRecv [] c"
        "pending (sys_channels s ! j) = (if j \<in> set ls then [] else [Stop])" "receiver_alive (sys_channels s ! j)"
      | "leaving j s" by (auto simp: follower_def idle_def)
    then show ?thesis
    proof cases
      case 1
      have c: "ctx_rx c = j" "ctx_links c = links_for n j" using shape_thread [OF sh j] 1 by auto
      have r: "recv_point user j c s = Some r" using step 1 j len by (simp add: thread_step_def)
      have "j \<notin> set ls"
      proof
        assume "j \<in> set ls"
        then have p: "pending (sys_channels s ! j) = []" and "sys_threads s ! k \<noteq> Finished"
          using 1 stk by (auto simp: stopper_def)
        then have "0 < links_to j s" using other_thread_links [of k s j] kn len False by simp
        then have "senders (sys_channels s ! j) \<noteq> 0" using senders_pos [OF st(2)] j len by simp
        then show False using r p c by (simp add: recv_point_def rx_recv_def)
      qed
      then have p: "pending (sys_channels s ! j) = [Stop]" using 1 by simp
      let ?t = "Running PExit [] c :: ('i, 'f) thread"
      let ?s = "set_thread j ?t (set_channel j ((sys_channels s ! j)\<lparr>pending := []\<rparr>) s)"
      have "r = Ok ?s" using r p c by (simp add: recv_point_def rx_recv_def)
      moreover have "stopping n ready k ls ?s"
        unfolding stopping_def
      proof (intro conjI allI impI)
        show "shape n ready ?s" by (rule shape_set_thread [OF shape_set_channel [OF sh]]) (use c in auto)
        show "stopper k ls ?s" using stk False by (simp add: stopper_other)
        fix i assume i: "i < n" "i \<noteq> k"
        show "follower i ls ?s"
        proof (cases "i = j")
          case True
          then show ?thesis using \<open>j \<notin> set ls\<close> j len by (simp add: follower_def leaving_def)
        qed (use fol i in \<open>simp add: follower_other\<close>)
      qed (use kn live out pend False in auto)
      ultimately show ?thesis by auto
    next
      case 2
      then show ?thesis using exit step j len by (auto simp: leaving_def thread_step_def)
    qed
  qed
qed

text \<open>No thread steps when the runtime is stuck, but the only one, whose receive fails.\<close>

lemma stuck_step:
  assumes st: "stuck n ready s" "senders_ok s" and step: "thread_step build user j s = Some r"
  shows "n = 1 \<and> r = Fault UnwrapFailed \<and> fault_excused build user j s"
proof -
  have sh: "shape n ready s" and idle: "\<forall>j<n. idle j s \<and> pending (sys_channels s ! j) = []"
    and cb: "sys_control s = Freed ref_layout"
    using st by (auto simp: stuck_def)
  have len: "length (sys_threads s) = n" "length (sys_channels s) = n" using sh by (auto simp: shape_def)
  have j: "j < n" using step len by (simp add: thread_step_def split: if_splits)
  obtain c where c: "sys_threads s ! j = Running PRecv [] c" "ctx_rx c = j"
    using idle j shape_thread [OF sh j] by (auto simp: idle_def)
  have r: "recv_point user j c s = Some r" using step c j len by (simp add: thread_step_def)
  have p: "pending (sys_channels s ! j) = []" using idle j by simp
  have n: "n = 1"
  proof (rule ccontr)
    assume "n \<noteq> 1"
    then obtain i where i: "i < n" "i \<noteq> j" using j by (metis less_one linorder_neqE_nat not_less_eq less_Suc_eq)
    then have "sys_threads s ! i \<noteq> Finished" using idle by (auto simp: idle_def)
    then have "0 < links_to j s" using other_thread_links [of i s j] i len by simp
    then have "senders (sys_channels s ! j) \<noteq> 0" using senders_pos [OF st(2)] j len by simp
    then show False using r p c by (simp add: recv_point_def rx_recv_def)
  qed
  have "r = Fault UnwrapFailed" using r p c by (auto simp: recv_point_def rx_recv_def split: if_splits)
  then show ?thesis using n c cb len by (simp add: fault_excused_def)
qed

lemma sys_inv_step:
  assumes inv: "sys_inv n (builds n build) s" and small: "total s < 2 ^ 32"
    and step: "thread_step build user k s = Some r"
  shows "case r of Ok s' \<Rightarrow> sys_inv n (builds n build) s' | Fault e \<Rightarrow> fault_excused build user k s"
proof -
  have snd: "senders_ok s" using inv by (simp add: sys_inv_def)
  have "case r of Ok s' \<Rightarrow> running n (builds n build) s' \<and> 0 < total s' \<or> stuck n (builds n build) s' \<or>
        (\<exists>k ls. stopping n (builds n build) k ls s')
      | Fault e \<Rightarrow> fault_excused build user k s"
    using inv unfolding sys_inv_def
  proof (elim conjE disjE exE)
    assume "running n (builds n build) s" "0 < total s"
    from running_step [OF this snd small step] show ?thesis .
  next
    assume "stuck n (builds n build) s"
    from stuck_step [OF this snd step] show ?thesis by simp
  next
    fix j ls assume "stopping n (builds n build) j ls s"
    from stopping_step [OF this snd step] show ?thesis by (auto split: sum.splits)
  qed
  then show ?thesis
    using senders_ok_step [OF snd sys_inv_shape [OF inv]] step by (auto simp: sys_inv_def split: sum.splits)
qed

text \<open>Threads outside the runtime never fault, and have nothing to do once it stops.\<close>

lemma outside_quiet:
  assumes "sys_live s = []" "\<forall>a \<in> set (sys_outside s). action_tokens a = 0" "shape n ready s"
  shows "outside_step e s = None"
proof (cases e)
  case (OutStep i)
  have "action_step (sys_outside s ! i) s = None" if "i < length (sys_outside s)"
  proof -
    have "outside_ok n (sys_outside s ! i)" "action_tokens (sys_outside s ! i) = 0"
      using assms(2,3) nth_mem [OF that] by (auto simp: shape_def)
    then show ?thesis using assms(1)
      by (cases "sys_outside s ! i") (auto simp: outside_ok_def handler_action_def available_def)
  qed
  then show ?thesis using OutStep by simp
qed (use assms(1) in auto)

lemma senders_ok_outside:
  assumes "senders_ok s" "outside_step e s = Some (Ok s')"
  shows "senders_ok s'"
  using assms by (cases e) (auto simp: senders_ok_def links_to_def live_to_def split: if_splits
      dest!: senders_ok_action [OF assms(1)])

lemma sys_inv_outside:
  assumes inv: "sys_inv n ready s" and step: "outside_step e s = Some r"
  shows "\<exists>s'. r = Ok s' \<and> sys_inv n ready s'"
proof -
  have snd: "senders_ok s" using inv by (simp add: sys_inv_def)
  from inv have "running n ready s \<and> 0 < total s"
    using outside_quiet step unfolding sys_inv_def stuck_def stopping_def by fastforce
  then obtain s' where "r = Ok s'" "running n ready s'" "0 < total s'"
    using outside_running [OF _ step] by fastforce
  then show ?thesis using senders_ok_outside [OF snd] step by (auto simp: sys_inv_def)
qed

end
