(* ===== verification/Runs.thy ===== *)
theory Runs
  imports Invariant
begin

text \<open>
  Runs of the program from its start, and what the invariant says of them.
\<close>

subsection \<open>Runs of the program\<close>

text \<open>
  The states reached from \<open>s0\<close> while there are fewer than \<open>2 ^ 32\<close> events: beyond that the
  counter wraps around.
\<close>

inductive reachable ::
    "('i \<Rightarrow> 'm \<Rightarrow> ('m \<times> 'f actor_context \<times> 'f action list) res) \<Rightarrow> ('f, 'm) user \<Rightarrow>
     ('i, 'f, 'm) sys \<Rightarrow> ('i, 'f, 'm) sys \<Rightarrow> bool" for build user s0 where
  here: "total s0 < 2 ^ 32 \<Longrightarrow> reachable build user s0 s0"
| step: "reachable build user s0 s \<Longrightarrow> thread_step build user k s = Some (Ok t) \<Longrightarrow> total t < 2 ^ 32 \<Longrightarrow>
    reachable build user s0 t"
| outside: "reachable build user s0 s \<Longrightarrow> outside_step e s = Some (Ok t) \<Longrightarrow> total t < 2 ^ 32 \<Longrightarrow>
    reachable build user s0 t"

lemma reachable_inv:
  assumes "reachable build user s0 s" "sys_inv n (builds n build) s0"
  shows "sys_inv n (builds n build) s \<and> total s < 2 ^ 32"
  using assms(1)
proof (induction rule: reachable.induct)
  case here
  then show ?case using assms(2) by simp
next
  case (step s k t)
  then show ?case using sys_inv_step [of n build s user k "Ok t"] by simp
next
  case (outside s e t)
  then show ?case using sys_inv_outside [of n "builds n build" s e "Ok t"] by simp
qed

text \<open>The contexts that \<open>create_context\<close> makes have the shape that the threads rely on.\<close>

lemma accessor_for_key_queue:
  "accessor_for_key d k = Ok a \<Longrightarrow> id_make_tx d = [0..<n] \<Longrightarrow> acc_queue a < n"
  by (auto simp: accessor_for_key_def)

lemma construct_actors_actions:
  fixes r :: "('v, 'c, 's, 'f, 'm) object_registry"
  shows "construct_actors r tree res arena actors mem d = Ok (mem', d', as) \<Longrightarrow> id_make_tx d = [0..<n] \<Longrightarrow>
    id_make_tx d' = [0..<n] \<and> (\<forall>a \<in> set as. action_ok n a \<and> action_tokens a = 0)"
proof (induction actors arbitrary: mem d as)
  case (Cons actor actors)
  have call: "id_make_tx d' = id_make_tx d \<and> (\<forall>a \<in> set as. action_ok n a \<and> action_tokens a = 0)"
    if ex: "exec_init_call args c d = Ok (d', as)" "id_make_tx d = [0..<n]" for args :: "'s init_args" and c d d' as
    using ex
  proof (cases c)
    case (InitAllAccessors q m)
    then obtain accs where accs: "all_accessors d (ia_lookup args q) m = Ok accs" "as = map AccClone accs" "d' = d"
      using ex by auto
    have "acc_queue a < n" if a: "a \<in> set accs" for a
    proof -
      obtain i where i: "i < length accs" "a = accs ! i" using a by (auto simp: in_set_conv_nth)
      have "length accs = length (take m (ia_lookup args q))" by (rule rmap_length [OF accs(1) [unfolded all_accessors_def]])
      then have "\<exists>k. accessor_for_key d k = Ok (accs ! i)"
        using rmap_nth [OF accs(1) [unfolded all_accessors_def], of i] i by (auto split: prod.splits)
      then show ?thesis using accessor_for_key_queue ex(2) i by blast
    qed
    then show ?thesis using accs by (auto simp: action_ok_def)
  qed (auto simp: init_send_msg_def init_broadcast_def init_accessor_def accessor_for_key_def action_ok_def
      accessor_send_def accessor_drop_def)
  have calls: "id_make_tx d' = [0..<n] \<and> (\<forall>a \<in> set as. action_ok n a \<and> action_tokens a = 0)"
    if "exec_init_calls args cs d = Ok (d', as)" "id_make_tx d = [0..<n]" for args :: "'s init_args" and cs d d' as
    using that
  proof (induction cs arbitrary: d as)
    case (Cons c cs)
    then obtain d1 as1 as2 where "exec_init_call args c d = Ok (d1, as1)" "exec_init_calls args cs d1 = Ok (d', as2)"
      "as = as1 @ as2" by auto
    then show ?case using call [of args c d d1 as1] Cons.IH [of d1 as2] Cons.prems(2) by auto
  qed simp
  from Cons.prems obtain calls_list d1 as1 mem1 as2 and args :: "'s init_args" where
    "exec_init_calls args calls_list d = Ok (d1, as1)" "construct_actors r tree res arena actors mem1 d1 = Ok (mem', d', as2)"
    "as = as1 @ as2" by (auto simp: Let_def)
  then show ?case using calls [of args calls_list d d1 as1] Cons.IH [of mem1 d1 as2] Cons.prems(2) by auto
qed simp

lemma args_builds:
  assumes "args_for r alloc n k configs tree a"
  shows "builds n (create_context r iter) k a"
  unfolding builds_def
proof (intro allI impI)
  fix mem mem' c as assume b: "create_context r iter a mem = Ok (mem', c, as)"
  obtain t d as' where "construct_actors r t (ca_resource_map a) (ca_arena a) (ca_actors a) mem
      \<lparr>id_data = context_data_new (ca_id a), id_relations = [], id_make_tx = ca_make_tx a\<rparr> = Ok (mem', d, as')"
    "as = as' @ [DropMakeTx]"
    using b by (auto simp: create_context_def Let_def)
  then have "\<forall>x \<in> set as. action_ok n x \<and> action_tokens x = 0"
    using construct_actors_actions [of r t "ca_resource_map a" "ca_arena a" "ca_actors a" mem _ mem' d as' n] assms
    by (auto simp: args_for_def action_ok_def)
  then show "ctx_rx c = k \<and> ctx_links c = links_for n k \<and> (\<forall>x \<in> set as. action_ok n x \<and> action_tokens x = 0)"
    using create_context_fields [OF b] assms by (simp add: args_for_def)
qed

lemma run_inv:
  assumes "run registry alloc cb_alloc config mem = Ok s" "length (config_contexts config) = n" "n + 1 < 2 ^ 32"
  shows "sys_inv n (builds n (create_context registry iter)) s" "total s = n" "0 < n"
proof -
  obtain su where su: "create_context_args registry alloc cb_alloc config = Ok su" "su_args su \<noteq> []"
    and s: "s = start su mem" using assms(1) by (auto simp: run_def)
  have st: "started registry alloc config su" by (rule create_context_args_started [OF su(1)])
  note f = startedD [OF st, unfolded assms(2)]
  let ?ready = "builds n (create_context registry iter)"
  show n: "0 < n" using su(2) f(1) by auto
  have "?ready k (su_args su ! k)" if "k < n" for k by (rule args_builds [OF f(5) [OF that]])
  then have sh: "shape n ?ready s"
    using f(1,7) s by (auto simp: shape_def start_def borrowed_def)
  have "map thread_tokens (map Waiting (su_args su)) = replicate n 1"
    using f(1) by (simp add: comp_def map_replicate_const)
  then show t: "total s = n"
    using f(7) s by (simp add: total_def start_def chan_tokens_def remote_channel_def sum_list_replicate comp_def)
  have act: "active s" using f(7) s by (auto simp: active_def start_def remote_channel_def)
  have "links_to j s = n - 1" if "j < n" for j
  proof -
    have "{i. i < length (sys_threads s) \<and> i \<noteq> j \<and> sys_threads s ! i \<noteq> Finished} = {0..<n} - {j}"
      using s f(1) by (auto simp: start_def)
    then show ?thesis using that by (simp add: links_to_def)
  qed
  then have "senders_ok s" using s f(1,7) by (auto simp: senders_ok_def live_to_def start_def)
  then show "sys_inv n ?ready s"
    using sh act t f(8) assms(3) s n by (auto simp: sys_inv_def running_def start_def)
qed

text \<open>The three phases, as they bear on the counter.\<close>

lemma total_zero:
  assumes "shape n ready s" "sys_live s = []" "\<forall>a \<in> set (sys_outside s). action_tokens a = 0"
    and "\<forall>j<n. thread_tokens (sys_threads s ! j) = 0 \<and> chan_tokens (sys_channels s ! j) = 0"
  shows "total s = 0"
  using assms by (auto simp: total_0 shape_def in_set_conv_nth)

lemma stuck_total: "stuck n ready s \<Longrightarrow> total s = 0"
  by (rule total_zero) (auto simp: stuck_def idle_def chan_tokens_def)

lemma stopping_total:
  assumes "stopping n ready k ls s"
  shows "total s = 0"
proof -
  have "thread_tokens (sys_threads s ! j) = 0 \<and> chan_tokens (sys_channels s ! j) = 0" if "j < n" for j
  proof (cases "j = k")
    case True
    then show ?thesis using assms by (auto simp: stopping_def stopper_def leaving_def chan_tokens_def)
  next
    case False
    then have "follower j ls s" using assms that by (simp add: stopping_def)
    then show ?thesis by (auto simp: follower_def idle_def leaving_def chan_tokens_def)
  qed
  then show ?thesis using assms by (intro total_zero) (auto simp: stopping_def)
qed

lemma sys_inv_counter:
  assumes "sys_inv n ready s" "total s < 2 ^ 32"
  shows "case sys_control s of Block c \<Rightarrow> unat c = total s | Freed l \<Rightarrow> total s = 0"
proof -
  from assms(1) consider "running n ready s" | "stuck n ready s" | k ls where "stopping n ready k ls s"
    by (auto simp: sys_inv_def)
  then show ?thesis
  proof cases
    case 1
    then show ?thesis using assms(2) by (simp add: running_def unat_of_nat_u32)
  next
    case 2
    then show ?thesis using stuck_total [OF 2] by (simp add: stuck_def)
  next
    case 3
    moreover have "sys_control s = Block 0 \<or> (\<exists>l. sys_control s = Freed l)"
      using 3 by (auto simp: stopping_def stopper_def)
    ultimately show ?thesis using stopping_total [OF 3] by auto
  qed
qed

text \<open>How many steps a thread still takes once the runtime stops.\<close>

fun stop_weight :: "('i, 'f) thread \<Rightarrow> nat" where
  "stop_weight (Running (PStop ls free) as c) = length ls + 2"
| "stop_weight (Running PRecv as c) = 2"
| "stop_weight (Running PExit as c) = 1"
| "stop_weight _ = 0"

definition stop_measure :: "('i, 'f, 'm) sys \<Rightarrow> nat" where
  "stop_measure s = sum_list (map stop_weight (sys_threads s))"

definition drops_ok :: "('i, 'f, 'm) sys \<Rightarrow> bool" where
  "drops_ok s \<longleftrightarrow> (\<forall>t \<in> set (sys_threads s). \<forall>pt as c. t = Running pt as c \<longrightarrow> is_ok (context_drop c))"

lemma stopping_cases:
  assumes "stopping n ready k ls s" "j < n"
  obtains free c where "j = k" "sys_threads s ! j = Running (PStop ls free) [] c"
  | c where "sys_threads s ! j = Running PExit [] c"
  | "sys_threads s ! j = Finished"
  | c where "j \<noteq> k" "sys_threads s ! j = Running PRecv [] c"
      "pending (sys_channels s ! j) = (if j \<in> set ls then [] else [Stop])"
proof (cases "j = k")
  case True
  then show thesis using assms that by (auto simp: stopping_def stopper_def leaving_def)
next
  case False
  then have "follower j ls s" using assms by (simp add: stopping_def)
  then show thesis using False that by (auto simp: follower_def leaving_def idle_def)
qed

text \<open>Each step of a stopping runtime moves one thread closer to its end.\<close>

lemma stopping_moves:
  assumes st: "stopping n ready k ls s" and step: "thread_step build user j s = Some (Ok s')"
  shows "\<exists>t. sys_threads s' = (sys_threads s)[j := t] \<and> Suc (stop_weight t) = stop_weight (sys_threads s ! j) \<and>
    (t = Finished \<or> (\<exists>pt pt' as as' c. t = Running pt as c \<and> sys_threads s ! j = Running pt' as' c))"
proof -
  have sh: "shape n ready s" using st by (simp add: stopping_def)
  have len: "length (sys_threads s) = n" using sh by (simp add: shape_def)
  have j: "j < n" using step len by (simp add: thread_step_def split: if_splits)
  from st j show ?thesis
  proof (cases rule: stopping_cases)
    case (1 free c)
    then have "stop_point k ls free c s = Ok s'" using step j len by (simp add: thread_step_def)
    let ?t = "if ls = [] then Running PExit [] c else Running (PStop (tl ls) free) [] c"
    have "sys_threads s' = (sys_threads s)[j := ?t]"
      using \<open>stop_point k ls free c s = Ok s'\<close> 1(1)
      by (cases ls) (auto split: if_splits dest!: send_unwrap_Ok)
    moreover have "Suc (stop_weight ?t) = stop_weight (sys_threads s ! j)" using 1 by (cases ls) auto
    ultimately show ?thesis using 1 by (intro exI [of _ ?t]) auto
  next
    case (2 c)
    then have "exit_point j c s = Ok s'" using step j len by (simp add: thread_step_def)
    then show ?thesis using exit_point_Ok [OF sh j 2] 2 by auto
  next
    case 3
    then show ?thesis using step j len by (simp add: thread_step_def)
  next
    case (4 c)
    have c: "ctx_rx c = j" using shape_thread [OF sh j] 4 by simp
    have "recv_point user j c s = Some (Ok s')" using step 4 j len by (simp add: thread_step_def)
    then have "pending (sys_channels s ! j) = [Stop]" using 4 c
      by (auto simp: recv_point_def rx_recv_def split: if_splits)
    then show ?thesis using \<open>recv_point user j c s = Some (Ok s')\<close> 4 c
      by (auto simp: recv_point_def rx_recv_def)
  qed
qed

lemma stopping_measure:
  assumes "stopping n ready k ls s" "thread_step build user j s = Some (Ok s')"
  shows "Suc (stop_measure s') = stop_measure s" "drops_ok s \<Longrightarrow> drops_ok s'"
proof -
  have j: "j < length (sys_threads s)" using assms(2) by (simp add: thread_step_def split: if_splits)
  obtain t where t: "sys_threads s' = (sys_threads s)[j := t]" "Suc (stop_weight t) = stop_weight (sys_threads s ! j)"
    "t = Finished \<or> (\<exists>pt pt' as as' c. t = Running pt as c \<and> sys_threads s ! j = Running pt' as' c)"
    using stopping_moves [OF assms] by blast
  show "Suc (stop_measure s') = stop_measure s"
    using sum_list_map_update [OF j, of stop_weight t] t by (simp add: stop_measure_def)
  assume d: "drops_ok s"
  have "is_ok (context_drop c)" if "t = Running pt as c" for pt as c
    using d t(3) that nth_mem [OF j] by (fastforce simp: drops_ok_def)
  then show "drops_ok s'"
    using d t(1) set_update_subset_insert [of "sys_threads s" j t] by (fastforce simp: drops_ok_def)
qed

lemma stopping_progress:
  assumes st: "stopping n ready k ls s" "drops_ok s" "\<not> (\<forall>t \<in> set (sys_threads s). t = Finished)"
  shows "\<exists>j s'. thread_step build user j s = Some (Ok s')"
proof -
  have sh: "shape n ready s" and k: "k < n" using st by (auto simp: stopping_def)
  have len: "length (sys_threads s) = n" using sh by (simp add: shape_def)
  have exit: "\<exists>s'. thread_step build user j s = Some (Ok s')"
    if "j < n" "sys_threads s ! j = Running PExit [] c" for j c
  proof -
    have "is_ok (context_drop c)" using st(2) that len nth_mem [of j "sys_threads s"] unfolding drops_ok_def by metis
    then have "\<exists>s'. exit_point j c s = Ok s'" by (auto simp: is_ok_iff exit_point_def Let_def)
    then show ?thesis using that len by (simp add: thread_step_def)
  qed
  show ?thesis
  proof (cases "sys_threads s ! k = Finished")
    case False
    from st(1) k show ?thesis
    proof (cases rule: stopping_cases)
      case (1 free c)
      obtain s' where "stop_point k ls free c s = Ok s'" using stop_point_stopping [OF st(1) 1(2) refl] by blast
      then have "thread_step build user k s = Some (Ok s')" using 1 k len by (simp add: thread_step_def)
      then show ?thesis by blast
    qed (use exit k False in blast)+
  next
    case True
    then have ls: "ls = []" using st(1) by (auto simp: stopping_def stopper_def)
    obtain j where j: "j < n" "sys_threads s ! j \<noteq> Finished" using st(3) len by (auto simp: all_set_conv_all_nth)
    from st(1) j(1) show ?thesis
    proof (cases rule: stopping_cases)
      case (4 c)
      have c: "ctx_rx c = j" using shape_thread [OF sh j(1)] 4 by simp
      have "\<exists>s'. recv_point user j c s = Some (Ok s')" using 4 c ls by (simp add: recv_point_def rx_recv_def)
      then obtain s' where "thread_step build user j s = Some (Ok s')" using 4 j len by (auto simp: thread_step_def)
      then show ?thesis by blast
    next
      case (2 c)
      then show ?thesis using exit [OF j(1)] by blast
    qed (use j True in auto)
  qed
qed

text \<open>So every run of a stopping runtime that goes on ends with all threads finished.\<close>

lemma stopping_completes:
  fixes s :: "('i, 'f, 'm) sys"
  assumes "stopping n (builds n build) k ls s" "senders_ok s" "drops_ok s"
  shows "\<exists>ks s'. run_schedule build user ks s = Some s' \<and> (\<forall>t \<in> set (sys_threads s'). t = Finished)"
  using assms
proof (induction "stop_measure s" arbitrary: s ls rule: less_induct)
  case less
  show ?case
  proof (cases "\<forall>t \<in> set (sys_threads s). t = Finished")
    case True
    then show ?thesis using run_schedule.simps(1) by blast
  next
    case False
    obtain j s' where step: "thread_step build user j s = Some (Ok s')"
      using stopping_progress [OF less.prems(1,3) False] by blast
    note m = stopping_measure [OF less.prems(1) step]
    obtain ls' where st': "stopping n (builds n build) k ls' s'"
      using stopping_step [OF less.prems(1,2) step] by auto
    have "senders_ok s'"
      using senders_ok_step [OF less.prems(2) _ step] less.prems(1) by (auto simp: stopping_def)
    then obtain ks s2 where "run_schedule build user ks s' = Some s2" "\<forall>t \<in> set (sys_threads s2). t = Finished"
      using less.hyps [OF _ st'] m less.prems(3) by auto
    then have "run_schedule build user (j # ks) s = Some s2" using step by simp
    then show ?thesis using \<open>\<forall>t \<in> set (sys_threads s2). t = Finished\<close> by blast
  qed
qed

lemma stopping_bounded:
  "stopping n (builds n build) k ls s \<Longrightarrow> senders_ok s \<Longrightarrow> run_schedule build user ks s = Some s' \<Longrightarrow>
    length ks \<le> stop_measure s"
proof (induction ks arbitrary: s ls)
  case (Cons j ks)
  then obtain s1 where step: "thread_step build user j s = Some (Ok s1)" "run_schedule build user ks s1 = Some s'"
    by (auto split: option.splits sum.splits)
  obtain ls' where st': "stopping n (builds n build) k ls' s1"
    using stopping_step [OF Cons.prems(1,2) step(1)] by auto
  have "senders_ok s1"
    using senders_ok_step [OF Cons.prems(2) _ step(1)] Cons.prems(1) by (auto simp: stopping_def)
  from Cons.IH [OF st' this step(2)] show ?case using stopping_measure(1) [OF Cons.prems(1) step(1)] by simp
qed simp

subsection \<open>Dropping the contexts\<close>

text \<open>The actors of a context, and how they are dropped, stay as they were created.\<close>

lemma run_msg_drop: "run_msg user m mem c = Ok (mem', c', as) \<Longrightarrow> context_drop c' = context_drop c"
  by (auto simp: run_msg_def context_drop_def)

lemma after_run_thread:
  "after_run k pt s r = Ok s' \<Longrightarrow>
    \<exists>mem c as. r = Ok (mem, c, as) \<and> sys_threads s' = (sys_threads s)[k := Running pt as c]"
  by (auto simp: after_run_def)

lemma point_step_thread:
  assumes "point_step user k pt c s = Some (Ok s')"
  shows "\<exists>t. sys_threads s' = (sys_threads s)[k := t] \<and> (\<forall>i. t \<noteq> Waiting i) \<and>
    (\<forall>pt' as' c'. t = Running pt' as' c' \<longrightarrow> context_drop c' = context_drop c)"
proof -
  have became: ?thesis if "sys_threads s' = (sys_threads s)[k := Running p as c1]" "context_drop c1 = context_drop c"
    for p as c1 using that by (intro exI [of _ "Running p as c1"]) auto
  have drain: ?thesis if "drain_point user k p q c s = Ok s'" for p q
  proof (cases "drain_step user (sys_mem s) c")
    case (Some r)
    then obtain m c1 where "r = run_msg user m (sys_mem s) c1" "context_drop c1 = context_drop c"
      by (auto simp: drain_step_def context_drop_def split: prod.splits option.splits)
    then show ?thesis using that Some run_msg_drop by (fastforce simp: drain_point_def dest!: after_run_thread)
  qed (use that in \<open>auto simp: drain_point_def\<close>)
  have handled: ?thesis if "handled_point k free c s = Ok s'" for free
    using that by (auto simp: handled_point_def)
  have clear: "context_drop (clear_unsent c) = context_drop c" by (simp add: clear_unsent_def context_drop_def)
  show ?thesis
  proof (cases pt)
    case PRecv
    then show ?thesis using assms run_msg_drop
      by (fastforce simp: recv_point_def Let_def split: option.splits prod.splits queue_item.splits dest!: after_run_thread)
  next
    case PCount
    then show ?thesis using assms handled clear by (auto simp: count_point_def split: list.splits)
  next
    case (PFlush xs)
    then show ?thesis using assms by (cases xs) (auto intro!: became dest!: send_unwrap_Ok)
  next
    case (PStop ls free)
    then show ?thesis using assms by (cases ls) (auto split: if_splits intro!: became dest!: send_unwrap_Ok)
  qed (use assms drain handled in \<open>auto simp: exit_point_def\<close>)
qed

definition droppable :: "('i \<Rightarrow> 'm \<Rightarrow> ('m \<times> 'f actor_context \<times> 'f action list) res) \<Rightarrow>
    ('i, 'f, 'm) sys \<Rightarrow> bool" where
  "droppable build s \<longleftrightarrow> (\<forall>t \<in> set (sys_threads s). case t of
     Waiting i \<Rightarrow> \<forall>mem mem' c as. build i mem = Ok (mem', c, as) \<longrightarrow> is_ok (context_drop c)
   | Running pt as c \<Rightarrow> is_ok (context_drop c)
   | Finished \<Rightarrow> True)"

lemma droppable_set:
  assumes "droppable build s" "sys_threads s' = (sys_threads s)[k := t]"
    and "\<And>pt as c. t = Running pt as c \<Longrightarrow> is_ok (context_drop c)" "\<And>i. t \<noteq> Waiting i"
  shows "droppable build s'"
proof -
  have "case t of Waiting i \<Rightarrow> P i | Running pt as c \<Rightarrow> is_ok (context_drop c) | Finished \<Rightarrow> True" for P
    using assms(3,4) by (cases t) auto
  then show ?thesis
    using assms(1,2) set_update_subset_insert [of "sys_threads s" k t] unfolding droppable_def by auto
qed

lemma droppable_step:
  assumes d: "droppable build s" and step: "thread_step build user k s = Some (Ok s')"
  shows "droppable build s'"
proof -
  have k: "k < length (sys_threads s)" using step by (simp add: thread_step_def split: if_splits)
  note dk = d [unfolded droppable_def, rule_format, OF nth_mem [OF k]]
  show ?thesis
  proof (cases "sys_threads s ! k")
    case (Waiting i)
    then have "after_run k PDrain s (build i (sys_mem s)) = Ok s'" using step k by (simp add: thread_step_def)
    then obtain mem c as where "build i (sys_mem s) = Ok (mem, c, as)" "sys_threads s' = (sys_threads s)[k := Running PDrain as c]"
      using after_run_thread by blast
    then show ?thesis using droppable_set [OF d, of s' k "Running PDrain as c"] dk Waiting by auto
  next
    case (Running pt as c)
    show ?thesis
    proof (cases as)
      case Nil
      then have "point_step user k pt c s = Some (Ok s')" using Running step k by (simp add: thread_step_def)
      from point_step_thread [OF this] obtain t where t: "sys_threads s' = (sys_threads s)[k := t]"
        "\<forall>pt' as' c'. t = Running pt' as' c' \<longrightarrow> context_drop c' = context_drop c"
        "\<And>i. t \<noteq> Waiting i" by blast
      then show ?thesis using droppable_set [OF d t(1)] dk Running by auto
    next
      case (Cons a bs)
      then obtain cs s1 where s1: "action_step a s = Some (Ok (cs, s1))"
        and s': "s' = set_thread k (Running pt (cs @ bs) c) s1"
        using step k Running by (auto simp: thread_step_def)
      have "sys_threads s1 = sys_threads s"
        using s1 by (cases a) (auto split: if_splits dest!: send_unwrap_Ok)
      then show ?thesis
        using droppable_set [OF d, of s' k "Running pt (cs @ bs) c"] s' dk Running by auto
    qed
  next
    case Finished
    then show ?thesis using step k by (simp add: thread_step_def)
  qed
qed

end
