(* ===== verification/Shutdown.thy ===== *)
theory Shutdown
  imports Runs
begin

text \<open>
  What the invariant says of whole runs, with concrete runs of a small program: the counter, the
  absence of faults of the runtime's own, when the program stops, and when it does not.
\<close>

subsection \<open>Concrete runs\<close>

text \<open>A schedule whose states have fewer than \<open>2 ^ 32\<close> events.\<close>

datatype 'f sys_event = Th nat | Out "'f outside"

fun sys_event_step :: "('i \<Rightarrow> 'm \<Rightarrow> ('m \<times> 'f actor_context \<times> 'f action list) res) \<Rightarrow> ('f, 'm) user \<Rightarrow>
    'f sys_event \<Rightarrow> ('i, 'f, 'm) sys \<Rightarrow> ('i, 'f, 'm) sys res option" where
  "sys_event_step build user (Th k) s = thread_step build user k s"
| "sys_event_step build user (Out e) s = outside_step e s"

fun run_counted :: "('i \<Rightarrow> 'm \<Rightarrow> ('m \<times> 'f actor_context \<times> 'f action list) res) \<Rightarrow> ('f, 'm) user \<Rightarrow>
    'f sys_event list \<Rightarrow> ('i, 'f, 'm) sys \<Rightarrow> ('i, 'f, 'm) sys option" where
  "run_counted build user [] s = Some s"
| "run_counted build user (e # es) s =
     (case sys_event_step build user e s of
        Some (Ok s') \<Rightarrow> if total s' < 2 ^ 32 then run_counted build user es s' else None
      | _ \<Rightarrow> None)"

lemma run_counted_reachable:
  "reachable build user s0 s \<Longrightarrow> run_counted build user es s = Some s' \<Longrightarrow> reachable build user s0 s'"
proof (induction es arbitrary: s)
  case (Cons e es)
  then obtain t where t: "sys_event_step build user e s = Some (Ok t)" "total t < 2 ^ 32"
    "run_counted build user es t = Some s'"
    by (auto split: option.splits sum.splits if_splits)
  then have "reachable build user s0 t"
    using Cons.prems(1) by (cases e) (auto intro: reachable.step [where t = t] reachable.outside [where t = t])
  then show ?case using Cons.IH t(3) by blast
qed simp

lemma run_counted_append:
  "run_counted build user (es @ fs) s = Option.bind (run_counted build user es s) (run_counted build user fs)"
  by (induction es arbitrary: s) (auto split: option.splits sum.splits)

definition demo_start :: "demo_program \<Rightarrow>
    ((unit, unit, unit, nat, nat) context_constructor_args, nat, nat) sys" where
  "demo_start p = \<lparr>sys_threads = map (\<lambda>k. Waiting (demo_args p k (demo_tree p))) [0, Suc 0, Suc (Suc 0)],
     sys_channels = replicate 3 (remote_channel\<lparr>senders := 3\<rparr>), sys_control = Block 3,
     sys_live = [], sys_outside = [], sys_make_tx = 3, sys_mem = 0\<rparr>"

lemma demo_run: "run (demo_registry p) demo_alloc (\<lambda>_. 64) demo_config 0 = Ok (demo_start p)"
proof -
  obtain su where su: "create_context_args (demo_registry p) demo_alloc (\<lambda>_. 64) demo_config = Ok su"
    "su_args su = map (\<lambda>k. demo_args p k (demo_tree p)) [0, Suc 0, Suc (Suc 0)]"
    using demo_startup by blast
  have "length (config_contexts demo_config) = 3" by (simp add: demo_config_def)
  note f = startedD [OF create_context_args_started [OF su(1)], unfolded this]
  show ?thesis using su f(7,8) by (simp add: run_def start_def demo_start_def)
qed

lemma demo_total: "total (demo_start p) = 3"
  by (simp add: demo_start_def total_def chan_tokens_def remote_channel_def)

lemma demo_here: "reachable build user (demo_start p) (demo_start p)"
  by (rule reachable.here) (simp add: demo_total)

abbreviation demo_build where
  "demo_build p \<equiv> create_context (demo_registry p) id"

abbreviation demo_ctx where
  "demo_ctx p k \<equiv> demo_actor_context p k (context_data_new (cid k))"

text \<open>No actor makes an accessor: each thread builds its context and waits.\<close>

definition no_calls :: demo_program where
  "no_calls k = []"

lemma no_calls_create:
  "k < 3 \<Longrightarrow> demo_build no_calls (demo_args no_calls k (demo_tree no_calls)) mem =
    Ok (mem, demo_ctx no_calls k, [DropMakeTx])"
  using demo_create [of k no_calls] by (simp add: no_calls_def)

definition waiting :: "demo_program \<Rightarrow> nat \<Rightarrow> ((unit, unit, unit, nat, nat) context_constructor_args, nat) thread" where
  "waiting p k = Running PRecv [] (demo_ctx p k)"

text \<open>The first actor makes an accessor to itself, which a thread outside the runtime uses.\<close>

definition lone_accessor :: demo_program where
  "lone_accessor k = (if k = 0 then [InitAccessor] else [])"

definition acc0 :: accessor where
  "acc0 = \<lparr>acc_offset = Offset 4, acc_meta = MetaUnit, acc_queue = 0\<rparr>"

lemma lone_accessor_calls:
  "exec_init_calls (demo_init_args lone_accessor k) (lone_accessor k)
      \<lparr>id_data = context_data_new (cid k), id_relations = [], id_make_tx = [0..<3]\<rparr> =
    Ok (\<lparr>id_data = context_data_new (cid k), id_relations = [], id_make_tx = [0..<3]\<rparr>,
      if k = 0 then [AccClone acc0] else [])"
  by (simp add: lone_accessor_def init_accessor_def demo_init_args_def context_data_new_def acc0_def)

lemma lone_accessor_create:
  "k < 3 \<Longrightarrow> demo_build lone_accessor (demo_args lone_accessor k (demo_tree lone_accessor)) mem =
    Ok (mem, demo_ctx lone_accessor k, (if k = 0 then [AccClone acc0] else []) @ [DropMakeTx])"
  using demo_create [OF _ lone_accessor_calls] by simp

lemma demo_ctx_simps [simp]:
  "ctx_rx (demo_actor_context p k d) = k" "ctx_data (demo_actor_context p k d) = d"
  "ctx_links (demo_actor_context p k d) = links_for 3 k"
  "(demo_actor_context p k d)\<lparr>ctx_data := d'\<rparr> = demo_actor_context p k d'"
  "cd_id (context_data_new i) = i" "cd_unsent (context_data_new i) = []"
  "local_recv (cd_local_queue (context_data_new i)) = (None, cd_local_queue (context_data_new i))"
  by (simp_all add: demo_actor_context_def context_data_new_def local_unbounded_def local_recv_def)

lemma links_demo [simp]:
  "links_for 3 0 = [Suc 0, Suc (Suc 0)]" "links_for 3 (Suc 0) = [0, Suc (Suc 0)]"
  "links_for 3 (Suc (Suc 0)) = [0, Suc 0]"
  by (simp_all add: links_for_def numeral_3_eq_3)

lemma replicate_3: "replicate 3 x = [x, x, x]"
  by (simp add: numeral_3_eq_3)

lemma word_not_last: "\<not> (2 :: u32) \<le> 1"
  by (simp add: word_le_nat_alt)

lemmas run_simps = replicate_3 word_not_last demo_start_def thread_step_def after_run_def set_thread_def set_channel_def drain_point_def
  drain_step_def into_unowned_def release_def fetch_sub_def fetch_add_def total_def chan_tokens_def
  remote_channel_def cb_dealloc_def cb_clone_def tx_drop_def tx_clone_def send_unwrap_def tx_send_def
  recv_point_def rx_recv_def run_msg_def countdown_def count_point_def handled_point_def exit_point_def rx_drop_def
  drop_txs_def available_def borrowed_def accessor_send_def accessor_drop_def waiting_def acc0_def Let_def

lemma demo_drop [simp]:
  assumes "k < 3"
  shows "context_drop (demo_actor_context p k d) = Ok ()"
proof -
  have "k = 0 \<or> k = 1 \<or> k = 2" using assms by auto
  then show ?thesis
    by (auto simp: context_drop_def demo_actor_context_def demo_args_def demo_info_def create_vtable_def demo_type_def
        arena_offset_def vtable_drop_def align_offset_def)
qed

definition ready_state where
  "ready_state = (demo_start lone_accessor)\<lparr>sys_threads := map (waiting lone_accessor) [0, Suc 0, Suc (Suc 0)],
     sys_channels := [remote_channel\<lparr>senders := 3\<rparr>, remote_channel\<lparr>senders := 2\<rparr>, remote_channel\<lparr>senders := 2\<rparr>],
     sys_control := Block 1, sys_live := [acc0], sys_make_tx := 0\<rparr>"

lemma ready_run:
  "run_counted (demo_build lone_accessor) user (map Th [0, 0, 0, 0, 0, 1, 1, 1, 1, 2, 2, 2, 2]) (demo_start lone_accessor) =
    Some ready_state"
  by (simp add: run_simps lone_accessor_create ready_state_def acc0_def)

definition handled_state where
  "handled_state = (ready_state)\<lparr>sys_channels :=
      [remote_channel\<lparr>pending := [Msg \<lparr>msg_targets = [(Offset 4, MetaUnit)], msg_fn = 0\<rparr>, AccessorDropped], senders := 2\<rparr>,
        remote_channel\<lparr>senders := 2\<rparr>, remote_channel\<lparr>senders := 2\<rparr>],
     sys_control := Block 2, sys_live := []\<rparr>"

lemma handled_run:
  "run_counted (demo_build lone_accessor) user
      [Out (OutSend acc0 0), Out (OutStep 0), Out (OutStep 0), Out (OutDrop acc0), Out (OutStep 0)] ready_state =
    Some handled_state"
  by (simp add: run_simps ready_state_def handled_state_def acc0_def)

definition stopping_state where
  "stopping_state = (handled_state)\<lparr>
     sys_threads := [Running (PStop [Suc 0, Suc (Suc 0)] True) [] (demo_ctx lone_accessor 0),
       waiting lone_accessor (Suc 0), waiting lone_accessor (Suc (Suc 0))],
     sys_channels := [remote_channel\<lparr>senders := 2\<rparr>, remote_channel\<lparr>senders := 2\<rparr>, remote_channel\<lparr>senders := 2\<rparr>],
     sys_control := Block 0, sys_mem := 1\<rparr>"

lemma stopping_run:
  "run_counted (demo_build lone_accessor) countdown (map Th [0, 0, 0, 0, 0]) handled_state = Some stopping_state"
  by (simp add: run_simps ready_state_def handled_state_def stopping_state_def)
definition all_finished where
  "all_finished m = (demo_start lone_accessor)\<lparr>sys_threads := [Finished, Finished, Finished],
     sys_channels := replicate 3 (remote_channel\<lparr>senders := 0, receiver_alive := False\<rparr>),
     sys_control := Freed cb_layout, sys_make_tx := 0, sys_mem := m\<rparr>"

lemma finished_run:
  "run_counted (demo_build lone_accessor) countdown (map Th [0, 0, 0, 0, 1, 1, 2, 2]) stopping_state = Some (all_finished 1)"
  by (simp add: run_simps ready_state_def handled_state_def stopping_state_def all_finished_def)

lemma outside_threads: "outside_step e s = Some (Ok s') \<Longrightarrow> sys_threads s' = sys_threads s"
proof (cases e)
  case (OutStep i)
  have "action_step a s = Some (Ok (bs, t)) \<Longrightarrow> sys_threads t = sys_threads s" for a bs t
    by (cases a) (auto split: if_splits dest!: send_unwrap_Ok)
  then show "outside_step e s = Some (Ok s') \<Longrightarrow> sys_threads s' = sys_threads s"
    using OutStep by (auto split: if_splits)
qed (auto split: if_splits)

lemma reachable_droppable:
  assumes "reachable build user s0 s" "droppable build s0"
  shows "droppable build s"
  using assms(1)
proof (induction rule: reachable.induct)
  case (step s k t)
  then show ?case using droppable_step by blast
next
  case (outside s e t)
  then show ?case using outside_threads [of e s t] by (simp add: droppable_def)
qed (rule assms(2))

lemma droppable_drops_ok: "droppable build s \<Longrightarrow> drops_ok s"
  by (fastforce simp: droppable_def drops_ok_def)

text \<open>At most three steps for each thread.\<close>

lemma stopping_weight:
  assumes st: "stopping n ready k ls s"
  shows "stop_measure s < 3 * n"
proof -
  have sh: "shape n ready s" and k: "k < n" using st by (auto simp: stopping_def)
  have len: "length (sys_threads s) = n" using sh by (simp add: shape_def)
  let ?w = "stop_weight :: ('a, 'b) thread \<Rightarrow> nat"
  have others: "?w (sys_threads s ! j) \<le> 2" if "j < n" "j \<noteq> k" for j
    using st that(1) by (cases rule: stopping_cases) (use that(2) in auto)
  have "length ls < n" if "sys_threads s ! k = Running (PStop ls free) [] c" for free c
  proof -
    have "distinct ls" "set ls \<subseteq> {0..<n} - {k}" using shape_thread [OF sh k] that by auto
    then have "length ls \<le> card ({0..<n} - {k})" by (metis card_mono distinct_card finite_Diff finite_atLeastLessThan)
    then show ?thesis using k by simp
  qed
  then have own: "?w (sys_threads s ! k) \<le> n + 1"
    by (cases rule: stopping_cases [OF st k]) fastforce+
  let ?y = "Running PRecv [] undefined :: ('a, 'b) thread"
  let ?ts = "(sys_threads s)[k := ?y]"
  have "?w (?ts ! j) \<le> 2" if "j < n" for j using that others len by (cases "j = k") simp_all
  then have "?w t \<le> 2" if "t \<in> set ?ts" for t using that len by (auto simp: in_set_conv_nth)
  then have "sum_list (map ?w ?ts) \<le> sum_list (map (\<lambda>_. 2) ?ts)" by (intro sum_list_mono) auto
  also have "\<dots> = 2 * n" using len by (simp add: sum_list_triv)
  finally show ?thesis
    using sum_list_map_update [of k "sys_threads s" ?w ?y] k len own by (simp add: stop_measure_def)
qed


lemma sys_inv_stopping:
  assumes inv: "sys_inv n ready s" and k: "k < n"
    and stop: "ended (sys_threads s ! k) \<or> Stop \<in> set (pending (sys_channels s ! k))"
  shows "\<exists>j ls. stopping n ready j ls s"
proof -
  have len: "length (sys_threads s) = n" "length (sys_channels s) = n"
    using sys_inv_shape [OF inv] by (auto simp: shape_def)
  have "\<not> active s" using stop k len by (auto simp: active_def all_set_conv_all_nth)
  moreover have "active s" if "stuck n ready s" using that by (simp add: stuck_def)
  ultimately show ?thesis using inv by (auto simp: sys_inv_def running_def)
qed

text \<open>What a run of the program satisfies at every state, and the phase of it.\<close>

lemma run_reachable:
  assumes "run registry alloc cb_alloc config mem = Ok s0" "length (config_contexts config) = n" "n + 1 < 2 ^ 32"
    and "reachable (create_context registry iter) user s0 s"
  shows "sys_inv n (builds n (create_context registry iter)) s" "total s < 2 ^ 32"
  using reachable_inv [OF assms(4) run_inv(1) [OF assms(1-3)]] by auto

lemma handled_reached: "reachable (demo_build lone_accessor) user (demo_start lone_accessor) handled_state"
  by (rule run_counted_reachable [OF run_counted_reachable [OF demo_here ready_run] handled_run])

lemma stopping_reached: "reachable (demo_build lone_accessor) countdown (demo_start lone_accessor) stopping_state"
  by (rule run_counted_reachable [OF handled_reached stopping_run])

subsection \<open>Properties\<close>

text \<open>
  C2. In every state that the program reaches, under any schedule of its threads and of threads
  outside it that use its accessors, the counter of the control block is the number of events
  that are not handled: messages and drop notices in channels, being handled or about to be sent,
  accessors that exist, and threads that have not reached their main loop. Once the block is
  freed there is none.
\<close>

theorem counter_counts_events:
  assumes "run registry alloc cb_alloc config mem = Ok s0" "length (config_contexts config) = n" "n + 1 < 2 ^ 32"
    and "reachable (create_context registry iter) user s0 s"
  shows "case sys_control s of Block c \<Rightarrow> unat c = total s | Freed l \<Rightarrow> total s = 0"
  by (rule sys_inv_counter [OF run_reachable [OF assms]])

theorem counter_counts_events_witness:
  "sys_control handled_state = Block 2 \<and> unat (2 :: u32) = total handled_state"
proof -
  have "reachable (demo_build lone_accessor) countdown (demo_start lone_accessor) handled_state"
    by (rule handled_reached)
  from counter_counts_events [OF demo_run refl _ this] show ?thesis
    by (simp add: demo_config_def handled_state_def)
qed


text \<open>A user whose handler panics.\<close>

definition panicking :: "(nat, nat) user" where
  "panicking n p mem = Fault ExplicitPanic"


text \<open>
  C1. When a thread stops, or a \<open>Stop\<close> is sent to it, there is nothing left to do: no event is
  unhandled, no accessor exists, the channels hold nothing but \<open>Stop\<close>, every other thread waits
  to receive or has stopped, and threads outside the runtime can do nothing to it.
\<close>

theorem stop_means_done:
  assumes "run registry alloc cb_alloc config mem = Ok s0" "length (config_contexts config) = n" "n + 1 < 2 ^ 32"
    and "reachable (create_context registry iter) user s0 s"
    and "k < n" "ended (sys_threads s ! k) \<or> Stop \<in> set (pending (sys_channels s ! k))"
  shows "total s = 0 \<and> sys_live s = [] \<and>
    (\<forall>j<n. set (pending (sys_channels s ! j)) \<subseteq> {Stop} \<and> (ended (sys_threads s ! j) \<or> idle j s)) \<and>
    outside_step e s = None"
proof -
  let ?ready = "builds n (create_context registry iter)"
  have inv: "sys_inv n ?ready s" using run_reachable [OF assms(1-4)] by simp
  obtain i ls where st: "stopping n ?ready i ls s" using sys_inv_stopping [OF inv assms(5,6)] by blast
  then have q: "sys_live s = []" "\<forall>a \<in> set (sys_outside s). action_tokens a = 0" "shape n ?ready s"
    by (auto simp: stopping_def)
  have "set (pending (sys_channels s ! j)) \<subseteq> {Stop} \<and> (ended (sys_threads s ! j) \<or> idle j s)" if "j < n" for j
  proof (cases "j = i")
    case True
    then show ?thesis using st by (auto simp: stopping_def stopper_def leaving_def)
  next
    case False
    then have "follower j ls s" using st that by (simp add: stopping_def)
    then show ?thesis by (auto simp: follower_def leaving_def split: if_splits)
  qed
  moreover have "total s = 0" by (rule stopping_total [OF st])
  ultimately show ?thesis using q outside_quiet [OF q] by blast
qed

theorem stop_means_done_witness:
  "total stopping_state = 0 \<and> idle 1 stopping_state"
proof -
  have "reachable (demo_build lone_accessor) countdown (demo_start lone_accessor) stopping_state"
    by (rule stopping_reached)
  moreover have "ended (sys_threads stopping_state ! 0)" "\<not> ended (sys_threads stopping_state ! 1)"
    by (simp_all add: stopping_state_def waiting_def)
  ultimately show ?thesis
    using stop_means_done [OF demo_run refl _ _ _, of lone_accessor id countdown stopping_state 0]
    by (auto simp: demo_config_def)
qed

text \<open>
  C3. Once the runtime stops, it ends: every schedule of the threads has fewer than \<open>3 n\<close> steps,
  and there is one that ends with all threads finished. (The allocator kept its contract, so
  the actors can be dropped.)
\<close>

theorem shutdown_completes:
  assumes "run_nodes ns builder_default = Ok registry"
    and "create_context_args registry alloc cb_alloc config = Ok su" "su_args su \<noteq> []"
    and "length (config_contexts config) = n" "n + 1 < 2 ^ 32"
    and "\<forall>k<n. alloc_ok (alloc k) (arena_layout (arena_capacity (ca_arena (su_args su ! k))))"
    and "reachable (create_context registry iter) user (start su mem) s"
    and "k < n" "ended (sys_threads s ! k) \<or> Stop \<in> set (pending (sys_channels s ! k))"
  shows "(\<exists>ks s'. run_schedule (create_context registry iter) user ks s = Some s' \<and>
      (\<forall>t \<in> set (sys_threads s'). t = Finished)) \<and>
    (\<forall>ks s'. run_schedule (create_context registry iter) user ks s = Some s' \<longrightarrow> length ks < 3 * n)"
proof -
  let ?build = "create_context registry iter"
  have run: "run registry alloc cb_alloc config mem = Ok (start su mem)" using assms(2,3) by (simp add: run_def)
  have inv: "sys_inv n (builds n ?build) s" using run_reachable [OF run assms(4,5,7)] by simp
  obtain i ls where st: "stopping n (builds n ?build) i ls s" using sys_inv_stopping [OF inv assms(8,9)] by blast
  have snd: "senders_ok s" using inv by (simp add: sys_inv_def)
  have len: "length (su_args su) = n"
    using startedD(1) [OF create_context_args_started [OF assms(2)]] assms(4) by simp
  have "droppable ?build (start su mem)"
    using created_context_drops [OF assms(1,2)] assms(6) len
    by (auto simp: droppable_def start_def in_set_conv_nth)
  then have "drops_ok s" using reachable_droppable [OF assms(7)] droppable_drops_ok by blast
  from stopping_completes [OF st snd this] stopping_bounded [OF st snd] stopping_weight [OF st]
  show ?thesis using le_less_trans by blast
qed

theorem shutdown_completes_witness:
  "\<exists>ks s'. run_schedule (demo_build lone_accessor) countdown ks stopping_state = Some s' \<and>
    (\<forall>t \<in> set (sys_threads s'). t = Finished)"
proof -
  obtain su where su: "create_context_args (demo_registry lone_accessor) demo_alloc (\<lambda>_. 64) demo_config = Ok su"
    "su_args su = map (\<lambda>k. demo_args lone_accessor k (demo_tree lone_accessor)) [0, Suc 0, Suc (Suc 0)]"
    using demo_startup by blast
  then have s0: "start su 0 = demo_start lone_accessor"
    using demo_run [of lone_accessor] by (simp add: run_def)
  have "k < 3 \<Longrightarrow> alloc_ok (demo_alloc k) (arena_layout (arena_capacity (ca_arena (su_args su ! k))))" for k
    by (auto simp: su demo_args_def alloc_ok_def demo_alloc_def numeral_3_eq_3 less_Suc_eq)
  moreover have "reachable (demo_build lone_accessor) countdown (start su 0) stopping_state"
    unfolding s0
    by (rule stopping_reached)
  moreover have "ended (sys_threads stopping_state ! 0)" by (simp add: stopping_state_def)
  ultimately show ?thesis
    using shutdown_completes [OF demo_nodes_run su(1) _ refl, where iter = id and user = countdown and mem = 0 and s = stopping_state and k = 0] su(2)
    by (simp add: demo_config_def)
qed

text \<open>
  The first actor makes an accessor, sends a message to the actor of the next context, and drops
  its accessor.
\<close>

definition greeting :: "nat msg" where
  "greeting = \<lparr>msg_targets = [(Offset 4, MetaUnit)], msg_fn = 7\<rparr>"

definition greets :: demo_program where
  "greets k = (if k = 0 then [InitAccessor,
     InitSend \<lparr>key_loc = \<lparr>loc_context = cid (Suc 0), loc_offset = Offset 4\<rparr>, key_meta = MetaUnit\<rparr> 7,
     InitAccessorDrop acc0] else [])"

definition greets_data :: "nat \<Rightarrow> nat context_data" where
  "greets_data k = (context_data_new (cid k))\<lparr>cd_unsent := (if k = 0 then [(cid (Suc 0), greeting)] else [])\<rparr>"

lemma greets_calls:
  "exec_init_calls (demo_init_args greets k) (greets k)
      \<lparr>id_data = context_data_new (cid k), id_relations = [], id_make_tx = [0..<3]\<rparr> =
    Ok (\<lparr>id_data = greets_data k, id_relations = [], id_make_tx = [0..<3]\<rparr>,
      if k = 0 then [AccClone acc0, AccDrop acc0] else [])"
  by (simp add: greets_def greets_data_def init_accessor_def demo_init_args_def context_data_new_def acc0_def
      init_send_msg_def accessor_drop_def key_closure_def greeting_def demo_ids)

lemma greets_create:
  "k < 3 \<Longrightarrow> demo_build greets (demo_args greets k (demo_tree greets)) mem =
    Ok (mem, demo_actor_context greets k (greets_data k),
      (if k = 0 then [AccClone acc0, AccDrop acc0] else []) @ [DropMakeTx])"
  using demo_create [OF _ greets_calls] by simp

lemma greets_local [simp]: "local_recv (cd_local_queue (greets_data k)) = (None, cd_local_queue (greets_data k))"
  by (simp add: greets_data_def context_data_new_def local_unbounded_def local_recv_def)

definition greets_end :: "((unit, unit, unit, nat, nat) context_constructor_args, nat, nat) sys" where
  "greets_end = \<lparr>sys_threads = [Finished, Finished, Finished],
     sys_channels = replicate 3 (remote_channel\<lparr>senders := 0, receiver_alive := False\<rparr>),
     sys_control = Freed cb_layout, sys_live = [], sys_outside = [], sys_make_tx = 0, sys_mem = 0\<rparr>"

lemma greets_run:
  "run_counted (demo_build greets) user
      (map Th [0, 0, 0, 0, 0, 0, 1, 1, 1, 1, 2, 2, 2, 2, 0, 0, 0, 0, 0, 0, 1, 1, 2, 2]) (demo_start greets) =
    Some greets_end"
  by (simp add: run_simps greets_create greets_end_def)

text \<open>
  C14. A message sent while an actor is initialised can be lost: it is kept in the unsent messages
  of the context, which are sent only after a message from the channel was handled. Here the
  first context sends one to the second and drops its accessor; the program runs to its end with
  all threads finished, and no handler was called.
\<close>

theorem init_message_lost:
  "\<exists>s. run (demo_registry greets) demo_alloc (\<lambda>_. 64) demo_config 0 = Ok (demo_start greets) \<and>
    create_context (demo_registry greets) id (demo_args greets 0 (demo_tree greets)) 0 =
      Ok (0, demo_actor_context greets 0 (greets_data 0), [AccClone acc0, AccDrop acc0, DropMakeTx]) \<and>
    cd_unsent (greets_data 0) = [(cid 1, greeting)] \<and>
    reachable (create_context (demo_registry greets) id) user (demo_start greets) s \<and>
    set (sys_threads s) = {Finished} \<and> sys_mem s = 0"
proof -
  have "reachable (demo_build greets) user (demo_start greets) greets_end"
    by (rule run_counted_reachable [OF demo_here greets_run])
  then show ?thesis using demo_run [of greets] greets_create [of 0 0]
    by (intro exI [of _ greets_end]) (simp add: greets_end_def greets_data_def)
qed

text \<open>
  C8. The thread that releases its reference last, when no event and no accessor is left, ends up
  in a runtime that never stops: the block is freed with the layout of a reference, all threads
  wait to receive, nobody sends \<open>Stop\<close>, and no thread has a step, unless it is the only one,
  whose receive then panics when all senders are gone.
\<close>

theorem last_release_strands:
  assumes "run registry alloc cb_alloc config mem = Ok s0" "length (config_contexts config) = n" "n + 1 < 2 ^ 32"
    and "reachable (create_context registry iter) user s0 s"
    and "sys_threads s ! k = Running PRelease [] c" "k < n" "total s = 1"
  shows "\<exists>s'. thread_step (create_context registry iter) user k s = Some (Ok s') \<and>
    sys_control s' = Freed ref_layout \<and>
    (\<forall>j<n. \<exists>c. sys_threads s' ! j = Running PRecv [] c \<and> pending (sys_channels s' ! j) = []) \<and>
    (\<forall>j. thread_step (create_context registry iter) user j s' = None \<or>
      n = 1 \<and> thread_step (create_context registry iter) user j s' = Some (Fault UnwrapFailed)) \<and>
    (\<forall>e. outside_step e s' = None)"
proof -
  let ?build = "create_context registry iter"
  let ?ready = "builds n ?build"
  have inv: "sys_inv n ?ready s" and snd: "senders_ok s"
    using run_reachable [OF assms(1-4)] by (auto simp: sys_inv_def)
  have run: "running n ?ready s" using inv assms(7) stuck_total stopping_total unfolding sys_inv_def by fastforce
  have len: "length (sys_threads s) = n" using sys_inv_shape [OF inv] by (simp add: shape_def)
  obtain s' where s': "point_step user k PRelease c s = Some (Ok s')" "running n ?ready s' \<and> 0 < total s' \<or> stuck n ?ready s'"
    using release_running [OF run assms(6,5)] assms(7) by auto
  have "release (sys_control s) = Ok (True, Freed ref_layout)"
    using release_tracks [of "sys_control s" 0] run assms(7) by (simp add: running_def tracks_Block)
  then have cb: "sys_control s' = Freed ref_layout" using s'(1) by (auto simp: into_unowned_def)
  then have stuck: "stuck n ?ready s'" using s'(2) by (auto simp: running_def)
  have step: "thread_step ?build user k s = Some (Ok s')" using s'(1) assms(5,6) len by (simp add: thread_step_def)
  have "senders_ok s'" by (rule senders_ok_step [OF snd sys_inv_shape [OF inv] step])
  from stuck_step [OF stuck this] have "thread_step ?build user j s' = None \<or>
      n = 1 \<and> thread_step ?build user j s' = Some (Fault UnwrapFailed)" for j
    by (cases "thread_step ?build user j s'") blast+
  moreover have "outside_step e s' = None" for e
    using stuck by (intro outside_quiet) (auto simp: stuck_def)
  ultimately show ?thesis using step cb stuck by (auto simp: stuck_def idle_def)
qed

definition releasing_state where
  "releasing_state = (demo_start no_calls)\<lparr>sys_threads :=
       [waiting no_calls 0, waiting no_calls (Suc 0), Running PRelease [] (demo_ctx no_calls (Suc (Suc 0)))],
     sys_channels := replicate 3 (remote_channel\<lparr>senders := 2\<rparr>), sys_control := Block 1, sys_make_tx := 0\<rparr>"

lemma releasing_run:
  "run_counted (demo_build no_calls) user (map Th [0, 0, 0, 0, 1, 1, 1, 1, 2, 2, 2]) (demo_start no_calls) = Some releasing_state"
  by (simp add: run_simps no_calls_create releasing_state_def)

theorem last_release_strands_witness:
  "\<exists>s. thread_step (demo_build no_calls) countdown 2 releasing_state = Some (Ok s) \<and>
    (\<forall>j. thread_step (demo_build no_calls) countdown j s = None)"
proof -
  have "total releasing_state = 1"
    by (simp add: releasing_state_def total_def demo_start_def waiting_def chan_tokens_def remote_channel_def replicate_3)
  moreover have "reachable (demo_build no_calls) countdown (demo_start no_calls) releasing_state"
    by (rule run_counted_reachable [OF demo_here releasing_run])
  moreover have "sys_threads releasing_state ! 2 = Running PRelease [] (demo_ctx no_calls (Suc (Suc 0)))"
    by (simp add: releasing_state_def numeral_2_eq_2)
  ultimately show ?thesis
    using last_release_strands [OF demo_run refl, where iter = id and user = countdown and s = releasing_state and k = 2]
    by (fastforce simp: demo_config_def)
qed



text \<open>
  The thread that sends its unsent messages sends each of them, grouped by the context they
  are for, those for the same context in the order in which they were sent; before that it has
  added their number less one to the counter (the message that was handled counted for one).
\<close>

theorem flush_keeps_order:
  assumes "count_point k c s = Ok s'" "cd_unsent (ctx_data c) = xs" "2 \<le> length xs" "k < length (sys_threads s)"
  shows "\<exists>ys old. sys_threads s' ! k = Running (PFlush ys) [] (clear_unsent c) \<and>
    mset ys = mset xs \<and> sorted (map fst ys) \<and>
    (\<forall>d. filter (\<lambda>(d', m). d' = d) ys = filter (\<lambda>(d', m). d' = d) xs) \<and>
    sys_control s = Block old \<and> sys_control s' = Block (old + of_nat (length xs) - 1)"
proof -
  obtain x y zs where xs: "xs = x # y # zs" using assms(3) by (cases xs; cases "tl xs") auto
  have sub: "n = m - 1" if "usub m 1 = Ok n" for m n :: u32 using that by (auto simp: usub_def split: if_splits)
  have "filter (\<lambda>(d', m). d' = d) (sort_key fst xs) = filter (\<lambda>(d', m). d' = d) xs" for d
    using sort_key_stable [of fst d xs] by (simp add: case_prod_beta' eq_commute)
  moreover obtain n control where "usub (of_nat (length xs) :: u32) 1 = Ok n"
    "fetch_add n (sys_control s) = Ok control" "s' = set_thread k (Running (PFlush (sort_key fst xs)) [] (clear_unsent c)) (s\<lparr>sys_control := snd control\<rparr>)"
    using assms(1,2) xs by (auto simp: count_point_def simp del: sort_key_simps length_Cons)
  moreover from this(1,2) obtain old where "sys_control s = Block old" "snd control = Block (old + of_nat (length xs) - 1)"
    using sub by (cases "sys_control s") (fastforce simp: fetch_add_def)+
  ultimately show ?thesis using assms(4) by auto
qed

definition flush_context :: "nat actor_context" where
  "flush_context = demo_actor_context lone_accessor (Suc 0) ((context_data_new (cid (Suc 0)))\<lparr>cd_unsent :=
     [(cid 2, greeting), (cid 0, greeting\<lparr>msg_fn := 1\<rparr>), (cid 2, greeting\<lparr>msg_fn := 2\<rparr>)]\<rparr>)"

theorem flush_keeps_order_witness:
  "\<exists>s' ys. count_point 1 flush_context ready_state = Ok s' \<and>
    sys_threads s' ! 1 = Running (PFlush ys) [] (clear_unsent flush_context) \<and>
    filter (\<lambda>(d, m). d = cid 2) ys = [(cid 2, greeting), (cid 2, greeting\<lparr>msg_fn := 2\<rparr>)] \<and>
    sys_control s' = Block 3"
proof -
  have c: "cd_unsent (ctx_data flush_context) =
      [(cid 2, greeting), (cid 0, greeting\<lparr>msg_fn := 1\<rparr>), (cid 2, greeting\<lparr>msg_fn := 2\<rparr>)]"
    by (simp add: flush_context_def)
  have cb: "sys_control ready_state = Block 1" by (simp add: ready_state_def)
  have "\<exists>s'. count_point 1 flush_context ready_state = Ok s'"
    unfolding count_point_def c by (simp add: cb usub_def word_le_nat_alt fetch_add_def)
  then obtain s' where s': "count_point 1 flush_context ready_state = Ok s'" by blast
  have "cid 0 \<noteq> cid 2" by simp
  moreover have "1 < length (sys_threads ready_state)" by (simp add: ready_state_def)
  ultimately show ?thesis
    using flush_keeps_order [OF s' c] s' cb by fastforce
qed

end
