(* ===== verification/Delivery.thy ===== *)
theory Delivery
  imports Shutdown
begin

text \<open>
  The messages of a whole run: what each step sends to which channel, what each step receives,
  and that the channels deliver everything that is sent, once and in the order of the sends.
\<close>

subsection \<open>What a step sends and receives\<close>

fun action_sends :: "'f action \<Rightarrow> (nat \<times> 'f queue_item) list" where
  "action_sends (AccPush a m) = [(acc_queue a, Msg m)]"
| "action_sends (AccDrop a) = [(acc_queue a, AccessorDropped)]"
| "action_sends _ = []"

fun point_sends :: "'f point \<Rightarrow> 'f actor_context \<Rightarrow> (nat \<times> 'f queue_item) list" where
  "point_sends (PFlush ((rx, m) # xs)) c =
     (case route (ctx_links c) (cd_id (ctx_data c)) rx of Ok l \<Rightarrow> [(l, Msg m)] | Fault e \<Rightarrow> [])"
| "point_sends (PStop (l # ls) free) c = [(l, Stop)]"
| "point_sends _ c = []"

fun thread_sends :: "('i, 'f) thread \<Rightarrow> (nat \<times> 'f queue_item) list" where
  "thread_sends (Running pt (a # as) c) = action_sends a"
| "thread_sends (Running pt [] c) = point_sends pt c"
| "thread_sends _ = []"

fun step_sends :: "'f sys_event \<Rightarrow> ('i, 'f, 'm) sys \<Rightarrow> (nat \<times> 'f queue_item) list" where
  "step_sends (Th k) s = thread_sends (sys_threads s ! k)"
| "step_sends (Out (OutStep i)) s = action_sends (sys_outside s ! i)"
| "step_sends _ s = []"

text \<open>The item that the thread's \<open>recv\<close> returns.\<close>

fun thread_receives :: "('i, 'f) thread \<Rightarrow> 'f queue_item channel list \<Rightarrow> (nat \<times> 'f queue_item) list" where
  "thread_receives (Running PRecv [] c) chans =
     (case rx_recv (chans ! ctx_rx c) of Some (Some item, ch) \<Rightarrow> [(ctx_rx c, item)] | _ \<Rightarrow> [])"
| "thread_receives _ chans = []"

fun step_receives :: "'f sys_event \<Rightarrow> ('i, 'f, 'm) sys \<Rightarrow> (nat \<times> 'f queue_item) list" where
  "step_receives (Th k) s = thread_receives (sys_threads s ! k) (sys_channels s)"
| "step_receives (Out e) s = []"

text \<open>What is logged of the steps of a schedule, and what of it concerns one channel.\<close>

fun run_log :: "('f sys_event \<Rightarrow> ('i, 'f, 'm) sys \<Rightarrow> 'x list) \<Rightarrow>
    ('i \<Rightarrow> 'm \<Rightarrow> ('m \<times> 'f actor_context \<times> 'f action list) res) \<Rightarrow> ('f, 'm) user \<Rightarrow>
    'f sys_event list \<Rightarrow> ('i, 'f, 'm) sys \<Rightarrow> 'x list" where
  "run_log log build user [] s = []"
| "run_log log build user (e # es) s =
     log e s @ (case sys_event_step build user e s of Some (Ok s') \<Rightarrow> run_log log build user es s' | _ \<Rightarrow> [])"

definition for_channel :: "nat \<Rightarrow> (nat \<times> 'f queue_item) list \<Rightarrow> 'f queue_item list" where
  "for_channel j log = map snd (filter (\<lambda>x. fst x = j) log)"

lemma for_channel_simps [simp]:
  "for_channel j [] = []" "for_channel j ((i, x) # log) = (if i = j then x # for_channel j log else for_channel j log)"
  "for_channel j (xs @ ys) = for_channel j xs @ for_channel j ys"
  by (simp_all add: for_channel_def)

subsection \<open>One step\<close>

lemma send_unwrap_pending:
  "send_unwrap l x s = Ok s' \<Longrightarrow> l < length (sys_channels s) \<Longrightarrow>
    pending (sys_channels s' ! j) = pending (sys_channels s ! j) @ for_channel j [(l, x)]"
  by (auto dest!: send_unwrap_Ok)

lemma pending_unchanged:
  "pending ch = pending (chans ! i) \<Longrightarrow> pending (chans[i := ch] ! j) = pending (chans ! j)"
  by (cases "i = j"; cases "i < length chans") (simp_all add: list_update_beyond)

lemma action_step_pending:
  assumes "action_step a s = Some (Ok (bs, s'))" "shape n ready s" "action_ok n a" "j < n"
  shows "pending (sys_channels s' ! j) = pending (sys_channels s ! j) @ for_channel j (action_sends a)"
proof -
  have len: "length (sys_channels s) = n" and live: "\<And>x. x \<in> set (sys_live s) \<Longrightarrow> acc_queue x < n"
    using assms(2) by (auto simp: shape_def)
  show ?thesis
  proof (cases a)
    case (AccDrop x)
    then obtain s1 where "send_unwrap (acc_queue x) AccessorDropped s = Ok s1" "acc_queue x < n"
      "s' = set_channel (acc_queue x) (tx_drop (sys_channels s1 ! acc_queue x)) (s1\<lparr>sys_live := remove1 x (sys_live s1)\<rparr>)"
      using assms(1) live available_live by (auto split: if_splits)
    then show ?thesis using send_unwrap_pending [of "acc_queue x" AccessorDropped s s1 j] AccDrop len
      by (auto simp: nth_list_update tx_drop_def dest!: send_unwrap_Ok)
  next
    case (AccPush x m)
    then show ?thesis using assms(1,3) len send_unwrap_pending [of "acc_queue x" "Msg m" s s' j]
      by (auto simp: action_ok_def)
  qed (use assms(1,4) len in \<open>auto simp: pending_unchanged tx_clone_def tx_drop_def split: if_splits\<close>)
qed

lemma outside_ok_action_ok: "outside_ok n a \<Longrightarrow> action_ok n a"
  by (auto simp: outside_ok_def dest: handler_action_ok) (simp add: action_ok_def)

lemma outside_step_pending:
  assumes "outside_step e s = Some (Ok s')" "shape n ready s" "j < n"
  shows "pending (sys_channels s' ! j) = pending (sys_channels s ! j) @ for_channel j (step_sends (Out e) s)"
proof (cases e)
  case (OutStep i)
  then obtain bs s1 where s1: "action_step (sys_outside s ! i) s = Some (Ok (bs, s1))" "i < length (sys_outside s)"
    "sys_channels s' = sys_channels s1" using assms(1) by (auto split: if_splits)
  have "action_ok n (sys_outside s ! i)"
    using assms(2) s1(2) nth_mem [OF s1(2)] by (auto simp: shape_def intro: outside_ok_action_ok)
  from action_step_pending [OF s1(1) assms(2) this assms(3)] show ?thesis using OutStep s1(3) by simp
qed (use assms(1) in \<open>auto split: if_splits\<close>)

lemma after_run_channels: "after_run k pt s r = Ok s' \<Longrightarrow> sys_channels s' = sys_channels s"
  by (auto simp: after_run_def)

text \<open>A point of \<open>run_thread\<close>. At its end nothing is in the channel that the thread drops.\<close>

lemma point_step_pending:
  assumes "point_step user k pt c s = Some (Ok s')" "shape n ready s" "k < n" "j < n"
    and "sys_threads s ! k = Running pt [] c"
    and "pt = PExit \<Longrightarrow> pending (sys_channels s ! k) = []"
  shows "pending (sys_channels s ! j) @ for_channel j (point_sends pt c) =
    for_channel j (thread_receives (Running pt [] c) (sys_channels s)) @ pending (sys_channels s' ! j)"
proof -
  have c: "ctx_rx c = k" "ctx_links c = links_for n k" "point_ok n k pt"
    using shape_thread [OF assms(2,3)] assms(5) by auto
  have len: "length (sys_channels s) = n" using assms(2) by (simp add: shape_def)
  show ?thesis
  proof (cases pt)
    case PRecv
    then obtain item rest where recv: "pending (sys_channels s ! k) = item # rest"
      "rx_recv (sys_channels s ! k) = Some (Some item, (sys_channels s ! k)\<lparr>pending := rest\<rparr>)"
      using assms(1) c by (auto simp: recv_point_def rx_recv_def split: list.splits if_splits)
    then have "sys_channels s' = (sys_channels s)[k := (sys_channels s ! k)\<lparr>pending := rest\<rparr>]"
      using assms(1) PRecv c by (auto simp: recv_point_def Let_def split: queue_item.splits dest!: after_run_channels)
    then show ?thesis using PRecv c recv len assms(3) by (cases "j = k") auto
  next
    case (PFlush xs)
    then obtain rx m ys where xs: "xs = (rx, m) # ys" using c(3) by (cases xs) auto
    then obtain l s1 where l: "route (ctx_links c) (cd_id (ctx_data c)) rx = Ok l" "send_unwrap l (Msg m) s = Ok s1"
      "sys_channels s' = sys_channels s1" using assms(1) PFlush by auto
    have "l \<in> set (links_for n k)" using l(1) c(2) by (auto simp: route_def simp del: links_for_set intro: nth_mem)
    then show ?thesis using send_unwrap_pending [OF l(2), of j] l xs PFlush len by (simp del: for_channel_simps(2))
  next
    case (PStop ls free)
    then show ?thesis using assms(1) c(3) len send_unwrap_pending [of "hd ls" Stop s _ j]
      by (cases ls) (auto split: if_splits simp del: for_channel_simps(2))
  next
    case PExit
    then show ?thesis using exit_point_Ok [OF assms(2,3), of c] assms c by (cases "j = k") auto
  qed (use assms(1) in \<open>auto simp: drain_point_def handled_point_def count_point_def split: option.splits list.splits dest!: after_run_channels\<close>)
qed

lemma event_step_pending:
  assumes "sys_event_step build user e s = Some (Ok s')" "sys_inv n ready s" "\<And>k i. ready k i \<longleftrightarrow> builds n build k i" "j < n"
  shows "pending (sys_channels s ! j) @ for_channel j (step_sends e s) =
    for_channel j (step_receives e s) @ pending (sys_channels s' ! j)"
proof (cases e)
  case (Out x)
  then show ?thesis using outside_step_pending [OF _ sys_inv_shape [OF assms(2)] assms(4)] assms(1) by simp
next
  case (Th k)
  have sh: "shape n ready s" by (rule sys_inv_shape [OF assms(2)])
  have k: "k < n" using assms(1) Th sh by (auto simp: thread_step_def shape_def split: if_splits)
  show ?thesis
  proof (cases "sys_threads s ! k")
    case (Waiting i)
    then show ?thesis using assms(1) Th by (auto simp: thread_step_def split: if_splits dest!: after_run_channels)
  next
    case Finished
    then show ?thesis using assms(1) Th by (simp add: thread_step_def split: if_splits)
  next
    case (Running pt as c)
    show ?thesis
    proof (cases as)
      case Nil
      have "pending (sys_channels s ! k) = []" if "pt = PExit"
      proof -
        have "\<not> active s" using that Running Nil sh k by (auto simp: active_def shape_def all_set_conv_all_nth)
        then obtain i ls where "stopping n ready i ls s"
          using assms(2) by (auto simp: sys_inv_def running_def stuck_def)
        then show ?thesis using that Running Nil k
          by (cases "k = i") (auto simp: stopping_def follower_def idle_def)
      qed
      then show ?thesis
        using point_step_pending [of user k pt c s s' n ready j] assms(1,4) Th Running Nil sh k
        by (simp add: thread_step_def split: if_splits)
    next
      case (Cons a bs)
      then obtain cs s1 where s1: "action_step a s = Some (Ok (cs, s1))" "sys_channels s' = sys_channels s1"
        using assms(1) Th Running by (auto simp: thread_step_def split: if_splits)
      have "action_ok n a" using shape_thread [OF sh k] Running Cons by simp
      from action_step_pending [OF s1(1) sh this assms(4)] show ?thesis using Th Running Cons s1(2) by simp
    qed
  qed
qed

subsection \<open>Whole runs\<close>

lemma run_counted_step:
  assumes "run_counted build user (e # es) s = Some s'"
  obtains t where "sys_event_step build user e s = Some (Ok t)" "total t < 2 ^ 32" "run_counted build user es t = Some s'"
  using assms by (auto split: option.splits sum.splits if_splits)

lemma run_pending:
  assumes "run_counted build user es s = Some s'" "sys_inv n (builds n build) s" "total s < 2 ^ 32" "j < n"
  shows "pending (sys_channels s ! j) @ for_channel j (run_log step_sends build user es s) =
    for_channel j (run_log step_receives build user es s) @ pending (sys_channels s' ! j)"
  using assms(1-3)
proof (induction es arbitrary: s)
  case (Cons e es)
  obtain t where t: "sys_event_step build user e s = Some (Ok t)" "total t < 2 ^ 32" "run_counted build user es t = Some s'"
    by (rule run_counted_step [OF Cons.prems(1)])
  have here: "reachable build user s s" using Cons.prems(3) by (rule reachable.here)
  have "run_counted build user [e] s = Some t" using t by simp
  from reachable_inv [OF run_counted_reachable [OF here this] Cons.prems(2)] have "sys_inv n (builds n build) t" by simp
  from Cons.IH [OF t(3) this t(2)] event_step_pending [OF t(1) Cons.prems(2) refl assms(4)] t(1)
  show ?case by (metis (no_types, lifting) append.assoc for_channel_simps(3) option.simps(5) run_log.simps(2) sum.simps(6))
qed simp

lemma run_starts_empty:
  assumes "run registry alloc cb_alloc config mem = Ok s0" "length (config_contexts config) = n" "j < n"
  shows "pending (sys_channels s0 ! j) = []"
proof -
  obtain su where su: "create_context_args registry alloc cb_alloc config = Ok su" "s0 = start su mem"
    using assms(1) by (auto simp: run_def)
  show ?thesis using startedD(7) [OF create_context_args_started [OF su(1)]] su(2) assms(2,3)
    by (simp add: start_def remote_channel_def)
qed

subsection \<open>Properties\<close>



end
