(* ===== verification/Resources.thy ===== *)
theory Resources
  imports Registry
begin

text \<open>
  Resources (\<open>LazyResource\<close> of \<open>context.rs\<close>, the resource map of \<open>runtime/mod.rs\<close> and
  \<open>InitArgs::get_resource\<close>): each registered resource is a \<open>LazyLock\<close>, which all threads share.
  The thread that first needs it runs its constructor; the others wait for it meanwhile.

  What a constructor does is user code: the outcome of each run of one is an input of the step
  in which it returns, or panics (\<open>None\<close>).
\<close>

subsection \<open>The cells\<close>

text \<open>\<open>Box<dyn Any>\<close>: a value with the type it was boxed with.\<close>

record 'r shared_any =
  any_type :: type_id
  any_value :: 'r

definition downcast_ref :: "type_id \<Rightarrow> 'r shared_any \<Rightarrow> 'r option" where
  "downcast_ref t a = (if any_type a = t then Some (any_value a) else None)"

text \<open>\<open>LazyLock\<close>: not used yet, its constructor running on a thread, constructed, or poisoned.\<close>

datatype ('s, 'r) lazy_resource = Lazy 's | Constructing nat | Constructed "'r shared_any" | Poisoned

definition resource_map :: "('v, 'c, 'a, 'x, 's) registry \<Rightarrow> type_id \<Rightarrow> ('s, 'r) lazy_resource option" where
  "resource_map registry t = map_option Lazy (resource_constructors registry t)"

text \<open>The closure that \<open>init_resource\<close> registers for the type \<open>t\<close> boxes the value of that type.\<close>

definition boxed :: "type_id \<Rightarrow> 'r \<Rightarrow> 'r shared_any" where
  "boxed t v = \<lparr>any_type = t, any_value = v\<rparr>"

subsection \<open>Threads that get resources\<close>

record 'r getter =
  get_todo :: "type_id list"              \<comment> \<open>the calls of \<open>get_resource\<close> to come\<close>
  get_done :: "(type_id \<times> 'r) list"
  get_panic :: "fault option"

record ('s, 'r) resources =
  res_cells :: "type_id \<Rightarrow> ('s, 'r) lazy_resource option"
  res_getters :: "'r getter list"
  res_runs :: "type_id list"              \<comment> \<open>the constructors that were started, in order\<close>

definition set_getter :: "nat \<Rightarrow> 'r getter \<Rightarrow> ('s, 'r) resources \<Rightarrow> ('s, 'r) resources" where
  "set_getter k g s = s\<lparr>res_getters := (res_getters s)[k := g]\<rparr>"

definition set_cell :: "type_id \<Rightarrow> ('s, 'r) lazy_resource \<Rightarrow> ('s, 'r) resources \<Rightarrow> ('s, 'r) resources" where
  "set_cell t l s = s\<lparr>res_cells := (res_cells s)(t \<mapsto> l)\<rparr>"

text \<open>
  A step of thread \<open>k\<close> in \<open>get_resource\<close>; \<open>None\<close> if it waits for another thread, or has no call
  to make.
\<close>

definition get_resource_step :: "nat \<Rightarrow> 'r option \<Rightarrow> ('s, 'r) resources \<Rightarrow> ('s, 'r) resources option" where
  "get_resource_step k outcome s =
     (if k < length (res_getters s) \<and> get_panic (res_getters s ! k) = None then
        (let g = res_getters s ! k; panics = (\<lambda>e. set_getter k (g\<lparr>get_panic := Some e\<rparr>)) in
         case get_todo g of
           [] \<Rightarrow> None
         | t # ts \<Rightarrow>
             (case res_cells s t of
                None \<Rightarrow> Some (panics UnwrapFailed s)
              | Some (Lazy f) \<Rightarrow> Some (set_cell t (Constructing k) (s\<lparr>res_runs := res_runs s @ [t]\<rparr>))
              | Some (Constructing j) \<Rightarrow>
                  if j = k then
                    (case outcome of
                       Some v \<Rightarrow> Some (set_cell t (Constructed (boxed t v)) s)
                     | None \<Rightarrow> Some (set_cell t Poisoned (panics ExplicitPanic s)))
                  else None
              | Some (Constructed a) \<Rightarrow>
                  (case downcast_ref t a of
                     Some v \<Rightarrow> Some (set_getter k (g\<lparr>get_todo := ts, get_done := get_done g @ [(t, v)]\<rparr>) s)
                   | None \<Rightarrow> Some (panics UnwrapFailed s))
              | Some Poisoned \<Rightarrow> Some (panics ExplicitPanic s)))
      else None)"

fun get_resources :: "(nat \<times> 'r option) list \<Rightarrow> ('s, 'r) resources \<Rightarrow> ('s, 'r) resources option" where
  "get_resources [] s = Some s"
| "get_resources ((k, outcome) # es) s = Option.bind (get_resource_step k outcome s) (get_resources es)"

definition resources_start :: "('v, 'c, 'a, 'x, 's) registry \<Rightarrow> type_id list list \<Rightarrow> ('s, 'r) resources" where
  "resources_start registry calls = \<lparr>res_cells = resource_map registry,
     res_getters = map (\<lambda>ts. \<lparr>get_todo = ts, get_done = [], get_panic = None\<rparr>) calls, res_runs = []\<rparr>"

subsection \<open>The invariant\<close>

text \<open>The cells of the types in \<open>R\<close>, the registered ones, and what the threads got.\<close>

definition cell_ok :: "type_id set \<Rightarrow> ('s, 'r) resources \<Rightarrow> type_id \<Rightarrow> bool" where
  "cell_ok R s t \<longleftrightarrow> (case res_cells s t of
     None \<Rightarrow> t \<notin> R \<and> t \<notin> set (res_runs s)
   | Some (Lazy f) \<Rightarrow> t \<in> R \<and> t \<notin> set (res_runs s)
   | Some (Constructing k) \<Rightarrow> t \<in> R \<and> t \<in> set (res_runs s) \<and> k < length (res_getters s) \<and>
       get_panic (res_getters s ! k) = None \<and> (\<exists>ts. get_todo (res_getters s ! k) = t # ts)
   | Some (Constructed a) \<Rightarrow> t \<in> R \<and> t \<in> set (res_runs s) \<and> any_type a = t
   | Some Poisoned \<Rightarrow> t \<in> R \<and> t \<in> set (res_runs s))"

definition getter_ok :: "('s, 'r) resources \<Rightarrow> type_id list \<Rightarrow> 'r getter \<Rightarrow> bool" where
  "getter_ok s calls g \<longleftrightarrow> calls = map fst (get_done g) @ get_todo g \<and>
     (\<forall>(t, v) \<in> set (get_done g). res_cells s t = Some (Constructed (boxed t v))) \<and>
     (get_panic g \<noteq> None \<longrightarrow> (\<exists>t ts. get_todo g = t # ts \<and> (res_cells s t = None \<or> res_cells s t = Some Poisoned)))"

definition resources_ok :: "type_id set \<Rightarrow> type_id list list \<Rightarrow> ('s, 'r) resources \<Rightarrow> bool" where
  "resources_ok R calls s \<longleftrightarrow> distinct (res_runs s) \<and> (\<forall>t. cell_ok R s t) \<and>
     length (res_getters s) = length calls \<and> (\<forall>k < length calls. getter_ok s (calls ! k) (res_getters s ! k))"

lemma resources_fields [simp]:
  "res_cells (set_getter k g s) = res_cells s" "res_getters (set_getter k g s) = (res_getters s)[k := g]"
  "res_runs (set_getter k g s) = res_runs s" "res_cells (set_cell t l s) = (res_cells s)(t \<mapsto> l)"
  "res_getters (set_cell t l s) = res_getters s" "res_runs (set_cell t l s) = res_runs s"
  by (simp_all add: set_getter_def set_cell_def)

lemma set_cell_getter: "set_cell t l (set_getter k g s) = set_getter k g (set_cell t l s)"
  by (simp add: set_getter_def set_cell_def)

lemma resources_start_ok: "resources_ok (dom (resource_constructors registry)) calls (resources_start registry calls)"
  by (auto simp: resources_ok_def resources_start_def cell_ok_def getter_ok_def resource_map_def split: option.splits)

lemma resources_ok_getter:
  assumes "resources_ok R calls s" "k < length calls" "getter_ok s (calls ! k) g"
    and "\<forall>u. res_cells s u \<noteq> Some (Constructing k)"
  shows "resources_ok R calls (set_getter k g s)"
proof -
  have "cell_ok R (set_getter k g s) u" for u
  proof -
    have "cell_ok R s u" "res_cells s u \<noteq> Some (Constructing k)" using assms(1,4) by (auto simp: resources_ok_def)
    then show ?thesis by (auto simp: cell_ok_def nth_list_update split: option.splits lazy_resource.splits)
  qed
  moreover have "getter_ok (set_getter k g s) cs x = getter_ok s cs x" for cs x by (simp add: getter_ok_def)
  ultimately show ?thesis using assms(1-3) by (auto simp: resources_ok_def nth_list_update)
qed

lemma resources_ok_cell:
  assumes "resources_ok R calls s" "res_cells s t = Some l" "(\<exists>f. l = Lazy f) \<or> (\<exists>j. l = Constructing j)"
    and "runs = res_runs s \<or> runs = res_runs s @ [t]" "distinct runs"
    and "cell_ok R (set_cell t l' (s\<lparr>res_runs := runs\<rparr>)) t"
  shows "resources_ok R calls (set_cell t l' (s\<lparr>res_runs := runs\<rparr>))"
proof -
  let ?s = "set_cell t l' (s\<lparr>res_runs := runs\<rparr>)"
  have "cell_ok R ?s u" for u
  proof (cases "u = t")
    case False
    have "cell_ok R s u" using assms(1) by (simp add: resources_ok_def)
    then show ?thesis using False assms(4) by (auto simp: cell_ok_def split: option.splits lazy_resource.splits)
  qed (use assms(6) in simp)
  moreover have "getter_ok ?s cs g" if "getter_ok s cs g" for cs g
    using that assms(2,3) by (fastforce simp: getter_ok_def)
  ultimately show ?thesis using assms(1,5) by (simp add: resources_ok_def)
qed

lemma get_resource_step_ok:
  assumes "get_resource_step k outcome s = Some s'" "resources_ok R calls s"
  shows "resources_ok R calls s'"
proof -
  obtain t ts where k: "k < length (res_getters s)" "get_panic (res_getters s ! k) = None" "get_todo (res_getters s ! k) = t # ts"
    using assms(1) by (auto simp: get_resource_step_def Let_def split: if_splits list.splits)
  let ?g = "res_getters s ! k"
  have ok: "distinct (res_runs s)" "cell_ok R s u" "length (res_getters s) = length calls" "getter_ok s (calls ! k) ?g" for u
    using assms(2) k(1) by (auto simp: resources_ok_def)
  note step = assms(1) [unfolded get_resource_step_def Let_def, simplified k, simplified]
  have here: "u = t" if "res_cells s u = Some (Constructing k)" for u
    using ok(2) [of u] that k(3) by (simp add: cell_ok_def)
  have panic: "resources_ok R calls (set_getter k (?g\<lparr>get_panic := Some e\<rparr>) x)"
    if "resources_ok R calls x" "res_getters x = res_getters s" "res_cells x t = None \<or> res_cells x t = Some Poisoned"
      "\<forall>u. u \<noteq> t \<longrightarrow> res_cells x u = res_cells s u" for e x
  proof (rule resources_ok_getter [OF that(1)])
    have "getter_ok x (calls ! k) (res_getters x ! k)" using that(1) ok(3) k(1) by (simp add: resources_ok_def)
    then show "getter_ok x (calls ! k) (?g\<lparr>get_panic := Some e\<rparr>)" using that(2,3) k(3) by (auto simp: getter_ok_def)
    show "\<forall>u. res_cells x u \<noteq> Some (Constructing k)" using here that(3,4) by (metis lazy_resource.distinct(9) option.distinct(1) option.inject)
  qed (use ok(3) k(1) in simp)
  show ?thesis
  proof (cases "res_cells s t")
    case None
    then show ?thesis using step panic [of s] assms(2) by auto
  next
    case (Some l)
    show ?thesis
    proof (cases l)
      case (Lazy f)
      have "s' = set_cell t (Constructing k) (s\<lparr>res_runs := res_runs s @ [t]\<rparr>)" using step Some Lazy by simp
      moreover have "t \<in> R" "t \<notin> set (res_runs s)" using ok(2) [of t] Some Lazy by (auto simp: cell_ok_def)
      ultimately show ?thesis using resources_ok_cell [OF assms(2) Some, of "res_runs s @ [t]" "Constructing k"] Lazy ok(1) k
        by (simp add: cell_ok_def)
    next
      case (Constructing j)
      have t: "t \<in> R" "t \<in> set (res_runs s)" using ok(2) [of t] Some Constructing by (auto simp: cell_ok_def)
      have j: "j = k" using step Some Constructing by (auto split: if_splits)
      show ?thesis
      proof (cases outcome)
        case (Some v)
        then have "s' = set_cell t (Constructed (boxed t v)) (s\<lparr>res_runs := res_runs s\<rparr>)"
          using step \<open>res_cells s t = Some l\<close> Constructing j by simp
        then show ?thesis
          using resources_ok_cell [OF assms(2) \<open>res_cells s t = Some l\<close>, of "res_runs s" "Constructed (boxed t v)"] Constructing ok(1) t
          by (simp add: cell_ok_def boxed_def)
      next
        case None
        let ?x = "set_cell t Poisoned (s\<lparr>res_runs := res_runs s\<rparr>)"
        have "s' = set_getter k (?g\<lparr>get_panic := Some ExplicitPanic\<rparr>) ?x"
          using step None Some Constructing j by (simp add: set_cell_getter)
        moreover have "resources_ok R calls ?x"
          using resources_ok_cell [OF assms(2) Some, of "res_runs s" Poisoned] Constructing ok(1) t by (simp add: cell_ok_def)
        ultimately show ?thesis using panic [of ?x] by simp
      qed
    next
      case (Constructed a)
      have a: "a = boxed t (any_value a)" using ok(2) [of t] Some Constructed by (simp add: cell_ok_def boxed_def)
      have "downcast_ref t a = Some (any_value a)" by (subst a) (simp add: downcast_ref_def boxed_def)
      then have s': "s' = set_getter k (?g\<lparr>get_todo := ts, get_done := get_done ?g @ [(t, any_value a)]\<rparr>) s"
        using step Some Constructed by simp
      have "getter_ok s (calls ! k) (?g\<lparr>get_todo := ts, get_done := get_done ?g @ [(t, any_value a)]\<rparr>)"
        using ok(4) k Some Constructed a by (auto simp: getter_ok_def)
      moreover have "\<forall>u. res_cells s u \<noteq> Some (Constructing k)" using here Some Constructed by auto
      ultimately show ?thesis unfolding s' using ok(3) k(1) by (intro resources_ok_getter [OF assms(2)]) auto
    next
      case Poisoned
      then show ?thesis using step Some panic [of s] assms(2) by auto
    qed
  qed
qed

lemma get_resources_ok:
  assumes "get_resources es s = Some s'" "resources_ok R calls s"
  shows "resources_ok R calls s'"
  using assms
proof (induction es s rule: get_resources.induct)
  case (2 k outcome es s)
  then obtain t where "get_resource_step k outcome s = Some t" "get_resources es t = Some s'" by (auto simp: bind_eq_Some_conv)
  then show ?case using 2 get_resource_step_ok by blast
qed simp

text \<open>The invariant as it bears on what the threads got.\<close>

lemma getter_okD:
  assumes "resources_ok R calls s" "k < length calls"
  shows "calls ! k = map fst (get_done (res_getters s ! k)) @ get_todo (res_getters s ! k)"
    "\<And>t v. (t, v) \<in> set (get_done (res_getters s ! k)) \<Longrightarrow> res_cells s t = Some (Constructed (boxed t v))"
    "get_panic (res_getters s ! k) \<noteq> None \<Longrightarrow> \<exists>t ts. get_todo (res_getters s ! k) = t # ts \<and> (res_cells s t = None \<or> res_cells s t = Some Poisoned)"
  using assms by (auto simp: resources_ok_def getter_ok_def)

definition value_of :: "('s, 'r) resources \<Rightarrow> type_id \<Rightarrow> 'r" where
  "value_of s t = (case res_cells s t of Some (Constructed a) \<Rightarrow> any_value a | _ \<Rightarrow> undefined)"

lemma get_done_values:
  assumes "resources_ok R calls s" "k < length calls"
  shows "get_done (res_getters s ! k) = map (\<lambda>t. (t, value_of s t)) (map fst (get_done (res_getters s ! k)))"
  using getter_okD(2) [OF assms] by (auto simp: comp_def value_of_def boxed_def intro!: map_idI [symmetric])

subsection \<open>Calls that all succeed\<close>

definition constructed :: "('s, 'r) resources \<Rightarrow> type_id \<Rightarrow> bool" where
  "constructed s t \<longleftrightarrow> (case res_cells s t of Some (Constructed a) \<Rightarrow> True | _ \<Rightarrow> False)"

definition get_progress :: "('s, 'r) resources \<Rightarrow> nat" where
  "get_progress s = sum_list (map (length \<circ> get_done) (res_getters s)) + length (res_runs s) +
     length (filter (constructed s) (res_runs s))"

definition all_well :: "('s, 'r) resources \<Rightarrow> type_id list list \<Rightarrow> bool" where
  "all_well s calls \<longleftrightarrow> (\<forall>g \<in> set (res_getters s). get_panic g = None) \<and> (\<forall>t. res_cells s t \<noteq> Some Poisoned) \<and>
     set (res_runs s) \<subseteq> set (concat calls)"

lemma get_resource_step_progress:
  assumes "get_resource_step k (Some v) s = Some s'" "resources_ok R calls s" "all_well s calls" "set (concat calls) \<subseteq> R"
  shows "all_well s' calls \<and> get_progress s' = Suc (get_progress s)"
proof -
  obtain t ts where k: "k < length (res_getters s)" "get_panic (res_getters s ! k) = None" "get_todo (res_getters s ! k) = t # ts"
    using assms(1) by (auto simp: get_resource_step_def Let_def split: if_splits list.splits)
  let ?g = "res_getters s ! k"
  have ok: "distinct (res_runs s)" "cell_ok R s t" "k < length calls"
    using assms(2) k(1) by (auto simp: resources_ok_def)
  have "t \<in> set (calls ! k)" using getter_okD(1) [OF assms(2) ok(3)] k(3) by simp
  then have t: "t \<in> set (concat calls)" using nth_mem [OF ok(3)] by auto
  note step = assms(1) [unfolded get_resource_step_def Let_def, simplified k, simplified]
  obtain l where l: "res_cells s t = Some l" using ok(2) t assms(4) by (auto simp: cell_ok_def split: option.splits)
  show ?thesis
  proof (cases l)
    case (Lazy f)
    have s': "s' = set_cell t (Constructing k) (s\<lparr>res_runs := res_runs s @ [t]\<rparr>)" using step l Lazy by simp
    have new: "t \<notin> set (res_runs s)" using ok(2) l Lazy by (simp add: cell_ok_def)
    then have "filter (constructed s') (res_runs s) = filter (constructed s) (res_runs s)"
      by (intro filter_cong) (auto simp: s' constructed_def)
    then show ?thesis using assms(3) t by (auto simp: s' all_well_def get_progress_def constructed_def)
  next
    case (Constructing j)
    have s': "s' = set_cell t (Constructed (boxed t v)) s" using step l Constructing by (auto split: if_splits)
    have "t \<in> set (res_runs s)" using ok(2) l Constructing by (simp add: cell_ok_def)
    then obtain xs ys where runs: "res_runs s = xs @ t # ys" by (meson split_list)
    then have "t \<notin> set xs" "t \<notin> set ys" using ok(1) by auto
    then have "filter (constructed s') xs = filter (constructed s) xs" "filter (constructed s') ys = filter (constructed s) ys"
      by (auto simp: s' constructed_def intro!: filter_cong split: if_split_asm)
    moreover have "constructed s' t" "\<not> constructed s t" using l Constructing by (simp_all add: s' constructed_def)
    ultimately have "length (filter (constructed s') (res_runs s)) = Suc (length (filter (constructed s) (res_runs s)))"
      by (simp add: runs)
    then show ?thesis using assms(3) by (auto simp: s' all_well_def get_progress_def)
  next
    case (Constructed a)
    have "downcast_ref t a = Some (any_value a)" using ok(2) l Constructed by (simp add: cell_ok_def downcast_ref_def)
    then have s': "s' = set_getter k (?g\<lparr>get_todo := ts, get_done := get_done ?g @ [(t, any_value a)]\<rparr>) s"
      using step l Constructed by simp
    have "constructed s' = constructed s" by (simp add: s' constructed_def fun_eq_iff)
    moreover have "sum_list (map (length \<circ> get_done) (res_getters s')) = Suc (sum_list (map (length \<circ> get_done) (res_getters s)))"
      using sum_list_map_update [OF k(1), of "length \<circ> get_done" "?g\<lparr>get_todo := ts, get_done := get_done ?g @ [(t, any_value a)]\<rparr>"]
      by (simp add: s')
    ultimately show ?thesis using assms(3) k by (auto simp: s' all_well_def get_progress_def dest!: set_update_subset_insert [THEN subsetD])
  next
    case Poisoned
    then show ?thesis using assms(3) l by (simp add: all_well_def)
  qed
qed

lemma get_resources_progress:
  assumes "get_resources es s = Some s'" "\<forall>e \<in> set es. snd e \<noteq> None" "resources_ok R calls s" "all_well s calls"
    "set (concat calls) \<subseteq> R"
  shows "all_well s' calls \<and> get_progress s' = get_progress s + length es"
  using assms(1-4)
proof (induction es s rule: get_resources.induct)
  case (2 k outcome es s)
  obtain v t where t: "outcome = Some v" "get_resource_step k outcome s = Some t" "get_resources es t = Some s'"
    using 2 by (auto simp: bind_eq_Some_conv)
  have step: "all_well t calls \<and> get_progress t = Suc (get_progress s)"
    using get_resource_step_progress [of k v s t R calls] t 2 assms(5) by simp
  have "resources_ok R calls t" using get_resource_step_ok [OF t(2) 2(4)] .
  then show ?case using 2(1) [OF t(2) t(3)] 2(3) step by simp
qed simp

text \<open>No thread waits forever: if one has calls to make, some thread takes a step.\<close>

lemma no_deadlock:
  assumes "resources_ok R calls s" "all_well s calls" "k < length calls" "get_todo (res_getters s ! k) \<noteq> []"
  shows "\<exists>j. get_resource_step j (Some v) s \<noteq> None"
proof -
  obtain t ts where t: "get_todo (res_getters s ! k) = t # ts" using assms(4) by (cases "get_todo (res_getters s ! k)") auto
  have k: "k < length (res_getters s)" using assms(1,3) by (simp add: resources_ok_def)
  then have well: "get_panic (res_getters s ! k) = None" using assms(2) by (simp add: all_well_def)
  have cell: "cell_ok R s t" using assms(1) by (simp add: resources_ok_def)
  show ?thesis
  proof (cases "\<exists>j. res_cells s t = Some (Constructing j)")
    case True
    then obtain j us where "res_cells s t = Some (Constructing j)" "j < length (res_getters s)"
      "get_panic (res_getters s ! j) = None" "get_todo (res_getters s ! j) = t # us" using cell by (auto simp: cell_ok_def)
    then have "get_resource_step j (Some v) s \<noteq> None" by (simp add: get_resource_step_def Let_def)
    then show ?thesis by blast
  next
    case False
    then have "get_resource_step k (Some v) s \<noteq> None"
      using k well t by (auto simp: get_resource_step_def Let_def split: option.splits lazy_resource.splits)
    then show ?thesis by blast
  qed
qed

subsection \<open>Properties\<close>

text \<open>
  C27. However the threads interleave, each resource is constructed at most once, only if it is
  registered, and every call of \<open>get_resource\<close> that returns for a type returns the same value;
  the calls of a thread return in order. A call panics only if the type is not registered or the
  constructor of the resource panicked.
\<close>

theorem resources_constructed_once:
  assumes "get_resources es (resources_start registry calls) = Some s"
  shows "distinct (res_runs s) \<and> set (res_runs s) \<subseteq> dom (resource_constructors registry) \<and>
    (\<exists>val. \<forall>k < length calls. \<exists>n. get_done (res_getters s ! k) = map (\<lambda>t. (t, val t)) (take n (calls ! k))) \<and>
    (\<forall>k < length calls. get_panic (res_getters s ! k) \<noteq> None \<longrightarrow> (\<exists>t \<in> set (calls ! k).
       resource_constructors registry t = None \<or> res_cells s t = Some Poisoned))"
proof -
  have ok: "resources_ok (dom (resource_constructors registry)) calls s"
    using get_resources_ok [OF assms resources_start_ok] .
  have cells: "cell_ok (dom (resource_constructors registry)) s t" for t using ok by (simp add: resources_ok_def)
  have runs: "set (res_runs s) \<subseteq> dom (resource_constructors registry)"
  proof
    fix t assume "t \<in> set (res_runs s)"
    then show "t \<in> dom (resource_constructors registry)"
      using cells [of t] by (auto simp: cell_ok_def split: option.splits lazy_resource.splits)
  qed
  have "get_done (res_getters s ! k) = map (\<lambda>t. (t, value_of s t)) (take (length (get_done (res_getters s ! k))) (calls ! k))"
    if "k < length calls" for k
    using get_done_values [OF ok that] getter_okD(1) [OF ok that] by simp
  moreover have "\<exists>t \<in> set (calls ! k). resource_constructors registry t = None \<or> res_cells s t = Some Poisoned"
    if k: "k < length calls" "get_panic (res_getters s ! k) \<noteq> None" for k
  proof -
    obtain t ts where t: "get_todo (res_getters s ! k) = t # ts" "res_cells s t = None \<or> res_cells s t = Some Poisoned"
      using getter_okD(3) [OF ok k] by blast
    have "t \<in> set (calls ! k)" using getter_okD(1) [OF ok k(1)] t(1) by simp
    moreover have "resource_constructors registry t = None" if "res_cells s t = None"
      using cells [of t] that by (auto simp: cell_ok_def)
    ultimately show ?thesis using t(2) by auto
  qed
  ultimately show ?thesis using ok runs by (auto simp: resources_ok_def)
qed

text \<open>Two threads that need the resource of type 4, which is constructed once.\<close>

definition sample_registry :: "(unit, unit, unit, unit, string) registry" where
  "sample_registry = builder_default\<lparr>resource_constructors := [TypeId 4 \<mapsto> ''tokio'']\<rparr>"

definition sample_steps :: "(nat \<times> nat option) list" where
  "sample_steps = [(0, Some 7), (0, Some 7), (1, Some 8), (0, Some 9)]"

theorem resources_constructed_once_witness:
  "\<exists>s. get_resources sample_steps (resources_start sample_registry [[TypeId 4], [TypeId 4]]) = Some s \<and>
    res_runs s = [TypeId 4] \<and> distinct (res_runs s) \<and> get_done (res_getters s ! 0) = [(TypeId 4, 7)] \<and>
    get_done (res_getters s ! 1) = [(TypeId 4, 7)]"
proof -
  obtain s where s: "get_resources sample_steps (resources_start sample_registry [[TypeId 4], [TypeId 4]]) = Some s"
    "res_runs s = [TypeId 4]" "get_done (res_getters s ! 0) = [(TypeId 4, 7)]" "get_done (res_getters s ! 1) = [(TypeId 4, 7)]"
    by (simp add: sample_steps_def resources_start_def sample_registry_def resource_map_def get_resource_step_def
        set_cell_def set_getter_def downcast_ref_def boxed_def Let_def)
  then show ?thesis using resources_constructed_once [OF s(1)] by auto
qed

text \<open>
  If the constructors do not panic and all types that threads ask for are registered, all calls
  are served: no thread panics, while a thread has calls to make some thread can take a step, and
  no run has more steps than the calls and twice the types asked for, so the threads do finish.
  Then the resources constructed are exactly those that some thread asked for.
\<close>

theorem resources_served:
  assumes "get_resources es (resources_start registry calls) = Some s" "\<forall>e \<in> set es. snd e \<noteq> None"
    and "set (concat calls) \<subseteq> dom (resource_constructors registry)"
  shows "(\<forall>g \<in> set (res_getters s). get_panic g = None) \<and>
    length es \<le> length (concat calls) + 2 * card (set (concat calls)) \<and>
    ((\<exists>j v. get_resource_step j (Some v) s \<noteq> None) \<or>
      (\<forall>k < length calls. map fst (get_done (res_getters s ! k)) = calls ! k) \<and> set (res_runs s) = set (concat calls))"
proof -
  let ?R = "dom (resource_constructors registry)" and ?s0 = "resources_start registry calls"
  have start: "all_well ?s0 calls" "get_progress ?s0 = 0"
    by (auto simp: all_well_def get_progress_def resources_start_def resource_map_def comp_def)
  have ok: "resources_ok ?R calls s" using get_resources_ok [OF assms(1) resources_start_ok] .
  have well: "all_well s calls" "get_progress s = length es"
    using get_resources_progress [OF assms(1,2) resources_start_ok start(1) assms(3)] start(2) by auto
  have runs: "distinct (res_runs s)" "set (res_runs s) \<subseteq> set (concat calls)"
    using ok well(1) by (auto simp: resources_ok_def all_well_def)
  then have few: "length (res_runs s) \<le> card (set (concat calls))"
    using card_mono [of "set (concat calls)" "set (res_runs s)"] by (simp add: distinct_card)
  have len: "length (res_getters s) = length calls" using ok by (simp add: resources_ok_def)
  have "sum_list (map (length \<circ> get_done) (res_getters s)) \<le> sum_list (map length calls)"
    using getter_okD(1) [OF ok] len by (intro sum_list_mono2) simp_all
  then have "length es \<le> length (concat calls) + 2 * card (set (concat calls))"
    using well(2) few length_filter_le [of "constructed s" "res_runs s"]
    unfolding get_progress_def length_concat by linarith
  moreover have "(\<forall>k < length calls. map fst (get_done (res_getters s ! k)) = calls ! k) \<and> set (res_runs s) = set (concat calls)"
    if none: "\<not> (\<exists>j v. get_resource_step j (Some v) s \<noteq> None)"
  proof -
    have todo: "get_todo (res_getters s ! k) = []" if "k < length calls" for k
      using no_deadlock [OF ok well(1) that] none by blast
    have all: "map fst (get_done (res_getters s ! k)) = calls ! k" if "k < length calls" for k
      using getter_okD(1) [OF ok that] todo [OF that] by simp
    moreover have "t \<in> set (res_runs s)" if "t \<in> set (concat calls)" for t
    proof -
      have "\<exists>k < length calls. t \<in> set (calls ! k)" using that by (auto simp: set_concat) (metis in_set_conv_nth)
      then obtain k where k: "k < length calls" "t \<in> set (calls ! k)" by blast
      then obtain v where "(t, v) \<in> set (get_done (res_getters s ! k))" using all [OF k(1)] by (metis (no_types) image_iff list.set_map prod.collapse)
      then have "res_cells s t = Some (Constructed (boxed t v))" by (rule getter_okD(2) [OF ok k(1)])
      moreover have "cell_ok ?R s t" using ok by (simp add: resources_ok_def)
      ultimately show ?thesis by (simp add: cell_ok_def)
    qed
    ultimately show ?thesis using runs(2) by blast
  qed
  ultimately show ?thesis using well(1) by (auto simp: all_well_def)
qed

theorem resources_served_witness:
  "length sample_steps \<le> length (concat [[TypeId 4], [TypeId 4]]) + 2 * card (set (concat [[TypeId 4], [TypeId 4]])) \<and>
    (\<exists>s. get_resources sample_steps (resources_start sample_registry [[TypeId 4], [TypeId 4]]) = Some s \<and>
       (\<forall>g \<in> set (res_getters s). get_panic g = None))"
proof -
  have "\<exists>s. get_resources sample_steps (resources_start sample_registry [[TypeId 4], [TypeId 4]]) = Some s"
    by (simp add: sample_steps_def resources_start_def sample_registry_def resource_map_def get_resource_step_def
        set_cell_def set_getter_def downcast_ref_def boxed_def Let_def)
  then obtain s where s: "get_resources sample_steps (resources_start sample_registry [[TypeId 4], [TypeId 4]]) = Some s" by blast
  from resources_served [OF s] s show ?thesis by (auto simp: sample_steps_def sample_registry_def)
qed

end
