(* ===== verification/Producer.thy ===== *)
theory Producer
  imports Prelude
begin

text \<open>
  \<open>replay/src/lib.rs\<close> and \<open>replay/src/producer.rs\<close>: events, and the blanket implementation of
  \<open>Producer\<close>, which erases the type of an event's object by boxing it and leaking the box, and
  recovers the object from the raw pointer when the event is processed.

  A stream is the list of the events it yields before it ends. The boxes are those allocated, by
  address; where the allocator puts a box is a parameter.
\<close>

subsection \<open>Events and boxes\<close>

record ('t, 'o) event =
  ev_timestamp :: 't
  ev_tie_break :: "64 word"
  ev_obj :: 'o

type_synonym untyped_box = nat
type_synonym 'o boxes = "(untyped_box \<times> 'o) list"

text \<open>
  How objects of the item type are boxed: each in a block of its own, or, when the type has size
  zero, in none: it has one value then, and all boxes have the same, dangling, address.
\<close>

datatype 'o item_type = Allocated | ZeroSized 'o

definition box_leak :: "'o item_type \<Rightarrow> ('o boxes \<Rightarrow> untyped_box) \<Rightarrow> 'o \<Rightarrow> 'o boxes \<Rightarrow> untyped_box \<times> 'o boxes" where
  "box_leak ty alloc obj boxes = (case ty of
     Allocated \<Rightarrow> (let p = alloc boxes in (p, (p, obj) # boxes))
   | ZeroSized v \<Rightarrow> (1, boxes))"

definition box_from_raw :: "'o item_type \<Rightarrow> untyped_box \<Rightarrow> 'o boxes \<Rightarrow> ('o \<times> 'o boxes) res" where
  "box_from_raw ty p boxes = (case ty of
     Allocated \<Rightarrow> (case map_of boxes p of
       None \<Rightarrow> Fault UndefinedBehaviour
     | Some obj \<Rightarrow> Ok (obj, filter (\<lambda>(q, _). q \<noteq> p) boxes))
   | ZeroSized v \<Rightarrow> Ok (v, boxes))"

subsection \<open>The untyped producer\<close>

definition erase_event :: "'o item_type \<Rightarrow> ('o boxes \<Rightarrow> untyped_box) \<Rightarrow> ('t, 'o) event \<Rightarrow> 'o boxes \<Rightarrow>
    ('t, untyped_box) event \<times> 'o boxes" where
  "erase_event ty alloc ev boxes =
     (let (p, boxes') = box_leak ty alloc (ev_obj ev) boxes in
      (\<lparr>ev_timestamp = ev_timestamp ev, ev_tie_break = ev_tie_break ev, ev_obj = p\<rparr>, boxes'))"

text \<open>\<open>create_stream\<close>: the events of the typed stream are mapped as they are taken from it.\<close>

fun stream_next :: "'o item_type \<Rightarrow> ('o boxes \<Rightarrow> untyped_box) \<Rightarrow> ('t, 'o) event list \<Rightarrow> 'o boxes \<Rightarrow>
    ('t, untyped_box) event option \<times> ('t, 'o) event list \<times> 'o boxes" where
  "stream_next ty alloc [] boxes = (None, [], boxes)"
| "stream_next ty alloc (ev # evs) boxes =
     (let (u, boxes') = erase_event ty alloc ev boxes in (Some u, evs, boxes'))"

text \<open>All events of a stream, taken one after the other.\<close>

fun stream_collect :: "'o item_type \<Rightarrow> ('o boxes \<Rightarrow> untyped_box) \<Rightarrow> ('t, 'o) event list \<Rightarrow> 'o boxes \<Rightarrow>
    ('t, untyped_box) event list \<times> 'o boxes" where
  "stream_collect ty alloc [] boxes = ([], boxes)"
| "stream_collect ty alloc (ev # evs) boxes =
     (let (u, boxes1) = erase_event ty alloc ev boxes; (us, boxes2) = stream_collect ty alloc evs boxes1 in
      (u # us, boxes2))"

lemma stream_collect_next:
  "stream_collect ty alloc evs boxes =
    (case stream_next ty alloc evs boxes of
       (None, evs', boxes') \<Rightarrow> ([], boxes')
     | (Some u, evs', boxes') \<Rightarrow> (let (us, boxes2) = stream_collect ty alloc evs' boxes' in (u # us, boxes2)))"
  by (cases evs) (simp_all split: prod.splits)

text \<open>\<open>process_event\<close>: the event that the typed producer is called with.\<close>

definition process_event :: "'o item_type \<Rightarrow> ('t, untyped_box) event \<Rightarrow> 'o boxes \<Rightarrow>
    (('t, 'o) event \<times> 'o boxes) res" where
  "process_event ty ev boxes =
     rbind (box_from_raw ty (ev_obj ev) boxes) (\<lambda>(obj, boxes').
     Ok (\<lparr>ev_timestamp = ev_timestamp ev, ev_tie_break = ev_tie_break ev, ev_obj = obj\<rparr>, boxes'))"

fun process_events :: "'o item_type \<Rightarrow> ('t, untyped_box) event list \<Rightarrow> 'o boxes \<Rightarrow>
    (('t, 'o) event list \<times> 'o boxes) res" where
  "process_events ty [] boxes = Ok ([], boxes)"
| "process_events ty (ev # evs) boxes =
     rbind (process_event ty ev boxes) (\<lambda>(x, boxes1).
     rbind (process_events ty evs boxes1) (\<lambda>(xs, boxes2). Ok (x # xs, boxes2)))"

subsection \<open>What the boxes hold\<close>

definition fresh_alloc :: "('o boxes \<Rightarrow> untyped_box) \<Rightarrow> bool" where
  "fresh_alloc alloc \<longleftrightarrow> (\<forall>boxes. alloc boxes \<notin> fst ` set boxes)"

definition item_ok :: "'o item_type \<Rightarrow> ('t, 'o) event \<Rightarrow> bool" where
  "item_ok ty ev \<longleftrightarrow> (case ty of Allocated \<Rightarrow> True | ZeroSized v \<Rightarrow> ev_obj ev = v)"

lemma stream_collect_allocated:
  assumes "fresh_alloc alloc" "stream_collect Allocated alloc evs boxes = (us, boxes')"
  shows "length us = length evs \<and> boxes' = rev (zip (map ev_obj us) (map ev_obj evs)) @ boxes \<and>
    map ev_timestamp us = map ev_timestamp evs \<and> map ev_tie_break us = map ev_tie_break evs \<and>
    distinct (map ev_obj us) \<and> set (map ev_obj us) \<inter> fst ` set boxes = {}"
  using assms(2)
proof (induction evs arbitrary: boxes us boxes')
  case (Cons ev evs)
  let ?p = "alloc boxes"
  let ?u = "\<lparr>ev_timestamp = ev_timestamp ev, ev_tie_break = ev_tie_break ev, ev_obj = ?p\<rparr>"
  obtain us1 where us1: "stream_collect Allocated alloc evs ((?p, ev_obj ev) # boxes) = (us1, boxes')" "us = ?u # us1"
    using Cons.prems by (auto simp: erase_event_def box_leak_def Let_def split: prod.splits)
  have "?p \<notin> fst ` set boxes" using assms(1) by (simp add: fresh_alloc_def)
  then show ?case using Cons.IH [OF us1(1)] us1(2) by auto
qed simp

lemma stream_collect_zero_sized:
  "stream_collect (ZeroSized v) alloc evs boxes = (us, boxes') \<Longrightarrow>
    boxes' = boxes \<and> us = map (\<lambda>ev. \<lparr>ev_timestamp = ev_timestamp ev, ev_tie_break = ev_tie_break ev, ev_obj = 1\<rparr>) evs"
  by (induction evs arbitrary: us boxes')
    (auto simp: erase_event_def box_leak_def Let_def split: prod.splits)

text \<open>Processing some of the events, in any order, each at most once.\<close>

lemma process_events_allocated:
  fixes us :: "('t, untyped_box) event list" and evs :: "('t, 'o) event list"
  assumes us: "length us = length evs" "map ev_timestamp us = map ev_timestamp evs"
    "map ev_tie_break us = map ev_tie_break evs" "distinct (map ev_obj us)"
  shows "distinct is \<Longrightarrow> set is \<subseteq> {..<length evs} \<Longrightarrow>
    \<forall>i \<in> set is. map_of boxes (ev_obj (us ! i)) = Some (ev_obj (evs ! i)) \<Longrightarrow>
    process_events Allocated (map ((!) us) is) boxes =
      Ok (map ((!) evs) is, filter (\<lambda>(p, _). p \<notin> (\<lambda>i. ev_obj (us ! i)) ` set is) boxes)"
proof (induction "is" arbitrary: boxes)
  case (Cons i js)
  let ?b = "filter (\<lambda>(q, _). q \<noteq> ev_obj (us ! i)) boxes"
  have i: "i < length us" using Cons.prems(2) us(1) by simp
  have ne: "ev_obj (us ! j) \<noteq> ev_obj (us ! i)" if "j \<in> set js" for j
  proof -
    have "j < length us" "j \<noteq> i" using that Cons.prems(1,2) us(1) by auto
    then show ?thesis using nth_eq_iff_index_eq [OF us(4), of j i] i by simp
  qed
  have del: "map_of (filter (\<lambda>(q, _). q \<noteq> p) bs) p' = map_of bs p'" if "p' \<noteq> p" for p p' and bs :: "'o boxes"
    using that by (induction bs) auto
  have "process_events Allocated (map ((!) us) js) ?b =
      Ok (map ((!) evs) js, filter (\<lambda>(p, _). p \<notin> (\<lambda>i. ev_obj (us ! i)) ` set js) ?b)"
  proof (rule Cons.IH)
    show "\<forall>j \<in> set js. map_of ?b (ev_obj (us ! j)) = Some (ev_obj (evs ! j))"
      using Cons.prems(3) ne del by simp
  qed (use Cons.prems in auto)
  moreover have "ev_timestamp (us ! i) = ev_timestamp (evs ! i)" "ev_tie_break (us ! i) = ev_tie_break (evs ! i)"
    using arg_cong [OF us(2), of "\<lambda>xs. xs ! i"] arg_cong [OF us(3), of "\<lambda>xs. xs ! i"] i us(1) by simp_all
  moreover have "filter (\<lambda>(p, _). p \<notin> (\<lambda>i. ev_obj (us ! i)) ` set js) ?b =
      filter (\<lambda>(p, _). p \<notin> (\<lambda>i. ev_obj (us ! i)) ` set (i # js)) boxes"
    by (auto simp: filter_filter intro!: filter_cong)
  ultimately show ?case using Cons.prems(3) by (simp add: process_event_def box_from_raw_def)
qed (auto simp: case_prod_beta')

lemma filter_keys_length:
  assumes "distinct (map fst xs)" "used \<subseteq> set (map fst xs)"
  shows "length (filter (\<lambda>(p, _). p \<notin> used) xs) = length xs - card used"
proof -
  have "length (filter (\<lambda>(p, _). p \<notin> used) xs) = length (filter (\<lambda>p. p \<notin> used) (map fst xs))"
    by (simp add: filter_map comp_def case_prod_beta')
  also have "\<dots> = card (set (map fst xs) - used)"
    using assms(1) by (subst distinct_card [symmetric]) (auto intro!: arg_cong [of _ _ card])
  also have "\<dots> = card (set (map fst xs)) - card used" using assms(2) by (simp add: card_Diff_subset finite_subset)
  also have "\<dots> = length xs - card used" using distinct_card [OF assms(1)] by simp
  finally show ?thesis .
qed

subsection \<open>Properties\<close>

text \<open>
  C25. An event that a producer's stream yields reaches the producer's \<open>process_event\<close> as it was,
  whatever other events are processed before it: erasing the type of the object and recovering
  it is lossless for every selection and order of the events, each processed at most once. What
  is left is the boxes there were before and those of the events that were never processed:
  these are leaked.
\<close>

theorem process_event_roundtrip:
  assumes "fresh_alloc alloc" "\<forall>ev \<in> set evs. item_ok ty ev"
    and "stream_collect ty alloc evs boxes = (us, boxes1)"
    and "distinct is" "set is \<subseteq> {..<length evs}"
  shows "\<exists>boxes2. process_events ty (map ((!) us) is) boxes1 = Ok (map ((!) evs) is, boxes2) \<and>
    length boxes2 = length boxes + (if ty = Allocated then length evs - length is else 0) \<and>
    (\<exists>leaked. boxes2 = leaked @ boxes)"
proof (cases ty)
  case (ZeroSized v)
  have us: "boxes1 = boxes" "us = map (\<lambda>ev. \<lparr>ev_timestamp = ev_timestamp ev, ev_tie_break = ev_tie_break ev, ev_obj = 1\<rparr>) evs"
    using stream_collect_zero_sized [OF assms(3) [unfolded ZeroSized]] by blast+
  have obj: "ev_obj (evs ! i) = v" if "i < length evs" for i
    using assms(2) ZeroSized nth_mem [OF that] by (auto simp: item_ok_def)
  from assms(5) have "process_events ty (map ((!) us) is) boxes = Ok (map ((!) evs) is, boxes)"
    by (induction "is") (auto simp: ZeroSized us process_event_def box_from_raw_def obj)
  then show ?thesis using us ZeroSized by simp
next
  case Allocated
  note c = stream_collect_allocated [OF assms(1) assms(3) [unfolded Allocated]]
  let ?ptrs = "map ev_obj us"
  let ?new = "rev (zip ?ptrs (map ev_obj evs))"
  let ?used = "(\<lambda>i. ev_obj (us ! i)) ` set is"
  let ?left = "filter (\<lambda>(p, _). p \<notin> ?used) ?new"
  have len: "length us = length evs" using c by simp
  have dom: "distinct (map fst ?new)" "set (map fst ?new) = set ?ptrs" using c by (simp_all add: rev_map [symmetric])
  have used: "?used \<subseteq> set ?ptrs" using assms(5) len by auto
  have find: "map_of boxes1 (ev_obj (us ! i)) = Some (ev_obj (evs ! i))" if "i < length evs" for i
  proof -
    have "(?ptrs ! i, map ev_obj evs ! i) \<in> set ?new" using that len by (auto simp: set_zip intro!: exI [of _ i])
    then have "map_of ?new (ev_obj (us ! i)) = Some (ev_obj (evs ! i))" using dom(1) that len by (simp add: map_of_eq_Some_iff)
    then show ?thesis using c by (simp add: map_add_Some_iff)
  qed
  have "process_events ty (map ((!) us) is) boxes1 =
      Ok (map ((!) evs) is, filter (\<lambda>(p, _). p \<notin> ?used) boxes1)"
    unfolding Allocated
    by (rule process_events_allocated) (use c assms(4,5) find in auto)
  moreover have "?used \<inter> fst ` set boxes = {}" using c used by blast
  then have "filter (\<lambda>(p, _). p \<notin> ?used) boxes = boxes" by (force simp: filter_id_conv)
  then have split: "filter (\<lambda>(p, _). p \<notin> ?used) boxes1 = ?left @ boxes" using c by simp
  moreover have "inj_on (\<lambda>i. ev_obj (us ! i)) (set is)"
    using c assms(5) by (auto simp: inj_on_def distinct_conv_nth) (metis lessThan_iff subsetD)
  then have "length ?left = length evs - length is"
    using filter_keys_length [OF dom(1), of ?used] used dom(2) len assms(4) by (simp add: card_image distinct_card)
  ultimately show ?thesis using Allocated by auto
qed

text \<open>An allocator that puts each box after the others.\<close>

fun bump_alloc :: "'o boxes \<Rightarrow> untyped_box" where
  "bump_alloc [] = 1"
| "bump_alloc ((p, _) # boxes) = max (Suc p) (bump_alloc boxes)"

lemma bump_alloc_fresh: "fresh_alloc bump_alloc"
proof -
  have "p \<in> fst ` set boxes \<Longrightarrow> p < bump_alloc boxes" for p and boxes :: "'o boxes"
    by (induction boxes rule: bump_alloc.induct) (auto simp: less_max_iff_disj rev_image_eqI)
  then show ?thesis by (fastforce simp: fresh_alloc_def)
qed

definition sample_event :: "nat \<Rightarrow> string \<Rightarrow> (nat, string) event" where
  "sample_event t obj = \<lparr>ev_timestamp = t, ev_tie_break = 0, ev_obj = obj\<rparr>"

theorem process_event_roundtrip_witness:
  "\<exists>us boxes1 boxes2. stream_collect Allocated bump_alloc
      [sample_event 1 ''a'', sample_event 2 ''b'', sample_event 3 ''c''] [] = (us, boxes1) \<and>
    process_events Allocated [us ! 2, us ! 0] boxes1 = Ok ([sample_event 3 ''c'', sample_event 1 ''a''], boxes2) \<and>
    length boxes2 = 1"
proof -
  obtain us boxes1 where us: "stream_collect Allocated bump_alloc
      [sample_event 1 ''a'', sample_event 2 ''b'', sample_event 3 ''c''] [] = (us, boxes1)" by fastforce
  from process_event_roundtrip [OF bump_alloc_fresh _ this, of "[2, 0]"]
  show ?thesis using us by (auto simp: item_ok_def)
qed

end
