(* ===== verification/Synchronizer.thy ===== *)
theory Synchronizer
  imports Producer
begin

text \<open>
  \<open>replay/src/synchronizer.rs\<close>: the order of heap entries and the background task, as the
  sequence of the calls it makes on its accessors.

  \<open>BinaryHeap\<close> is a bag of entries; \<open>pop\<close> removes a greatest one, which of several is a parameter:
  the index of it (\<open>max_pick\<close>). The producers' streams are lists: the task awaits each event, so
  how long an event takes does not change what it does.
\<close>

subsection \<open>The order of heap entries\<close>

datatype ordering = Less | Equal | Greater

definition ord_cmp :: "'k :: linorder \<Rightarrow> 'k \<Rightarrow> ordering" where
  "ord_cmp a b = (if a < b then Less else if a = b then Equal else Greater)"

text \<open>The accessor of a producer is of any type \<open>'a\<close>.\<close>

record ('t, 'a) heap_entry =
  he_next_event :: "('t, untyped_box) event"
  he_acc :: 'a
  he_stream :: "('t, untyped_box) event list"

definition entry_eq :: "('t :: linorder, 'a) heap_entry \<Rightarrow> ('t, 'a) heap_entry \<Rightarrow> bool" where
  "entry_eq x y \<longleftrightarrow> ev_timestamp (he_next_event x) = ev_timestamp (he_next_event y) \<and>
     ev_tie_break (he_next_event x) = ev_tie_break (he_next_event y)"

definition entry_cmp :: "('t :: linorder, 'a) heap_entry \<Rightarrow> ('t, 'a) heap_entry \<Rightarrow> ordering" where
  "entry_cmp x y =
     (case ord_cmp (ev_timestamp (he_next_event x)) (ev_timestamp (he_next_event y)) of
        Equal \<Rightarrow> ord_cmp (ev_tie_break (he_next_event x)) (ev_tie_break (he_next_event y))
      | r \<Rightarrow> r)"

definition entry_partial_cmp :: "('t :: linorder, 'a) heap_entry \<Rightarrow> ('t, 'a) heap_entry \<Rightarrow> ordering option" where
  "entry_partial_cmp x y = Some (entry_cmp x y)"

text \<open>Events in time order, with the tie break deciding between equal timestamps.\<close>

definition ev_le :: "('t :: linorder, 'o) event \<Rightarrow> ('t, 'o) event \<Rightarrow> bool" where
  "ev_le x y \<longleftrightarrow> ev_timestamp x < ev_timestamp y \<or>
     ev_timestamp x = ev_timestamp y \<and> ev_tie_break x \<le> ev_tie_break y"

definition ev_less :: "('t :: linorder, 'o) event \<Rightarrow> ('t, 'o) event \<Rightarrow> bool" where
  "ev_less x y \<longleftrightarrow> ev_le x y \<and> \<not> ev_le y x"

lemma ev_le_refl [simp]: "ev_le x x"
  by (simp add: ev_le_def)

lemma ev_le_trans: "ev_le x y \<Longrightarrow> ev_le y z \<Longrightarrow> ev_le x z"
  by (auto simp: ev_le_def)

lemma ev_le_total: "ev_le x y \<or> ev_le y x"
  by (auto simp: ev_le_def)

lemma entry_cmp_iff:
  "entry_cmp x y = Greater \<longleftrightarrow> \<not> ev_le (he_next_event x) (he_next_event y)"
  "entry_cmp x y = Less \<longleftrightarrow> \<not> ev_le (he_next_event y) (he_next_event x)"
  "entry_cmp x y = Equal \<longleftrightarrow> entry_eq x y"
  by (auto simp: entry_cmp_def entry_eq_def ord_cmp_def ev_le_def split: ordering.splits)

subsection \<open>The heap\<close>

definition heap_push :: "('t, 'a) heap_entry \<Rightarrow> ('t, 'a) heap_entry list \<Rightarrow> ('t, 'a) heap_entry list" where
  "heap_push e h = h @ [e]"

definition heap_pop :: "(('t, 'a) heap_entry list \<Rightarrow> nat) \<Rightarrow> ('t, 'a) heap_entry list \<Rightarrow>
    (('t, 'a) heap_entry \<times> ('t, 'a) heap_entry list) option" where
  "heap_pop pick h =
     (let i = pick h in if i < length h then Some (h ! i, take i h @ drop (Suc i) h) else None)"

text \<open>\<open>BinaryHeap::pop\<close>: removes the greatest item and returns it, or \<open>None\<close> if it is empty.\<close>

locale max_pick =
  fixes pick :: "('t :: linorder, 'a) heap_entry list \<Rightarrow> nat"
  assumes pick_in: "h \<noteq> [] \<Longrightarrow> pick h < length h"
    and pick_max: "h \<noteq> [] \<Longrightarrow> e \<in> set h \<Longrightarrow> entry_cmp e (h ! pick h) \<noteq> Greater"

subsection \<open>The background task\<close>

datatype ('t, 'a) call =
    SendCreate 'a                              \<comment> \<open>\<open>acc.send(create_stream)\<close>\<close>
  | SendProcess 'a "('t, untyped_box) event"   \<comment> \<open>\<open>acc.send(process_event)\<close>\<close>
  | DropAcc 'a                                 \<comment> \<open>the accessor is dropped with its entry\<close>

text \<open>The first event of every stream; a producer without one is dropped.\<close>

fun first_events :: "('a \<times> ('t, untyped_box) event list) list \<Rightarrow> ('t, 'a) heap_entry list \<Rightarrow>
    ('t, 'a) call list \<times> ('t, 'a) heap_entry list" where
  "first_events [] h = ([], h)"
| "first_events ((acc, []) # ps) h = (let (calls, h') = first_events ps h in (DropAcc acc # calls, h'))"
| "first_events ((acc, ev # evs) # ps) h =
     first_events ps (heap_push \<lparr>he_next_event = ev, he_acc = acc, he_stream = evs\<rparr> h)"

definition heap_weight :: "('t, 'a) heap_entry list \<Rightarrow> nat" where
  "heap_weight h = sum_list (map (\<lambda>e. Suc (length (he_stream e))) h)"

lemma heap_pop_mset: "heap_pop pick h = Some (e, h') \<Longrightarrow> mset h = add_mset e (mset h')"
proof -
  assume p: "heap_pop pick h = Some (e, h')"
  then have i: "pick h < length h" and e: "e = h ! pick h" "h' = take (pick h) h @ drop (Suc (pick h)) h"
    by (auto simp: heap_pop_def Let_def split: if_splits)
  have "mset h = mset (take (pick h) h @ h ! pick h # drop (Suc (pick h)) h)" using id_take_nth_drop [OF i] by simp
  then show ?thesis using e by simp
qed

lemma heap_weight_mset: "heap_weight h = sum_mset (image_mset (\<lambda>e. Suc (length (he_stream e))) (mset h))"
  by (simp add: heap_weight_def sum_mset_sum_list [symmetric])

lemma heap_weight_pop: "heap_pop pick h = Some (e, h') \<Longrightarrow> heap_weight h = Suc (length (he_stream e)) + heap_weight h'"
  by (auto simp: heap_weight_mset dest!: heap_pop_mset)

lemma heap_weight_push [simp]: "heap_weight (heap_push e h) = Suc (length (he_stream e)) + heap_weight h"
  by (simp add: heap_weight_def heap_push_def)

function merge_loop :: "(('t, 'a) heap_entry list \<Rightarrow> nat) \<Rightarrow> ('t, 'a) heap_entry list \<Rightarrow> ('t, 'a) call list" where
  "merge_loop pick h =
     (case heap_pop pick h of
        None \<Rightarrow> []
      | Some (e, h') \<Rightarrow> SendProcess (he_acc e) (he_next_event e) #
          (case he_stream e of
             [] \<Rightarrow> DropAcc (he_acc e) # merge_loop pick h'
           | ev # evs \<Rightarrow> merge_loop pick
               (heap_push \<lparr>he_next_event = ev, he_acc = he_acc e, he_stream = evs\<rparr> h')))"
  by pat_completeness auto
termination
  by (relation "measure (\<lambda>(_, h). heap_weight h)") (auto dest!: heap_weight_pop)

declare merge_loop.simps [simp del]

definition background_task :: "(('t, 'a) heap_entry list \<Rightarrow> nat) \<Rightarrow>
    ('a \<times> ('t, untyped_box) event list) list \<Rightarrow> ('t, 'a) call list" where
  "background_task pick producers =
     map (SendCreate \<circ> fst) producers @
     (let (calls, heap) = first_events producers [] in calls @ merge_loop pick heap)"

subsection \<open>What the task calls\<close>

fun call_acc :: "('t, 'a) call \<Rightarrow> 'a" where
  "call_acc (SendCreate a) = a"
| "call_acc (SendProcess a ev) = a"
| "call_acc (DropAcc a) = a"

text \<open>The events that are sent to be processed, in order.\<close>

fun sent_events :: "('t, 'a) call list \<Rightarrow> ('t, untyped_box) event list" where
  "sent_events [] = []"
| "sent_events (SendProcess a ev # cs) = ev # sent_events cs"
| "sent_events (_ # cs) = sent_events cs"

lemma sent_events_append [simp]: "sent_events (cs @ ds) = sent_events cs @ sent_events ds"
  by (induction cs rule: sent_events.induct) auto

lemma sent_events_maps [simp]:
  "sent_events (map (SendCreate \<circ> fst) ps) = []" "sent_events (map (DropAcc \<circ> fst) ps) = []"
  "sent_events (map (SendProcess a) evs) = evs"
  by (induction ps) (simp_all, induction evs, simp_all)

definition entry_events :: "('t, 'a) heap_entry \<Rightarrow> ('t, untyped_box) event list" where
  "entry_events e = he_next_event e # he_stream e"

text \<open>All the calls that an entry gives rise to, without a break.\<close>

definition entry_calls :: "('t, 'a) heap_entry \<Rightarrow> ('t, 'a) call list" where
  "entry_calls e = map (SendProcess (he_acc e)) (entry_events e) @ [DropAcc (he_acc e)]"

definition next_entry :: "('t, 'a) heap_entry \<Rightarrow> ('t, 'a) heap_entry list" where
  "next_entry e = (case he_stream e of
     [] \<Rightarrow> []
   | ev # evs \<Rightarrow> [\<lparr>he_next_event = ev, he_acc = he_acc e, he_stream = evs\<rparr>])"

lemma entry_calls_unfold:
  "entry_calls e = SendProcess (he_acc e) (he_next_event e) #
     (if he_stream e = [] then [DropAcc (he_acc e)] else entry_calls (hd (next_entry e)))"
  by (cases "he_stream e") (simp_all add: entry_calls_def entry_events_def next_entry_def)

lemma next_entry_facts:
  "e' \<in> set (next_entry e) \<Longrightarrow> he_acc e' = he_acc e \<and> entry_events e' = he_stream e \<and> next_entry e = [e']"
  by (cases "he_stream e") (auto simp: next_entry_def entry_events_def)

lemma next_entry_sorted:
  "sorted_wrt P (entry_events e) \<Longrightarrow> x \<in> set (next_entry e) \<Longrightarrow>
    sorted_wrt P (entry_events x) \<and> P (he_next_event e) (he_next_event x)"
  by (cases "he_stream e") (auto simp: next_entry_def entry_events_def)

context max_pick begin

text \<open>One round of the loop, and an induction over its rounds.\<close>

lemma merge_loop_step:
  assumes "h \<noteq> []"
  obtains e h' where "mset h = add_mset e (mset h')" "\<forall>x \<in> set h'. ev_le (he_next_event x) (he_next_event e)"
    "merge_loop pick h = SendProcess (he_acc e) (he_next_event e) #
      (if next_entry e = [] then [DropAcc (he_acc e)] else []) @ merge_loop pick (h' @ next_entry e)"
    "heap_weight (h' @ next_entry e) < heap_weight h"
proof -
  let ?e = "h ! pick h" and ?h = "take (pick h) h @ drop (Suc (pick h)) h"
  have pop: "heap_pop pick h = Some (?e, ?h)" using pick_in [OF assms] by (simp add: heap_pop_def Let_def)
  show thesis
  proof (rule that [of ?e ?h])
    show m: "mset h = add_mset ?e (mset ?h)" by (rule heap_pop_mset [OF pop])
    have "x \<in> set h" if "x \<in> set ?h" for x using that by (auto dest: in_set_takeD in_set_dropD)
    then show "\<forall>x \<in> set ?h. ev_le (he_next_event x) (he_next_event ?e)"
      using pick_max [OF assms] entry_cmp_iff(1) by blast
    show "merge_loop pick h = SendProcess (he_acc ?e) (he_next_event ?e) #
      (if next_entry ?e = [] then [DropAcc (he_acc ?e)] else []) @ merge_loop pick (?h @ next_entry ?e)"
      by (subst merge_loop.simps) (simp add: pop next_entry_def heap_push_def split: list.splits)
    show "heap_weight (?h @ next_entry ?e) < heap_weight h"
      using heap_weight_pop [OF pop] by (cases "he_stream ?e") (simp_all add: next_entry_def heap_weight_def)
  qed
qed

lemma merge_loop_induct [case_names empty round]:
  assumes "P []" "\<And>h e h'. h \<noteq> [] \<Longrightarrow> mset h = add_mset e (mset h') \<Longrightarrow>
      \<forall>x \<in> set h'. ev_le (he_next_event x) (he_next_event e) \<Longrightarrow>
      merge_loop pick h = SendProcess (he_acc e) (he_next_event e) #
        (if next_entry e = [] then [DropAcc (he_acc e)] else []) @ merge_loop pick (h' @ next_entry e) \<Longrightarrow>
      P (h' @ next_entry e) \<Longrightarrow> P h"
  shows "P h"
proof (induction "heap_weight h" arbitrary: h rule: less_induct)
  case less
  show ?case
  proof (cases "h = []")
    case False
    then show ?thesis using merge_loop_step [OF False] assms(2) [OF False] less by metis
  qed (use assms(1) in simp)
qed

lemma merge_loop_empty [simp]: "merge_loop pick [] = []"
  by (subst merge_loop.simps) (simp add: heap_pop_def)

text \<open>Each entry's calls are made in order, and no others.\<close>

lemma merge_loop_delivers:
  "distinct (map he_acc h) \<Longrightarrow>
    (\<forall>c \<in> set (merge_loop pick h). call_acc c \<in> he_acc ` set h) \<and>
    (\<forall>e \<in> set h. filter (\<lambda>c. call_acc c = he_acc e) (merge_loop pick h) = entry_calls e)"
proof (induction h rule: merge_loop_induct)
  case (round h e h')
  have accs: "he_acc ` set h = insert (he_acc e) (he_acc ` set h')" "set h = insert e (set h')"
    using arg_cong [OF round(2), of set_mset] by auto
  have "mset (map he_acc h) = mset (map he_acc (e # h'))" using round(2) by simp
  then have d: "distinct (map he_acc (e # h'))" using round(6) mset_eq_imp_distinct_iff by blast
  let ?n = "next_entry e"
  have n: "set (map he_acc ?n) \<subseteq> {he_acc e}" "length ?n \<le> 1"
    by (cases "he_stream e"; simp add: next_entry_def)+
  have "distinct (map he_acc (h' @ ?n))" using d n by (cases ?n) auto
  note IH = round(5) [OF this]
  have accs': "he_acc ` set (h' @ ?n) \<subseteq> he_acc ` set h" using n accs by auto
  have "set (merge_loop pick h) \<subseteq> {SendProcess (he_acc e) (he_next_event e), DropAcc (he_acc e)} \<union>
      set (merge_loop pick (h' @ ?n))"
    unfolding round(4) by auto
  moreover have "call_acc c \<in> he_acc ` set h" if "c \<in> set (merge_loop pick (h' @ ?n))" for c
    using IH that accs' by blast
  moreover have "he_acc e \<in> he_acc ` set h" using accs(1) by simp
  ultimately have calls: "\<forall>c \<in> set (merge_loop pick h). call_acc c \<in> he_acc ` set h" by fastforce
  have "filter (\<lambda>c. call_acc c = he_acc x) (merge_loop pick h) = entry_calls x" if "x \<in> set h" for x
  proof (cases "x = e")
    case True
    have "filter (\<lambda>c. call_acc c = he_acc e) (merge_loop pick (h' @ ?n)) =
        (if ?n = [] then [] else entry_calls (hd ?n))"
    proof (cases ?n)
      case Nil
      have "call_acc c \<noteq> he_acc e" if "c \<in> set (merge_loop pick h')" for c
      proof -
        have "call_acc c \<in> he_acc ` set h'" using IH that Nil by simp
        then show ?thesis using d by auto
      qed
      then show ?thesis using Nil by (simp add: filter_empty_conv)
    next
      case (Cons y ys)
      then have "he_acc y = he_acc e" "ys = []" using next_entry_facts [of y e] by auto
      then show ?thesis using IH Cons by auto
    qed
    then show ?thesis using round(4) True entry_calls_unfold [of e]
      by (auto simp: next_entry_def split: list.splits)
  next
    case False
    then have x: "x \<in> set h'" using that accs(2) by simp
    then have "he_acc x \<in> he_acc ` set h'" by blast
    moreover have "he_acc e \<notin> he_acc ` set h'" using d by simp
    ultimately have "x \<in> set h'" "he_acc x \<noteq> he_acc e" using x by metis+
    then show ?thesis using IH round(4) by simp
  qed
  then show ?case using calls by blast
qed simp

text \<open>Streams in time order are replayed one after the other.\<close>

lemma merge_loop_whole:
  "\<forall>e \<in> set h. sorted_wrt ev_less (entry_events e) \<Longrightarrow>
    \<exists>qs. mset qs = mset h \<and> merge_loop pick h = concat (map entry_calls qs) \<and>
      sorted_wrt (\<lambda>x y. ev_le (he_next_event y) (he_next_event x)) qs"
proof (induction h rule: merge_loop_induct)
  case (round h e h')
  have sub: "set h = insert e (set h')" using arg_cong [OF round(2), of set_mset] by auto
  let ?n = "next_entry e"
  have srt: "sorted_wrt ev_less (entry_events x)" if "x \<in> set (h' @ ?n)" for x
    using that round(6) sub next_entry_sorted [of ev_less e x] by auto
  obtain qs where qs: "mset qs = mset (h' @ ?n)" "merge_loop pick (h' @ ?n) = concat (map entry_calls qs)"
    "sorted_wrt (\<lambda>x y. ev_le (he_next_event y) (he_next_event x)) qs"
    using round(5) srt by blast
  have set_qs: "set qs = set h' \<union> set ?n" using arg_cong [OF qs(1), of set_mset] by simp
  show ?case
  proof (cases ?n)
    case Nil
    then have "entry_calls e = [SendProcess (he_acc e) (he_next_event e), DropAcc (he_acc e)]"
      using entry_calls_unfold [of e] by (simp add: next_entry_def split: list.splits)
    then show ?thesis using Nil qs round(2-4) set_qs by (intro exI [of _ "e # qs"]) auto
  next
    case (Cons y ys)
    then have y: "entry_events y = he_stream e" "?n = [y]" using next_entry_facts [of y e] by auto
    have "sorted_wrt ev_less (entry_events e)" using round(6) sub by simp
    then have less: "ev_less (he_next_event e) (he_next_event y)" using next_entry_sorted [of ev_less e y] y(2) by simp
    obtain q qs' where q: "qs = q # qs'" using set_qs y by (cases qs) auto
    have "q = y"
    proof (rule ccontr)
      assume ne: "q \<noteq> y"
      then have "q \<in> set h'" "y \<in> set qs'" using set_qs q y by auto
      then have "ev_le (he_next_event q) (he_next_event e)" "ev_le (he_next_event y) (he_next_event q)"
        using round(3) qs(3) q by auto
      then show False using less ev_le_trans by (auto simp: ev_less_def)
    qed
    have m: "mset qs' = mset h'" using qs(1) q y \<open>q = y\<close> by simp
    have "entry_calls e = SendProcess (he_acc e) (he_next_event e) # entry_calls y"
      using entry_calls_unfold [of e] y by (auto simp: next_entry_def split: list.splits)
    moreover have "set qs' = set h'" using arg_cong [OF m, of set_mset] by simp
    ultimately show ?thesis using m qs q y \<open>q = y\<close> round(2-4) by (intro exI [of _ "e # qs'"]) auto
  qed
qed simp

text \<open>Streams in reverse time order are merged into reverse time order.\<close>

lemma merge_loop_descending:
  "\<forall>e \<in> set h. sorted_wrt (\<lambda>x y. ev_le y x) (entry_events e) \<Longrightarrow>
    sorted_wrt (\<lambda>x y. ev_le y x) (sent_events (merge_loop pick h)) \<and>
    (\<forall>ev \<in> set (sent_events (merge_loop pick h)). \<exists>e \<in> set h. ev_le ev (he_next_event e)) \<and>
    mset (sent_events (merge_loop pick h)) = (\<Sum>e \<in># mset h. mset (entry_events e))"
proof (induction h rule: merge_loop_induct)
  case (round h e h')
  have sub: "set h = insert e (set h')" using arg_cong [OF round(2), of set_mset] by auto
  let ?n = "next_entry e" and ?s = "sent_events (merge_loop pick (h' @ next_entry e))"
  have "sorted_wrt (\<lambda>x y. ev_le y x) (entry_events x)" if "x \<in> set (h' @ ?n)" for x
    using that round(6) sub next_entry_sorted [of "\<lambda>x y. ev_le y x" e x] by auto
  then have "\<forall>x \<in> set (h' @ ?n). sorted_wrt (\<lambda>x y. ev_le y x) (entry_events x)" by blast
  note IH = round(5) [OF this]
  have n: "ev_le (he_next_event x) (he_next_event e)" if "x \<in> set ?n" for x
    using next_entry_sorted [OF _ that, of "\<lambda>x y. ev_le y x"] round(6) sub by simp
  have below: "ev_le ev (he_next_event e)" if "ev \<in> set ?s" for ev
  proof -
    from bspec [OF IH [THEN conjunct2, THEN conjunct1] that]
    obtain x where x: "x \<in> set (h' @ ?n)" "ev_le ev (he_next_event x)" by (rule bexE)
    from x(1) consider "x \<in> set h'" | "x \<in> set ?n" by auto
    then have "ev_le (he_next_event x) (he_next_event e)" by cases (use round(3) n in blast)+
    then show ?thesis by (rule ev_le_trans [OF x(2)])
  qed
  have loop: "sent_events (merge_loop pick h) = he_next_event e # ?s" by (simp add: round(4))
  have ev: "mset (entry_events e) = add_mset (he_next_event e) (\<Sum>x \<in># mset ?n. mset (entry_events x))"
    by (cases "he_stream e") (simp_all add: entry_events_def next_entry_def)
  have "mset (sent_events (merge_loop pick h)) = (\<Sum>x \<in># mset h. mset (entry_events x))"
    using IH unfolding loop round(2) by (simp add: ev)
  moreover have "sorted_wrt (\<lambda>x y. ev_le y x) (sent_events (merge_loop pick h))"
    using IH below unfolding loop by simp
  moreover have "\<forall>x \<in> set (sent_events (merge_loop pick h)). \<exists>e \<in> set h. ev_le x (he_next_event e)"
    using below unfolding loop sub by auto
  ultimately show ?case by blast
qed simp

end

lemma first_events_result:
  "first_events ps h = (map (DropAcc \<circ> fst) (filter (\<lambda>p. snd p = []) ps),
     h @ map (\<lambda>p. \<lparr>he_next_event = hd (snd p), he_acc = fst p, he_stream = tl (snd p)\<rparr>)
       (filter (\<lambda>p. snd p \<noteq> []) ps))"
  by (induction ps h rule: first_events.induct) (simp_all add: heap_push_def)

text \<open>The entry of a producer whose stream has an event.\<close>

definition producer_entry :: "'a \<times> ('t, untyped_box) event list \<Rightarrow> ('t, 'a) heap_entry" where
  "producer_entry p = \<lparr>he_next_event = hd (snd p), he_acc = fst p, he_stream = tl (snd p)\<rparr>"

lemma background_task_unfold:
  "background_task pick ps = map (SendCreate \<circ> fst) ps @ map (DropAcc \<circ> fst) (filter (\<lambda>p. snd p = []) ps) @
     merge_loop pick (map producer_entry (filter (\<lambda>p. snd p \<noteq> []) ps))"
  by (simp add: background_task_def first_events_result producer_entry_def [abs_def])

lemma producer_entry_events [simp]:
  "snd p \<noteq> [] \<Longrightarrow> entry_events (producer_entry p) = snd p" "he_acc (producer_entry p) = fst p"
  by (simp_all add: producer_entry_def entry_events_def)

lemma filter_of_distinct:
  "distinct (map f xs) \<Longrightarrow> x \<in> set xs \<Longrightarrow> filter (\<lambda>y. f y = f x) xs = [x]"
  by (induction xs) (auto simp: filter_empty_conv intro: rev_image_eqI dest: sym)

lemma filter_key_map: "filter (\<lambda>c. call_acc c = a) (map (\<lambda>p. F (fst p)) ps) = map (\<lambda>p. F (fst p)) (filter (\<lambda>p. fst p = a) ps)"
  if "\<And>b. call_acc (F b) = b"
  using that by (induction ps) auto

text \<open>A heap that pops the first of the greatest entries.\<close>

fun first_max :: "('t :: linorder, 'a) heap_entry list \<Rightarrow> nat" where
  "first_max [] = 0"
| "first_max [e] = 0"
| "first_max (e # es) = (let i = first_max es in if entry_cmp (es ! i) e = Greater then Suc i else 0)"

lemma first_max_in: "h \<noteq> [] \<Longrightarrow> first_max h < length h"
  by (induction h rule: first_max.induct) (simp_all add: Let_def)

lemma first_max_greatest: "e \<in> set h \<Longrightarrow> ev_le (he_next_event e) (he_next_event (h ! first_max h))"
proof (induction h rule: first_max.induct)
  case (3 x y es)
  let ?m = "(y # es) ! first_max (y # es)"
  show ?case
  proof (cases "entry_cmp ?m x = Greater")
    case True
    then have "ev_le (he_next_event x) (he_next_event ?m)" using ev_le_total by (auto simp: entry_cmp_iff)
    then show ?thesis using True 3 by (auto simp: Let_def)
  next
    case False
    then have m: "ev_le (he_next_event ?m) (he_next_event x)" by (simp add: entry_cmp_iff)
    have "ev_le (he_next_event e) (he_next_event x)"
    proof (cases "e = x")
      case False
      then have "ev_le (he_next_event e) (he_next_event ?m)" using 3 by simp
      then show ?thesis by (rule ev_le_trans [OF _ m])
    qed simp
    then show ?thesis using False by (simp add: Let_def)
  qed
qed simp_all

interpretation first_max: max_pick first_max
  by unfold_locales (simp_all add: first_max_in first_max_greatest entry_cmp_iff)

text \<open>The calls for one producer among all.\<close>

lemma background_task_serves:
  fixes ps :: "('a \<times> ('t :: linorder, untyped_box) event list) list"
  assumes "max_pick pick" "distinct (map fst ps)" "(a, evs) \<in> set ps"
  shows "filter (\<lambda>c. call_acc c = a) (background_task pick ps) =
    SendCreate a # map (SendProcess a) evs @ [DropAcc a]"
proof -
  let ?with = "filter (\<lambda>p. snd p \<noteq> []) ps" and ?without = "filter (\<lambda>p. snd p = []) ps"
  let ?loop = "merge_loop pick (map producer_entry ?with)"
  have one: "filter (\<lambda>p. fst p = a) ps = [(a, evs)]" using filter_of_distinct [OF assms(2,3)] by simp
  have create: "filter (\<lambda>c. call_acc c = a) (map (SendCreate \<circ> fst) ps :: ('t, 'a) call list) = [SendCreate a]"
    using filter_key_map [of "SendCreate :: 'a \<Rightarrow> ('t, 'a) call" a ps] one by (simp add: comp_def)
  have "filter (\<lambda>p. fst p = a) ?without = filter (\<lambda>p. snd p = []) (filter (\<lambda>p. fst p = a) ps)"
    by (simp add: filter_filter conj_commute)
  then have drop: "filter (\<lambda>c. call_acc c = a) (map (DropAcc \<circ> fst) ?without :: ('t, 'a) call list) =
      (if evs = [] then [DropAcc a] else [])"
    using filter_key_map [of "DropAcc :: 'a \<Rightarrow> ('t, 'a) call" a ?without] one by (cases "evs = []") (simp_all add: comp_def)
  have "distinct (map he_acc (map producer_entry ?with))"
    using assms(2) by (simp add: comp_def distinct_map_filter)
  note loop = max_pick.merge_loop_delivers [OF assms(1) this]
  have "filter (\<lambda>c. call_acc c = a) ?loop = (if evs = [] then [] else map (SendProcess a) evs @ [DropAcc a])"
  proof (cases "evs = []")
    case True
    have "fst p \<noteq> a" if "p \<in> set ?with" for p
    proof
      assume "fst p = a"
      then have "p \<in> set (filter (\<lambda>p. fst p = a) ps)" using that by simp
      then show False using one True that by simp
    qed
    then have "a \<notin> fst ` set ?with" by blast
    moreover have "he_acc ` set (map producer_entry ?with) = fst ` set ?with" by (simp add: image_image)
    ultimately have "a \<notin> he_acc ` set (map producer_entry ?with)" by simp
    then show ?thesis using loop True by (auto simp: filter_empty_conv)
  next
    case False
    then have "producer_entry (a, evs) \<in> set (map producer_entry ?with)" using assms(3) by auto
    then have "filter (\<lambda>c. call_acc c = he_acc (producer_entry (a, evs))) ?loop = entry_calls (producer_entry (a, evs))"
      using loop by blast
    then show ?thesis using False by (simp add: entry_calls_def)
  qed
  then show ?thesis using create drop by (simp add: background_task_unfold)
qed

subsection \<open>Properties\<close>

text \<open>
  The order of heap entries keeps the contract of \<open>Ord\<close>: it is total, antisymmetric and
  transitive, agrees with \<open>==\<close> and with \<open>partial_cmp\<close>, and is the order of time, with the tie
  break deciding between equal timestamps.
\<close>

theorem entry_order_lawful:
  fixes x y z :: "('t :: linorder, 'a) heap_entry"
  shows "(entry_cmp x y = Equal \<longleftrightarrow> entry_eq x y) \<and> entry_partial_cmp x y = Some (entry_cmp x y) \<and>
    (entry_cmp x y = Greater \<longleftrightarrow> entry_cmp y x = Less) \<and>
    \<not> (entry_cmp x y = Less \<and> entry_cmp y z = Less \<and> entry_cmp x z \<noteq> Less) \<and>
    (entry_cmp x y = Less \<longleftrightarrow> ev_less (he_next_event x) (he_next_event y))"
  using ev_le_trans ev_le_total by (auto simp: entry_partial_cmp_def entry_cmp_iff ev_less_def) blast+

text \<open>
  C24. Every producer is served once: it is asked for its stream, then receives every event of the
  stream, in the order of the stream and each once, and its accessor is dropped after the last.
  The task ends when all streams have ended.
\<close>

theorem producers_served:
  fixes ps :: "('a \<times> ('t :: linorder, untyped_box) event list) list"
  assumes "max_pick pick" "distinct (map fst ps)" "(a, evs) \<in> set ps"
  shows "filter (\<lambda>c. call_acc c = a) (background_task pick ps) =
    SendCreate a # map (SendProcess a) evs @ [DropAcc a]"
  by (rule background_task_serves [OF assms])

definition replay_event :: "nat \<Rightarrow> (nat, untyped_box) event" where
  "replay_event t = \<lparr>ev_timestamp = t, ev_tie_break = 0, ev_obj = t\<rparr>"

theorem producers_served_witness:
  "filter (\<lambda>c. call_acc c = ''a'') (background_task first_max
      [(''a'', map replay_event [1, 3]), (''b'', map replay_event [2, 4]), (''c'', [])]) =
    [SendCreate ''a'', SendProcess ''a'' (replay_event 1), SendProcess ''a'' (replay_event 3), DropAcc ''a'']"
  using producers_served [OF first_max.max_pick_axioms, of
      "[(''a'', map replay_event [1, 3]), (''b'', map replay_event [2, 4]), (''c'', [])]" "''a''" "map replay_event [1, 3]"]
  by simp

text \<open>
  C23. The streams are not interleaved. If every stream is in strict time order, the synchronizer
  replays them one after the other: all events of the producer whose first event is latest, then
  all events of another, and so on, in the reverse of the order of their first events. The heap
  is a max-heap, and the entries' order is not reversed.
\<close>

theorem streams_replayed_whole:
  assumes "max_pick pick" "\<forall>p \<in> set ps. sorted_wrt ev_less (snd p)"
  shows "\<exists>qs. mset qs = mset (filter (\<lambda>p. snd p \<noteq> []) ps) \<and>
    sorted_wrt (\<lambda>p q. ev_le (hd (snd q)) (hd (snd p))) qs \<and>
    sent_events (background_task pick ps) = concat (map snd qs)"
proof -
  let ?with = "filter (\<lambda>p. snd p \<noteq> []) ps"
  have "\<forall>e \<in> set (map producer_entry ?with). sorted_wrt ev_less (entry_events e)" using assms(2) by simp
  from max_pick.merge_loop_whole [OF assms(1) this] obtain es where
    es: "mset es = mset (map producer_entry ?with)"
      "merge_loop pick (map producer_entry ?with) = concat (map entry_calls es)"
      "sorted_wrt (\<lambda>x y. ev_le (he_next_event y) (he_next_event x)) es" by blast
  let ?qs = "map (\<lambda>e. (he_acc e, entry_events e)) es"
  have "mset ?qs = image_mset (\<lambda>e. (he_acc e, entry_events e)) (mset es)" by simp
  also have "\<dots> = mset (map (\<lambda>p. (he_acc (producer_entry p), entry_events (producer_entry p))) ?with)"
    unfolding es(1) by (simp add: image_mset.compositionality comp_def)
  also have "map (\<lambda>p. (he_acc (producer_entry p), entry_events (producer_entry p))) ?with = ?with"
    by (rule map_idI) auto
  finally have m: "mset ?qs = mset ?with" .
  have "sent_events (concat (map entry_calls es)) = concat (map entry_events es)"
    by (induction es) (simp_all add: entry_calls_def)
  then have "sent_events (background_task pick ps) = concat (map snd ?qs)"
    using es(2) by (simp add: background_task_unfold comp_def [of snd])
  moreover have "sorted_wrt (\<lambda>p q. ev_le (hd (snd q)) (hd (snd p))) ?qs"
    using es(3) by (simp add: sorted_wrt_map entry_events_def)
  ultimately show ?thesis using m by blast
qed

theorem streams_replayed_whole_witness:
  "sent_events (background_task first_max [(''a'', map replay_event [1, 3]), (''b'', map replay_event [2, 4])]) =
    map replay_event [2, 4, 1, 3]"
proof -
  let ?ps = "[(''a'', map replay_event [1, 3]), (''b'', map replay_event [2, 4])]"
  have "\<forall>p \<in> set ?ps. sorted_wrt ev_less (snd p)" by (simp add: ev_less_def ev_le_def replay_event_def)
  from streams_replayed_whole [OF first_max.max_pick_axioms this] obtain qs where
    qs: "mset qs = mset ?ps" "sorted_wrt (\<lambda>p q. ev_le (hd (snd q)) (hd (snd p))) qs"
      "sent_events (background_task first_max ?ps) = concat (map snd qs)" by auto
  have len: "length qs = 2" using mset_eq_length [OF qs(1)] by simp
  then obtain p q where pq: "qs = [p, q]" by (auto simp: numeral_2_eq_2 length_Suc_conv)
  then have "p = hd ?ps \<and> q = ?ps ! 1 \<or> p = ?ps ! 1 \<and> q = hd ?ps"
    using qs(1) by (auto simp: add_eq_conv_ex)
  then show ?thesis using qs(2,3) pq by (auto simp: ev_le_def replay_event_def)
qed

text \<open>
  What the synchronizer computes is a merge in reverse time order: if every stream is in
  reverse time order, so is the replay, and its events are those of all streams.
\<close>

theorem replay_merges_descending:
  assumes "max_pick pick" "\<forall>p \<in> set ps. sorted_wrt (\<lambda>x y. ev_le y x) (snd p)"
  shows "sorted_wrt (\<lambda>x y. ev_le y x) (sent_events (background_task pick ps)) \<and>
    mset (sent_events (background_task pick ps)) = (\<Sum>p \<in># mset ps. mset (snd p))"
proof -
  let ?with = "filter (\<lambda>p. snd p \<noteq> []) ps"
  have "\<forall>e \<in> set (map producer_entry ?with). sorted_wrt (\<lambda>x y. ev_le y x) (entry_events e)" using assms(2) by simp
  note loop = max_pick.merge_loop_descending [OF assms(1) this]
  have sent: "sent_events (background_task pick ps) = sent_events (merge_loop pick (map producer_entry ?with))"
    by (simp add: background_task_unfold)
  have "(\<Sum>e \<in># mset (map producer_entry ?with). mset (entry_events e)) = (\<Sum>p \<in># mset ps. mset (snd p))"
    by (induction ps) auto
  then show ?thesis using loop sent by simp
qed

theorem replay_merges_descending_witness:
  "mset (sent_events (background_task first_max [(''a'', map replay_event [5, 2]), (''b'', map replay_event [4, 3])])) =
    {#replay_event 5, replay_event 2, replay_event 4, replay_event 3#}"
proof -
  let ?ps = "[(''a'', map replay_event [5, 2]), (''b'', map replay_event [4, 3])]"
  have "\<forall>p \<in> set ?ps. sorted_wrt (\<lambda>x y. ev_le y x) (snd p)" by (simp add: ev_le_def replay_event_def)
  from replay_merges_descending [OF first_max.max_pick_axioms this] show ?thesis by simp
qed

end
