(* ===== verification/Tokio.thy ===== *)
theory Tokio
  imports Queues
begin

text \<open>
  \<open>replay/src/tokio_wrapper.rs\<close>: the thread that runs asynchronous tasks. Its event loop is itself a
  task of a \<open>LocalSet\<close>; it spawns the tasks that it receives on the same set, and the thread ends when
  the set has no tasks left. Any thread that has a handle submits tasks, at any time.

  A task is abstract: it takes steps that are not modelled, and may complete at any time. The unbounded
  channel of \<open>tokio\<close> has the contract of the one of the standard library, and drops what is queued
  with its receiver. An interrupt is recorded until \<open>signal.recv()\<close> reports it.
\<close>

subsection \<open>The event loop\<close>

text \<open>Why the loop ends, and where it is: \<open>Polling\<close> is before the first branch of the \<open>select!\<close>,
  \<open>Checking\<close> before the second. It is \<open>Dropping\<close> until its receiver, which it owns, is dropped.\<close>

datatype stop_reason = NoHandles | Interrupted | Panicked

datatype loop_state = Starting | Polling | Checking | Dropping stop_reason | Over stop_reason

record 'task tokio =
  tk_tasks :: "'task channel"      \<comment> \<open>\<open>task_tx\<close>, \<open>task_rx\<close>; its senders are the handles\<close>
  tk_loop :: loop_state
  tk_signal :: bool                \<comment> \<open>an interrupt that \<open>signal.recv()\<close> has not reported\<close>
  tk_local :: "'task list"         \<comment> \<open>the tasks on the local set, without the loop\<close>
  tk_returned :: bool              \<comment> \<open>whether \<open>block_on\<close> has returned\<close>
  tk_submitted :: "'task list"     \<comment> \<open>the history, only to state the properties: the tasks submitted,\<close>
  tk_spawned :: "'task list"       \<comment> \<open>spawned,\<close>
  tk_completed :: "'task list"     \<comment> \<open>completed,\<close>
  tk_lost :: "'task list"          \<comment> \<open>and dropped without being spawned\<close>

text \<open>The constructor of the resource.\<close>

definition tokio_new :: "'task tokio" where
  "tokio_new = \<lparr>tk_tasks = remote_channel, tk_loop = Starting, tk_signal = False, tk_local = [], tk_returned = False,
     tk_submitted = [], tk_spawned = [], tk_completed = [], tk_lost = []\<rparr>"

text \<open>
  The steps of the thread: it builds the runtime and registers for the signal, each of which may
  fail; it polls the two branches of the \<open>select!\<close>, in this order, as it is \<open>biased\<close>; it leaves the
  loop; a task completes; \<open>block_on\<close> returns. \<open>PollRecv\<close> gets whether the loop's task may still
  receive: \<open>tokio\<close> lets a receive wait if its task has received too much in a row.
\<close>

datatype loop_event = Begin bool | PollRecv bool | PollSignal | DropRx | Complete nat | Return

text \<open>\<open>starts f\<close>: \<open>f\<close>, which creates the future of the task, does not panic.\<close>

fun loop_step :: "('task \<Rightarrow> bool) \<Rightarrow> loop_event \<Rightarrow> 'task tokio \<Rightarrow> 'task tokio option" where
  "loop_step starts (Begin ok) s =
     (if tk_loop s = Starting then Some (s\<lparr>tk_loop := if ok then Polling else Dropping Panicked\<rparr>) else None)"
| "loop_step starts (PollRecv budget) s =
     (if tk_loop s \<noteq> Polling then None
      else if \<not> budget then Some (s\<lparr>tk_loop := Checking\<rparr>)
      else case rx_recv (tk_tasks s) of
        None \<Rightarrow> Some (s\<lparr>tk_loop := Checking\<rparr>)
      | Some (None, ch) \<Rightarrow> Some (s\<lparr>tk_tasks := ch, tk_loop := Dropping NoHandles\<rparr>)
      | Some (Some f, ch) \<Rightarrow>
          if starts f then Some (s\<lparr>tk_tasks := ch, tk_local := tk_local s @ [f], tk_spawned := tk_spawned s @ [f]\<rparr>)
          else Some (s\<lparr>tk_tasks := ch, tk_loop := Dropping Panicked, tk_lost := tk_lost s @ [f]\<rparr>))"
| "loop_step starts PollSignal s =
     (if tk_loop s = Checking
      then Some (s\<lparr>tk_signal := False, tk_loop := if tk_signal s then Dropping Interrupted else Polling\<rparr>) else None)"
| "loop_step starts DropRx s =
     (case tk_loop s of
        Dropping r \<Rightarrow> Some (s\<lparr>tk_tasks := rx_drop (tk_tasks s), tk_loop := Over r,
          tk_lost := tk_lost s @ pending (tk_tasks s)\<rparr>)
      | _ \<Rightarrow> None)"
| "loop_step starts (Complete i) s =
     (if i < length (tk_local s)
      then Some (s\<lparr>tk_local := take i (tk_local s) @ drop (Suc i) (tk_local s), tk_completed := tk_local s ! i # tk_completed s\<rparr>)
      else None)"
| "loop_step starts Return s =
     (case tk_loop s of
        Over r \<Rightarrow> if tk_local s = [] \<and> \<not> tk_returned s then Some (s\<lparr>tk_returned := True\<rparr>) else None
      | _ \<Rightarrow> None)"

subsection \<open>Handles\<close>

text \<open>\<open>spawn_with_boxed\<close>; \<open>spawn_with\<close> boxes its argument.\<close>

definition spawn_with_boxed :: "'task \<Rightarrow> 'task tokio \<Rightarrow> 'task tokio res" where
  "spawn_with_boxed f s =
     (case tx_send (tk_tasks s) f of
        (Inl e, ch) \<Rightarrow> Fault UnwrapFailed
      | (Inr u, ch) \<Rightarrow> Ok (s\<lparr>tk_tasks := ch, tk_submitted := tk_submitted s @ [f]\<rparr>))"

text \<open>What happens outside the thread: \<open>Signal\<close> is an interrupt. Only who has a handle uses one.\<close>

datatype 'task tokio_event = Loop loop_event | Signal | SpawnWith 'task | CloneHandle | DropHandle

fun tokio_step :: "('task \<Rightarrow> bool) \<Rightarrow> 'task tokio_event \<Rightarrow> 'task tokio \<Rightarrow> 'task tokio res option" where
  "tokio_step starts (Loop e) s = map_option Ok (loop_step starts e s)"
| "tokio_step starts Signal s = Some (Ok (s\<lparr>tk_signal := True\<rparr>))"
| "tokio_step starts (SpawnWith f) s = (if senders (tk_tasks s) = 0 then None else Some (spawn_with_boxed f s))"
| "tokio_step starts CloneHandle s =
     (if senders (tk_tasks s) = 0 then None else Some (Ok (s\<lparr>tk_tasks := tx_clone (tk_tasks s)\<rparr>)))"
| "tokio_step starts DropHandle s =
     (if senders (tk_tasks s) = 0 then None else Some (Ok (s\<lparr>tk_tasks := tx_drop (tk_tasks s)\<rparr>)))"

text \<open>A panic of \<open>spawn_with\<close> is one of its caller: the thread goes on.\<close>

inductive tokio_reachable :: "('task \<Rightarrow> bool) \<Rightarrow> 'task tokio \<Rightarrow> bool" for starts where
  new: "tokio_reachable starts tokio_new"
| step: "tokio_reachable starts s \<Longrightarrow> tokio_step starts e s = Some (Ok s') \<Longrightarrow> tokio_reachable starts s'"

fun tokio_run :: "('task \<Rightarrow> bool) \<Rightarrow> 'task tokio_event list \<Rightarrow> 'task tokio \<Rightarrow> 'task tokio option" where
  "tokio_run starts [] s = Some s"
| "tokio_run starts (e # es) s = (case tokio_step starts e s of Some (Ok s') \<Rightarrow> tokio_run starts es s' | _ \<Rightarrow> None)"

lemma tokio_run_reachable: "tokio_run starts es s = Some s' \<Longrightarrow> tokio_reachable starts s \<Longrightarrow> tokio_reachable starts s'"
  by (induction es arbitrary: s) (auto split: option.splits sum.splits intro: tokio_reachable.step)

lemma tokio_run_append:
  "tokio_run starts (es @ fs) s = Option.bind (tokio_run starts es s) (tokio_run starts fs)"
  by (induction es arbitrary: s) (auto split: option.splits sum.splits)

subsection \<open>The invariant\<close>

definition tokio_inv :: "'task tokio \<Rightarrow> bool" where
  "tokio_inv s \<longleftrightarrow>
     tk_submitted s = tk_spawned s @ tk_lost s @ pending (tk_tasks s) \<and>
     mset (tk_spawned s) = mset (tk_local s) + mset (tk_completed s) \<and>
     (receiver_alive (tk_tasks s) \<longleftrightarrow> (\<forall>r. tk_loop s \<noteq> Over r)) \<and>
     (\<not> receiver_alive (tk_tasks s) \<longrightarrow> pending (tk_tasks s) = []) \<and>
     (tk_lost s \<noteq> [] \<longrightarrow> (\<exists>r. r \<noteq> NoHandles \<and> (tk_loop s = Dropping r \<or> tk_loop s = Over r))) \<and>
     (tk_loop s = Dropping NoHandles \<longrightarrow> pending (tk_tasks s) = [] \<and> senders (tk_tasks s) = 0) \<and>
     (tk_returned s \<longrightarrow> (\<exists>r. tk_loop s = Over r) \<and> tk_local s = [])"

lemma loop_step_inv:
  assumes "tokio_inv s" "loop_step starts e s = Some s'"
  shows "tokio_inv s'"
proof (cases e)
  case (PollRecv budget)
  then show ?thesis using assms
    by (auto simp: tokio_inv_def rx_recv_def split: if_splits list.splits)
next
  case DropRx
  then obtain r where "tk_loop s = Dropping r" using assms(2) by (auto split: loop_state.splits)
  then show ?thesis using DropRx assms by (cases r) (auto simp: tokio_inv_def rx_drop_def)
next
  case (Complete i)
  then have i: "i < length (tk_local s)" using assms(2) by (auto split: if_splits)
  have "mset (tk_local s) = mset (take i (tk_local s)) + add_mset (tk_local s ! i) (mset (drop (Suc i) (tk_local s)))"
    using arg_cong [OF id_take_nth_drop [OF i], of mset] by simp
  then show ?thesis using Complete assms i by (auto simp: tokio_inv_def)
qed (use assms in \<open>auto simp: tokio_inv_def split: if_splits loop_state.splits\<close>)

lemma tokio_step_inv:
  assumes "tokio_inv s" "tokio_step starts e s = Some (Ok s')"
  shows "tokio_inv s'"
proof (cases e)
  case (Loop x)
  then have "loop_step starts x s = Some s'" using assms(2) by simp
  with assms(1) show ?thesis by (rule loop_step_inv)
next
  case (SpawnWith f)
  then have "s' = s\<lparr>tk_tasks := (tk_tasks s)\<lparr>pending := pending (tk_tasks s) @ [f]\<rparr>, tk_submitted := tk_submitted s @ [f]\<rparr>"
    "senders (tk_tasks s) \<noteq> 0" "receiver_alive (tk_tasks s)"
    using assms(2) by (auto simp: spawn_with_boxed_def tx_send_def split: if_splits)
  then show ?thesis using assms(1) by (auto simp: tokio_inv_def)
next
  case DropHandle
  then have "s' = s\<lparr>tk_tasks := tx_drop (tk_tasks s)\<rparr>" using assms(2) by (simp split: if_splits)
  then show ?thesis using assms(1) by (simp add: tokio_inv_def tx_drop_def)
next
  case CloneHandle
  then have "s' = s\<lparr>tk_tasks := tx_clone (tk_tasks s)\<rparr>" "senders (tk_tasks s) \<noteq> 0" using assms(2) by (simp_all split: if_splits)
  then show ?thesis using assms(1) by (simp add: tokio_inv_def tx_clone_def)
next
  case Signal
  then have "s' = s\<lparr>tk_signal := True\<rparr>" using assms(2) by simp
  then show ?thesis using assms(1) by (simp add: tokio_inv_def)
qed

lemma tokio_reachable_inv: "tokio_reachable starts s \<Longrightarrow> tokio_inv s"
proof (induction rule: tokio_reachable.induct)
  case new
  show ?case by (simp add: tokio_inv_def tokio_new_def remote_channel_def)
qed (rule tokio_step_inv)

subsection \<open>The loop, undisturbed\<close>

lemma polls:
  assumes "tk_loop s = Polling" "pending (tk_tasks s) = fs @ gs" "\<forall>f \<in> set fs. starts f"
  shows "tokio_run starts (map (\<lambda>_. Loop (PollRecv True)) fs) s =
    Some (s\<lparr>tk_tasks := (tk_tasks s)\<lparr>pending := gs\<rparr>, tk_local := tk_local s @ fs, tk_spawned := tk_spawned s @ fs\<rparr>)"
  using assms
proof (induction fs arbitrary: s)
  case (Cons f fs)
  let ?s = "s\<lparr>tk_tasks := (tk_tasks s)\<lparr>pending := fs @ gs\<rparr>, tk_local := tk_local s @ [f], tk_spawned := tk_spawned s @ [f]\<rparr>"
  have "tokio_step starts (Loop (PollRecv True)) s = Some (Ok ?s)" using Cons.prems by (simp add: rx_recv_def)
  then show ?case using Cons.IH [of ?s] Cons.prems by simp
qed (simp add: assms(2))

subsection \<open>Properties\<close>

text \<open>
  C26. No submitted task is spawned twice or out of order: at every time the submitted tasks are, in
  order, those spawned, those lost, and those queued; and those spawned are the ones running and
  completed. A task is only lost if the loop was interrupted or panicked. \<open>spawn_with\<close> panics exactly
  when the loop is over. The thread ends only after the loop and all tasks: an interrupt does not
  end them.
\<close>

theorem submitted_tasks_accounted:
  assumes "tokio_reachable starts s"
  shows "tk_submitted s = tk_spawned s @ tk_lost s @ pending (tk_tasks s) \<and>
    mset (tk_spawned s) = mset (tk_local s) + mset (tk_completed s) \<and>
    (tk_lost s \<noteq> [] \<longrightarrow> (\<exists>r \<in> {Interrupted, Panicked}. tk_loop s = Dropping r \<or> tk_loop s = Over r)) \<and>
    (spawn_with_boxed f s = Fault UnwrapFailed \<longleftrightarrow> (\<exists>r. tk_loop s = Over r)) \<and>
    (tk_returned s \<longrightarrow> (\<exists>r. tk_loop s = Over r) \<and> mset (tk_completed s) = mset (tk_spawned s))"
proof -
  note inv = tokio_reachable_inv [OF assms, unfolded tokio_inv_def]
  have "r \<noteq> NoHandles \<Longrightarrow> r \<in> {Interrupted, Panicked}" for r by (cases r) simp_all
  moreover have "spawn_with_boxed f s = Fault UnwrapFailed \<longleftrightarrow> \<not> receiver_alive (tk_tasks s)"
    by (simp add: spawn_with_boxed_def tx_send_def)
  ultimately show ?thesis using inv by auto
qed

text \<open>A task that is submitted after the loop has found an interrupt is accepted, and lost.\<close>

definition losing_run :: "string tokio_event list" where
  "losing_run = [Loop (Begin True), SpawnWith ''create'', Loop (PollRecv True), Signal, Loop (PollRecv True),
     Loop PollSignal, SpawnWith ''merge'', Loop DropRx, Loop (Complete 0), Loop Return]"

definition lost_state :: "string tokio" where
  "lost_state = \<lparr>tk_tasks = remote_channel\<lparr>receiver_alive := False\<rparr>, tk_loop = Over Interrupted, tk_signal = False,
     tk_local = [], tk_returned = True, tk_submitted = [''create'', ''merge''], tk_spawned = [''create''],
     tk_completed = [''create''], tk_lost = [''merge'']\<rparr>"

lemma losing_run_result: "tokio_run (\<lambda>_. True) losing_run tokio_new = Some lost_state"
  by (simp add: losing_run_def lost_state_def tokio_new_def remote_channel_def rx_recv_def rx_drop_def spawn_with_boxed_def
      tx_send_def)

theorem submitted_tasks_accounted_witness:
  "tk_submitted lost_state = tk_spawned lost_state @ tk_lost lost_state @ pending (tk_tasks lost_state) \<and>
    tk_lost lost_state = [''merge''] \<and> spawn_with_boxed ''late'' lost_state = Fault UnwrapFailed"
proof -
  have "tokio_reachable (\<lambda>_. True) lost_state" by (rule tokio_run_reachable [OF losing_run_result tokio_reachable.new])
  from submitted_tasks_accounted [OF this, of "''late''"] show ?thesis by (simp add: lost_state_def)
qed

text \<open>
  Left alone, the loop spawns all tasks that are queued, in order, even if an interrupt is pending,
  as long as none panics and \<open>tokio\<close> lets it receive them. Only then it ends if no handle is left,
  otherwise if there is an interrupt; if neither, it waits for both.
\<close>

theorem queued_tasks_spawned:
  assumes "tk_loop s = Polling" "receiver_alive (tk_tasks s)" "\<forall>f \<in> set (pending (tk_tasks s)). starts f"
  defines "es \<equiv> map (\<lambda>_. PollRecv True) (pending (tk_tasks s)) @ [PollRecv True] @
      (if senders (tk_tasks s) = 0 then [DropRx] else if tk_signal s then [PollSignal, DropRx] else [PollSignal])"
  shows "\<exists>s'. tokio_run starts (map Loop es) s = Some s' \<and>
    tk_spawned s' = tk_spawned s @ pending (tk_tasks s) \<and> tk_local s' = tk_local s @ pending (tk_tasks s) \<and>
    pending (tk_tasks s') = [] \<and> tk_lost s' = tk_lost s \<and>
    tk_loop s' = (if senders (tk_tasks s) = 0 then Over NoHandles else if tk_signal s then Over Interrupted else Polling)"
proof -
  let ?s = "s\<lparr>tk_tasks := (tk_tasks s)\<lparr>pending := []\<rparr>, tk_local := tk_local s @ pending (tk_tasks s),
    tk_spawned := tk_spawned s @ pending (tk_tasks s)\<rparr>"
  have "tokio_run starts (map (\<lambda>_. Loop (PollRecv True)) (pending (tk_tasks s))) s = Some ?s"
    using polls [of s "pending (tk_tasks s)" "[]"] assms(1,3) by simp
  then have run: "tokio_run starts (map Loop es) s = tokio_run starts (map Loop ([PollRecv True] @
      (if senders (tk_tasks s) = 0 then [DropRx] else if tk_signal s then [PollSignal, DropRx] else [PollSignal]))) ?s"
    by (simp add: es_def tokio_run_append comp_def del: tokio_run.simps)
  show ?thesis unfolding run using assms(1,2) by (simp add: rx_recv_def rx_drop_def)
qed

theorem queued_tasks_spawned_witness:
  "\<exists>s s'. tokio_run (\<lambda>_. True) [SpawnWith ''create'', SpawnWith ''merge'', Signal, Loop (Begin True)] tokio_new = Some s \<and>
    tokio_run (\<lambda>_. True) (map Loop [PollRecv True, PollRecv True, PollRecv True, PollSignal, DropRx]) s = Some s' \<and>
    tk_spawned s' = [''create'', ''merge''] \<and> tk_loop s' = Over Interrupted"
proof -
  obtain s where s: "tokio_run (\<lambda>_. True) [SpawnWith ''create'', SpawnWith ''merge'', Signal, Loop (Begin True)] tokio_new = Some s"
    "tk_loop s = Polling" "receiver_alive (tk_tasks s)" "pending (tk_tasks s) = [''create'', ''merge'']" "tk_spawned s = []"
    "senders (tk_tasks s) = 1" "tk_signal s"
    by (simp add: tokio_new_def remote_channel_def spawn_with_boxed_def tx_send_def)
  from queued_tasks_spawned [OF s(2,3), of "\<lambda>_. True"] s show ?thesis by (auto simp del: tokio_run.simps)
qed

end
