(* ===== verification/Replay.thy ===== *)
theory Replay
  imports Synchronizer "HOL-Library.Sublist"
begin

text \<open>
  The background task of \<open>replay/src/synchronizer.rs\<close> among the tasks that it waits for. A producer
  creates its stream when it handles the message of the task, and replies on a \<open>oneshot\<close> channel. The
  stream is the receiving end of a bounded channel, which a task of the producer feeds
  (\<open>event_stream\<close> of \<open>replay_mock/src/lib.rs\<close>). A step is one of any task, from one \<open>await\<close> to the next.

  \<open>Synchronizer.background_task\<close> is what the task calls if its streams are lists; here it is the
  specification of the task, however the steps interleave and whatever the delays.
\<close>

subsection \<open>Streams\<close>

text \<open>The reply of a producer: awaited, given, or dropped with the message.\<close>

datatype reply = Awaited | Given | Lost

record 't stream =
  sm_reply :: reply
  sm_todo :: "('t, untyped_box) event list"   \<comment> \<open>what the producer's task has still to send\<close>
  sm_buf :: "('t, untyped_box) event list"    \<comment> \<open>what is in the channel\<close>
  sm_open :: bool                             \<comment> \<open>whether that task holds its \<open>tx\<close>\<close>

definition channel_capacity :: nat where "channel_capacity = 2"

text \<open>What the stream yields from here on.\<close>

definition stream_rest :: "'t stream \<Rightarrow> ('t, untyped_box) event list" where
  "stream_rest m = sm_buf m @ sm_todo m"

text \<open>\<open>stream.next().await\<close>: \<open>None\<close> means that it waits.\<close>

definition poll_next :: "'t stream \<Rightarrow> (('t, untyped_box) event option \<times> 't stream) option" where
  "poll_next m = (case sm_buf m of
       ev # evs \<Rightarrow> Some (Some ev, m\<lparr>sm_buf := evs\<rparr>)
     | [] \<Rightarrow> if sm_open m then None else Some (None, m))"

subsection \<open>The background task\<close>

text \<open>
  Where the task is: it asks the producers for their streams; it awaits the reply of producer \<open>j\<close>, or
  the first event of its stream; it is at the head of the loop, or awaits the next event of stream \<open>i\<close>.
  An accessor is the index of its producer. The field \<open>he_stream\<close> of an entry is what its stream
  yields; the task only looks at the next event of a stream.
\<close>

datatype 't task =
    Asking nat
  | AwaitReply nat "('t, nat) heap_entry list"
  | AwaitFirst nat "('t, nat) heap_entry list"
  | Merging "('t, nat) heap_entry list"
  | AwaitNext nat "('t, nat) heap_entry list"
  | Done
  | Failed

record 't replay =
  rp_task :: "'t task"
  rp_streams :: "'t stream list"
  rp_calls :: "('t, nat) call list"   \<comment> \<open>the calls on accessors so far\<close>

definition replay_new :: "('t, untyped_box) event list list \<Rightarrow> 't replay" where
  "replay_new evss = \<lparr>rp_task = Asking 0,
     rp_streams = map (\<lambda>evs. \<lparr>sm_reply = Awaited, sm_todo = evs, sm_buf = [], sm_open = True\<rparr>) evss,
     rp_calls = []\<rparr>"

definition goto :: "'t task \<Rightarrow> ('t, nat) call list \<Rightarrow> 't replay \<Rightarrow> 't replay" where
  "goto t cs s = s\<lparr>rp_task := t, rp_calls := rp_calls s @ cs\<rparr>"

definition set_stream :: "nat \<Rightarrow> 't stream \<Rightarrow> 't replay \<Rightarrow> 't replay" where
  "set_stream i m s = s\<lparr>rp_streams := (rp_streams s)[i := m]\<rparr>"

text \<open>An event of stream \<open>i\<close>, or its end, arrives: the entry is pushed, or dropped with its accessor.\<close>

definition next_arrives :: "nat \<Rightarrow> (('t, nat) heap_entry list \<Rightarrow> 't task) \<Rightarrow> ('t, nat) heap_entry list \<Rightarrow>
    't replay \<Rightarrow> 't replay option" where
  "next_arrives i continue heap s =
     (case poll_next (rp_streams s ! i) of
        None \<Rightarrow> None
      | Some (None, m) \<Rightarrow> Some (goto (continue heap) [DropAcc i] s)
      | Some (Some ev, m) \<Rightarrow> Some (goto
          (continue (heap_push \<lparr>he_next_event = ev, he_acc = i, he_stream = stream_rest m\<rparr> heap)) []
          (set_stream i m s)))"

definition task_step :: "(('t, nat) heap_entry list \<Rightarrow> nat) \<Rightarrow> 't replay \<Rightarrow> 't replay option" where
  "task_step pick s =
     (let n = length (rp_streams s) in
      case rp_task s of
        Asking k \<Rightarrow> Some (if k < n then goto (Asking (Suc k)) [SendCreate k] s else goto (AwaitReply 0 []) [] s)
      | AwaitReply j heap \<Rightarrow>
          if j < n then
            (case sm_reply (rp_streams s ! j) of
               Awaited \<Rightarrow> None
             | Given \<Rightarrow> Some (goto (AwaitFirst j heap) [] s)
             | Lost \<Rightarrow> Some (goto Failed (map DropAcc ([j..<n] @ map he_acc heap)) s))
          else Some (goto (Merging heap) [] s)
      | AwaitFirst j heap \<Rightarrow> next_arrives j (AwaitReply (Suc j)) heap s
      | Merging heap \<Rightarrow>
          (case heap_pop pick heap of
             None \<Rightarrow> Some (goto Done [] s)
           | Some (e, heap') \<Rightarrow> Some (goto (AwaitNext (he_acc e) heap') [SendProcess (he_acc e) (he_next_event e)] s))
      | AwaitNext i heap \<Rightarrow> next_arrives i Merging heap s
      | Done \<Rightarrow> None
      | Failed \<Rightarrow> None)"

subsection \<open>All tasks\<close>

text \<open>
  The steps of the others: producer \<open>i\<close> handles the message and replies with its stream, or the
  message is dropped; the task of the producer sends its next event, or ends. A message is there
  once it is sent. The streams of a task that failed are gone: then the producer's \<open>unwrap\<close> panics.
\<close>

datatype replay_action = Task | CreateStream nat | DropMessage nat | Produce nat | EndStream nat

definition asked :: "nat \<Rightarrow> 't replay \<Rightarrow> bool" where
  "asked i s \<longleftrightarrow> i < length (rp_streams s) \<and> (case rp_task s of Asking k \<Rightarrow> i < k | _ \<Rightarrow> True)"

fun replay_step :: "(('t, nat) heap_entry list \<Rightarrow> nat) \<Rightarrow> replay_action \<Rightarrow> 't replay \<Rightarrow> 't replay res option" where
  "replay_step pick Task s = map_option Ok (task_step pick s)"
| "replay_step pick (CreateStream i) s =
     (let m = rp_streams s ! i in
      if asked i s \<and> sm_reply m = Awaited
      then Some (if rp_task s = Failed then Fault ExplicitPanic else Ok (set_stream i (m\<lparr>sm_reply := Given\<rparr>) s)) else None)"
| "replay_step pick (DropMessage i) s =
     (let m = rp_streams s ! i in
      if asked i s \<and> sm_reply m = Awaited then Some (Ok (set_stream i (m\<lparr>sm_reply := Lost\<rparr>) s)) else None)"
| "replay_step pick (Produce i) s =
     (let m = rp_streams s ! i in
      if i < length (rp_streams s) \<and> sm_reply m = Given then
        (case sm_todo m of
           [] \<Rightarrow> None
         | ev # evs \<Rightarrow>
             if rp_task s = Failed then Some (Fault UnwrapFailed)
             else if length (sm_buf m) < channel_capacity
             then Some (Ok (set_stream i (m\<lparr>sm_buf := sm_buf m @ [ev], sm_todo := evs\<rparr>) s))
             else None)
      else None)"
| "replay_step pick (EndStream i) s =
     (let m = rp_streams s ! i in
      if i < length (rp_streams s) \<and> sm_reply m = Given \<and> sm_todo m = [] \<and> sm_open m
      then Some (Ok (set_stream i (m\<lparr>sm_open := False\<rparr>) s)) else None)"

inductive replay_reachable :: "(('t, nat) heap_entry list \<Rightarrow> nat) \<Rightarrow> ('t, untyped_box) event list list \<Rightarrow> 't replay \<Rightarrow> bool"
  for pick evss where
  new: "replay_reachable pick evss (replay_new evss)"
| step: "replay_reachable pick evss s \<Longrightarrow> replay_step pick e s = Some (Ok s') \<Longrightarrow> replay_reachable pick evss s'"

subsection \<open>The invariant\<close>

fun task_heap :: "'t task \<Rightarrow> ('t, nat) heap_entry list" where
  "task_heap (AwaitReply j heap) = heap"
| "task_heap (AwaitFirst j heap) = heap"
| "task_heap (Merging heap) = heap"
| "task_heap (AwaitNext i heap) = heap"
| "task_heap _ = []"

text \<open>The streams from here on are not read yet; and the one that is awaited.\<close>

fun task_from :: "nat \<Rightarrow> 't task \<Rightarrow> nat" where
  "task_from n (Asking k) = 0"
| "task_from n (AwaitReply j heap) = j"
| "task_from n (AwaitFirst j heap) = j"
| "task_from n _ = n"

fun task_current :: "'t task \<Rightarrow> nat list" where
  "task_current (AwaitNext i heap) = [i]"
| "task_current _ = []"

fun drops :: "('t, nat) call list \<Rightarrow> nat list" where
  "drops [] = []"
| "drops (DropAcc i # cs) = i # drops cs"
| "drops (_ # cs) = drops cs"

lemma drops_append [simp]: "drops (cs @ ds) = drops cs @ drops ds"
  by (induction cs rule: drops.induct) simp_all

lemma drops_map [simp]: "drops (map DropAcc ks) = ks" "drops (map (DropAcc \<circ> f) xs) = map f xs"
  by (induction ks) (simp_all, induction xs, simp_all)

text \<open>The accessors: each is dropped, in the heap, awaited, or not reached, and only one of these.\<close>

definition accessors_inv :: "'t replay \<Rightarrow> bool" where
  "accessors_inv s \<longleftrightarrow>
     (let n = length (rp_streams s); t = rp_task s in task_from n t \<le> n \<and>
      mset (drops (rp_calls s) @ task_current t @ map he_acc (task_heap t) @ [task_from n t..<n]) = mset [0..<n])"

definition streams_inv :: "('t, untyped_box) event list list \<Rightarrow> 't replay \<Rightarrow> bool" where
  "streams_inv evss s \<longleftrightarrow>
     (let n = length (rp_streams s); t = rp_task s in
      n = length evss \<and>
      (\<forall>e \<in> set (task_heap t). he_stream e = stream_rest (rp_streams s ! he_acc e)) \<and>
      (\<forall>i<n. task_from n t \<le> i \<longrightarrow> stream_rest (rp_streams s ! i) = evss ! i) \<and>
      (\<forall>i<n. (sm_open (rp_streams s ! i) \<or> sm_todo (rp_streams s ! i) = []) \<and>
        length (sm_buf (rp_streams s ! i)) \<le> channel_capacity) \<and>
      (t \<noteq> Failed \<longrightarrow> (\<forall>i<n. i < task_from n t \<or> (\<exists>h. t = AwaitFirst i h) \<longrightarrow> sm_reply (rp_streams s ! i) = Given)) \<and>
      (\<forall>j h. t = AwaitFirst j h \<longrightarrow> j < n) \<and>
      (t = Failed \<longrightarrow> (\<exists>i<n. sm_reply (rp_streams s ! i) = Lost)))"

text \<open>What the task will call: the specification from here on.\<close>

definition future :: "(('t, nat) heap_entry list \<Rightarrow> nat) \<Rightarrow> ('t, untyped_box) event list list \<Rightarrow> 't replay \<Rightarrow> ('t, nat) call list" where
  "future pick evss s =
     (let served = \<lambda>j heap. let (cs, heap) = first_events (drop j (enumerate 0 evss)) heap in cs @ merge_loop pick heap in
      case rp_task s of
        Asking k \<Rightarrow> map SendCreate [k..<length evss] @ served 0 []
      | AwaitReply j heap \<Rightarrow> served j heap
      | AwaitFirst j heap \<Rightarrow> served j heap
      | Merging heap \<Rightarrow> merge_loop pick heap
      | AwaitNext i heap \<Rightarrow>
          (case stream_rest (rp_streams s ! i) of
             [] \<Rightarrow> DropAcc i # merge_loop pick heap
           | ev # evs \<Rightarrow> merge_loop pick (heap_push \<lparr>he_next_event = ev, he_acc = i, he_stream = evs\<rparr> heap))
      | _ \<Rightarrow> [])"

lemma goto_fields [simp]:
  "rp_task (goto t cs s) = t" "rp_streams (goto t cs s) = rp_streams s" "rp_calls (goto t cs s) = rp_calls s @ cs"
  by (simp_all add: goto_def)

lemma set_stream_fields [simp]:
  "rp_task (set_stream i m s) = rp_task s" "rp_streams (set_stream i m s) = (rp_streams s)[i := m]"
  "rp_calls (set_stream i m s) = rp_calls s"
  by (simp_all add: set_stream_def)

lemma drop_enumerate:
  "j < length evss \<Longrightarrow> drop j (enumerate 0 evss) = (j, evss ! j) # drop (Suc j) (enumerate 0 evss)"
  using Cons_nth_drop_Suc [of j "enumerate 0 evss"] by (simp add: nth_enumerate_eq)

lemma upt_mset: "j < n \<Longrightarrow> mset [j..<n] = add_mset j (mset [Suc j..<n])"
  by (simp add: upt_conv_Cons)

lemma replay_new_inv:
  "accessors_inv (replay_new evss)" "streams_inv evss (replay_new evss)"
  "rp_calls (replay_new evss) @ future pick evss (replay_new evss) = background_task pick (enumerate 0 evss)"
proof -
  have "map (SendCreate \<circ> fst) (enumerate 0 evss) = (map SendCreate [0..<length evss] :: ('a, nat) call list)"
    by (simp flip: map_map)
  then show "rp_calls (replay_new evss) @ future pick evss (replay_new evss) = background_task pick (enumerate 0 evss)"
    by (simp add: future_def replay_new_def background_task_def)
qed (auto simp: accessors_inv_def streams_inv_def replay_new_def stream_rest_def channel_capacity_def)

lemma next_arrives_cases:
  assumes "next_arrives i continue heap s = Some s'"
  obtains (last) "s' = goto (continue heap) [DropAcc i] s" "sm_buf (rp_streams s ! i) = []" "\<not> sm_open (rp_streams s ! i)"
    | (event) ev evs m where "m = (rp_streams s ! i)\<lparr>sm_buf := evs\<rparr>" "sm_buf (rp_streams s ! i) = ev # evs"
      "s' = goto (continue (heap @ [\<lparr>he_next_event = ev, he_acc = i, he_stream = stream_rest m\<rparr>])) [] (set_stream i m s)"
  using assms by (auto simp: next_arrives_def poll_next_def heap_push_def split: list.splits if_splits)

lemma accessors_distinct:
  assumes "accessors_inv s"
  shows "distinct (task_current (rp_task s) @ map he_acc (task_heap (rp_task s)))"
    "\<forall>i \<in> set (task_current (rp_task s) @ map he_acc (task_heap (rp_task s))). i < task_from (length (rp_streams s)) (rp_task s)"
proof -
  let ?n = "length (rp_streams s)" and ?xs = "task_current (rp_task s) @ map he_acc (task_heap (rp_task s))"
  let ?all = "drops (rp_calls s) @ ?xs @ [task_from ?n (rp_task s)..<?n]"
  have eq: "mset ?all = mset [0..<?n]" using assms by (simp add: accessors_inv_def Let_def)
  then have d: "distinct ?all" using mset_eq_imp_distinct_iff distinct_upt by blast
  then show "distinct ?xs" unfolding distinct_append set_append by blast
  have "set ?all = {0..<?n}" using mset_eq_setD [OF eq] set_upt [of 0 ?n] by (rule trans)
  show "\<forall>i \<in> set ?xs. i < task_from ?n (rp_task s)"
  proof
    fix i assume i: "i \<in> set ?xs"
    then have "i \<in> set ?all" unfolding set_append by blast
    moreover have "i \<notin> set [task_from ?n (rp_task s)..<?n]" using d i unfolding distinct_append set_append by blast
    ultimately show "i < task_from ?n (rp_task s)" unfolding \<open>set ?all = {0..<?n}\<close> by simp
  qed
qed

lemma entry_in_range:
  assumes "accessors_inv s"
  shows "i \<in> set (task_current (rp_task s)) \<Longrightarrow> i < length (rp_streams s)"
    "e \<in> set (task_heap (rp_task s)) \<Longrightarrow> he_acc e < length (rp_streams s)"
  using accessors_distinct(2) [OF assms] assms by (auto simp: accessors_inv_def Let_def intro: less_le_trans)

definition served :: "(('t, nat) heap_entry list \<Rightarrow> nat) \<Rightarrow> ('t, untyped_box) event list list \<Rightarrow> 't replay \<Rightarrow> bool" where
  "served pick evss s \<longleftrightarrow>
     (if rp_task s = Failed
      then \<exists>cs ds. rp_calls s = cs @ map DropAcc ds \<and> prefix cs (background_task pick (enumerate 0 evss))
      else rp_calls s @ future pick evss s = background_task pick (enumerate 0 evss))"

lemma pop_entry:
  assumes "heap_pop pick h = Some (e, h')"
  shows "mset h = add_mset e (mset h')" "set h = insert e (set h')"
  using heap_pop_mset [OF assms] by (auto dest: arg_cong [of _ _ set_mset])

lemma heap_empty:
  assumes "max_pick pick" "heap_pop pick h = None"
  shows "h = []"
  using assms(2) max_pick.pick_in [OF assms(1), of h] by (auto simp: heap_pop_def Let_def split: if_splits)

lemma task_step_accessors:
  assumes "max_pick pick" and "accessors_inv s" "streams_inv evss s" "task_step pick s = Some s'"
  shows "accessors_inv s'"
proof -
  let ?n = "length (rp_streams s)"
  show ?thesis
  proof (cases "rp_task s")
    case (Asking k)
    then show ?thesis using assms by (auto simp: task_step_def Let_def accessors_inv_def split: if_splits)
  next
    case (AwaitReply j heap)
    then show ?thesis using assms
      by (auto simp: task_step_def Let_def accessors_inv_def ac_simps split: if_splits reply.splits)
  next
    case (AwaitFirst j heap)
    then have j: "j < ?n" using assms(3) by (simp add: streams_inv_def Let_def)
    have "next_arrives j (AwaitReply (Suc j)) heap s = Some s'" using assms(4) AwaitFirst by (simp add: task_step_def)
    then show ?thesis
      by (cases rule: next_arrives_cases)
        (use AwaitFirst assms(2) j in \<open>simp_all add: accessors_inv_def Let_def upt_mset del: mset_upt\<close>)
  next
    case (Merging heap)
    then show ?thesis using assms(2-)
      by (auto simp: task_step_def Let_def accessors_inv_def ac_simps split: option.splits
          dest: heap_empty [OF assms(1)] pop_entry(1))
  next
    case (AwaitNext i heap)
    have "next_arrives i Merging heap s = Some s'" using assms(4) AwaitNext by (simp add: task_step_def)
    then show ?thesis
      by (cases rule: next_arrives_cases) (use AwaitNext assms(2) in \<open>simp_all add: accessors_inv_def Let_def del: mset_upt\<close>)
  qed (use assms in \<open>simp_all add: task_step_def\<close>)
qed

lemma stream_update:
  assumes "streams_inv evss s" "i < length (rp_streams s)" "m = (rp_streams s ! i)\<lparr>sm_buf := evs\<rparr>" "sm_buf (rp_streams s ! i) = ev # evs"
  shows "stream_rest (rp_streams s ! i) = ev # stream_rest m" "sm_reply m = sm_reply (rp_streams s ! i)"
    "sm_open m \<or> sm_todo m = []" "length (sm_buf m) \<le> channel_capacity"
proof -
  have "length (sm_buf (rp_streams s ! i)) \<le> channel_capacity \<and> (sm_open (rp_streams s ! i) \<or> sm_todo (rp_streams s ! i) = [])"
    using assms(1,2) by (simp add: streams_inv_def Let_def)
  then show "stream_rest (rp_streams s ! i) = ev # stream_rest m" "sm_reply m = sm_reply (rp_streams s ! i)"
    "sm_open m \<or> sm_todo m = []" "length (sm_buf m) \<le> channel_capacity"
    using assms(3,4) by (simp_all add: stream_rest_def)
qed

lemma task_step_streams:
  assumes "accessors_inv s" "streams_inv evss s" "task_step pick s = Some s'"
  shows "streams_inv evss s'"
proof -
  let ?n = "length (rp_streams s)"
  show ?thesis
  proof (cases "rp_task s")
    case (Asking k)
    then show ?thesis using assms by (auto simp: task_step_def Let_def streams_inv_def split: if_splits)
  next
    case (AwaitReply j heap)
    then show ?thesis using assms
      by (auto simp: task_step_def Let_def streams_inv_def split: if_splits reply.splits intro: nth_mem)
  next
    case (AwaitFirst j heap)
    then have j: "j < ?n" using assms(2) by (simp add: streams_inv_def Let_def)
    have accs: "he_acc e \<noteq> j" if "e \<in> set heap" for e
      using accessors_distinct(2) [OF assms(1)] AwaitFirst that by auto
    have "next_arrives j (AwaitReply (Suc j)) heap s = Some s'" using assms(3) AwaitFirst by (simp add: task_step_def)
    then show ?thesis
    proof (cases rule: next_arrives_cases)
      case last
      then show ?thesis using assms(2) AwaitFirst by (auto simp: streams_inv_def Let_def less_Suc_eq)
    next
      case (event ev evs m)
      then show ?thesis using assms(2) AwaitFirst j accs stream_update [OF assms(2) j event(1,2)]
        by (auto simp: streams_inv_def Let_def less_Suc_eq nth_update_if)
    qed
  next
    case (Merging heap)
    then show ?thesis using assms(2,3)
      by (auto simp: task_step_def Let_def streams_inv_def split: option.splits dest: pop_entry(2))
  next
    case (AwaitNext i heap)
    have i: "i < ?n" using entry_in_range(1) [OF assms(1), of i] AwaitNext by simp
    have accs: "he_acc e \<noteq> i" if "e \<in> set heap" for e
      using accessors_distinct(1) [OF assms(1)] AwaitNext that by auto
    have "next_arrives i Merging heap s = Some s'" using assms(3) AwaitNext by (simp add: task_step_def)
    then show ?thesis
    proof (cases rule: next_arrives_cases)
      case last
      then show ?thesis using assms(2) AwaitNext by (auto simp: streams_inv_def Let_def)
    next
      case (event ev evs m)
      then show ?thesis using assms(2) AwaitNext i accs stream_update [OF assms(2) i event(1,2)]
        by (auto simp: streams_inv_def Let_def nth_update_if)
    qed
  qed (use assms in \<open>simp_all add: task_step_def\<close>)
qed

lemma task_step_served:
  assumes "max_pick pick" "accessors_inv s" "streams_inv evss s" "served pick evss s" "task_step pick s = Some s'"
  shows "served pick evss s'"
proof (cases "rp_task s = Failed")
  case False
  let ?n = "length (rp_streams s)"
  have n: "?n = length evss" using assms(3) by (simp add: streams_inv_def Let_def)
  have spec: "rp_calls s @ future pick evss s = background_task pick (enumerate 0 evss)"
    using assms(4) False by (simp add: served_def)
  have next_in: "rp_calls s' @ future pick evss s' = rp_calls s @ future pick evss s" if "rp_task s' \<noteq> Failed"
  proof (cases "rp_task s")
    case (Asking k)
    then show ?thesis using assms(5) n
      by (auto simp: task_step_def Let_def future_def upt_conv_Cons split: if_splits)
  next
    case (AwaitReply j heap)
    then show ?thesis using assms(5) that n
      by (auto simp: task_step_def Let_def future_def split: if_splits reply.splits)
  next
    case (AwaitFirst j heap)
    then have j: "j < ?n" "stream_rest (rp_streams s ! j) = evss ! j"
      "sm_open (rp_streams s ! j) \<or> sm_todo (rp_streams s ! j) = []" using assms(3) by (auto simp: streams_inv_def Let_def)
    have "next_arrives j (AwaitReply (Suc j)) heap s = Some s'" using assms(5) AwaitFirst by (simp add: task_step_def)
    then show ?thesis
    proof (cases rule: next_arrives_cases)
      case last
      then have "evss ! j = []" using j by (simp add: stream_rest_def)
      then show ?thesis using last AwaitFirst j n by (simp add: future_def drop_enumerate split: prod.splits)
    next
      case (event ev evs m)
      then have "evss ! j = ev # stream_rest m" using stream_update(1) [OF assms(3) j(1) event(1,2)] j(2) by simp
      then show ?thesis using event AwaitFirst j n by (simp add: future_def drop_enumerate heap_push_def split: prod.splits)
    qed
  next
    case (Merging heap)
    show ?thesis
    proof (cases "heap_pop pick heap")
      case None
      then show ?thesis using Merging assms(5) heap_empty [OF assms(1) None]
        by (auto simp: task_step_def future_def max_pick.merge_loop_empty [OF assms(1)])
    next
      case (Some p)
      then obtain e h where p: "heap_pop pick heap = Some (e, h)" by (cases p) simp
      then have "e \<in> set heap" using pop_entry(2) by blast
      then have "he_stream e = stream_rest (rp_streams s ! he_acc e)" using assms(3) Merging by (simp add: streams_inv_def Let_def)
      moreover have "s' = goto (AwaitNext (he_acc e) h) [SendProcess (he_acc e) (he_next_event e)] s"
        using Merging assms(5) p by (simp add: task_step_def)
      ultimately show ?thesis using Merging p
        by (simp add: future_def) (subst merge_loop.simps, simp split: list.splits)
    qed
  next
    case (AwaitNext i heap)
    have i: "i < ?n" using entry_in_range(1) [OF assms(2), of i] AwaitNext by simp
    have closed: "sm_open (rp_streams s ! i) \<or> sm_todo (rp_streams s ! i) = []" using assms(3) i by (simp add: streams_inv_def Let_def)
    have "next_arrives i Merging heap s = Some s'" using assms(5) AwaitNext by (simp add: task_step_def)
    then show ?thesis
    proof (cases rule: next_arrives_cases)
      case last
      then show ?thesis using AwaitNext closed by (simp add: future_def stream_rest_def)
    next
      case (event ev evs m)
      then show ?thesis using AwaitNext stream_update(1) [OF assms(3) i event(1,2)] by (simp add: future_def heap_push_def)
    qed
  qed (use assms(5) in \<open>simp_all add: task_step_def\<close>)
  show ?thesis
  proof (cases "rp_task s' = Failed")
    case True
    then obtain ds where "rp_calls s' = rp_calls s @ map DropAcc ds"
      using assms(5) False
      by (auto simp: task_step_def next_arrives_def Let_def split: task.splits if_splits reply.splits option.splits simp flip: map_map map_append)
    moreover have "prefix (rp_calls s) (background_task pick (enumerate 0 evss))" using spec by (metis prefixI)
    ultimately show ?thesis using True by (auto simp: served_def)
  qed (use next_in spec in \<open>simp add: served_def\<close>)
qed (use assms(5) in \<open>simp add: task_step_def\<close>)

text \<open>The steps of the producers.\<close>

lemma set_stream_inv:
  assumes "accessors_inv s" "streams_inv evss s" "served pick evss s" "i < length (rp_streams s)"
    and "stream_rest m = stream_rest (rp_streams s ! i)" "sm_open m \<or> sm_todo m = []" "length (sm_buf m) \<le> channel_capacity"
    and "sm_reply m = sm_reply (rp_streams s ! i) \<or> sm_reply (rp_streams s ! i) = Awaited"
  shows "accessors_inv (set_stream i m s)" "streams_inv evss (set_stream i m s)" "served pick evss (set_stream i m s)"
proof -
  show "accessors_inv (set_stream i m s)" using assms(1) by (simp add: accessors_inv_def)
  have rest: "stream_rest ((rp_streams s)[i := m] ! k) = stream_rest (rp_streams s ! k)" for k
    using assms(5) by (simp add: nth_update_if)
  have "future pick evss (set_stream i m s) = future pick evss s" by (simp add: future_def rest cong: task.case_cong)
  then show "served pick evss (set_stream i m s)" using assms(3) unfolding served_def set_stream_fields by presburger
  have given: "sm_reply ((rp_streams s)[i := m] ! k) = sm_reply (rp_streams s ! k)" if "sm_reply (rp_streams s ! k) \<noteq> Awaited" for k
    using assms(8) that by (auto simp: nth_update_if)
  have "sm_open ((rp_streams s)[i := m] ! k) \<or> sm_todo ((rp_streams s)[i := m] ! k) = []"
    "length (sm_buf ((rp_streams s)[i := m] ! k)) \<le> channel_capacity" if "k < length (rp_streams s)" for k
    using assms(2,6,7) that by (simp_all add: streams_inv_def Let_def nth_update_if)
  then show "streams_inv evss (set_stream i m s)" using assms(2) given
    by (fastforce simp: streams_inv_def Let_def rest)
qed

text \<open>How many steps a producer has still to do for its stream.\<close>

definition stream_work :: "'t stream \<Rightarrow> nat" where
  "stream_work m = (if sm_reply m = Awaited then 1 else 0) + length (sm_todo m) + (if sm_open m then 1 else 0)"

lemma producer_step:
  assumes "replay_step pick e s = Some (Ok s')" "e \<noteq> Task"
  obtains i m where "s' = set_stream i m s" "i < length (rp_streams s)" "stream_rest m = stream_rest (rp_streams s ! i)"
    "sm_open (rp_streams s ! i) \<or> sm_todo (rp_streams s ! i) = [] \<Longrightarrow> sm_open m \<or> sm_todo m = []"
    "length (sm_buf (rp_streams s ! i)) \<le> channel_capacity \<Longrightarrow> length (sm_buf m) \<le> channel_capacity"
    "sm_reply m = sm_reply (rp_streams s ! i) \<or> sm_reply (rp_streams s ! i) = Awaited"
    "stream_work m < stream_work (rp_streams s ! i)"
proof (cases e)
  case (CreateStream i)
  then show thesis using assms(1) that [of i "(rp_streams s ! i)\<lparr>sm_reply := Given\<rparr>"]
    by (simp add: asked_def Let_def stream_rest_def stream_work_def split: if_splits)
next
  case (DropMessage i)
  then show thesis using assms(1) that [of i "(rp_streams s ! i)\<lparr>sm_reply := Lost\<rparr>"]
    by (simp add: asked_def Let_def stream_rest_def stream_work_def split: if_splits)
next
  case (Produce i)
  then obtain ev evs where ev: "sm_todo (rp_streams s ! i) = ev # evs" "i < length (rp_streams s)"
    "length (sm_buf (rp_streams s ! i)) < channel_capacity"
    "s' = set_stream i ((rp_streams s ! i)\<lparr>sm_buf := sm_buf (rp_streams s ! i) @ [ev], sm_todo := evs\<rparr>) s"
    using assms(1) by (auto simp: Let_def split: if_splits list.splits)
  show thesis by (rule that [OF ev(4,2)]) (use ev in \<open>simp_all add: stream_rest_def stream_work_def\<close>)
next
  case (EndStream i)
  then have m: "sm_todo (rp_streams s ! i) = []" "i < length (rp_streams s)" "sm_open (rp_streams s ! i)"
    "s' = set_stream i ((rp_streams s ! i)\<lparr>sm_open := False\<rparr>) s"
    using assms(1) by (auto simp: Let_def split: if_splits)
  show thesis by (rule that [OF m(4,2)]) (use m in \<open>simp_all add: stream_rest_def stream_work_def\<close>)
qed (use assms(2) in simp)

lemma replay_step_inv:
  assumes pick: "max_pick pick" and inv: "accessors_inv s" "streams_inv evss s" "served pick evss s"
    and step: "replay_step pick e s = Some (Ok s')"
  shows "accessors_inv s' \<and> streams_inv evss s' \<and> served pick evss s'"
proof (cases "e = Task")
  case True
  then show ?thesis using step task_step_accessors [OF pick inv(1,2)] task_step_streams [OF inv(1,2)]
      task_step_served [OF pick inv] by auto
next
  case False
  show ?thesis
  proof (rule producer_step [OF step False])
    fix i m
    assume m: "s' = set_stream i m s" "i < length (rp_streams s)" "stream_rest m = stream_rest (rp_streams s ! i)"
      "sm_open (rp_streams s ! i) \<or> sm_todo (rp_streams s ! i) = [] \<Longrightarrow> sm_open m \<or> sm_todo m = []"
      "length (sm_buf (rp_streams s ! i)) \<le> channel_capacity \<Longrightarrow> length (sm_buf m) \<le> channel_capacity"
      "sm_reply m = sm_reply (rp_streams s ! i) \<or> sm_reply (rp_streams s ! i) = Awaited"
    have "sm_open m \<or> sm_todo m = []" "length (sm_buf m) \<le> channel_capacity"
      using inv(2) m(2,4,5) by (simp_all add: streams_inv_def Let_def)
    then show ?thesis using set_stream_inv [OF inv m(2,3) _ _ m(6)] m(1) by blast
  qed
qed

lemma replay_reachable_inv:
  assumes "max_pick pick" "replay_reachable pick evss s"
  shows "accessors_inv s \<and> streams_inv evss s \<and> served pick evss s"
  using assms(2)
proof (induction rule: replay_reachable.induct)
  case new
  show ?case using replay_new_inv by (auto simp: served_def replay_new_def)
next
  case (step s e s')
  then show ?case using replay_step_inv [OF assms(1)] by blast
qed

subsection \<open>How much is left to do\<close>

definition rest_from :: "nat \<Rightarrow> 't replay \<Rightarrow> nat" where
  "rest_from j s = (\<Sum>i\<in>{j..<length (rp_streams s)}. length (stream_rest (rp_streams s ! i)))"

definition task_work :: "'t replay \<Rightarrow> nat" where
  "task_work s =
     (let n = length (rp_streams s) in
      case rp_task s of
        Asking k \<Rightarrow> n - k + 2 * n + 2 * rest_from 0 s + 3
      | AwaitReply j heap \<Rightarrow> 2 * (n - j) + 2 * (heap_weight heap + rest_from j s) + 2
      | AwaitFirst j heap \<Rightarrow> 2 * (n - j) + 2 * (heap_weight heap + rest_from j s) + 1
      | Merging heap \<Rightarrow> 2 * heap_weight heap + 1
      | AwaitNext i heap \<Rightarrow> 2 * heap_weight heap + 2 * length (stream_rest (rp_streams s ! i)) + 2
      | _ \<Rightarrow> 0)"

definition work :: "'t replay \<Rightarrow> nat" where
  "work s = task_work s + sum_list (map stream_work (rp_streams s))"

lemma rest_from_Suc:
  "j < length (rp_streams s) \<Longrightarrow> rest_from j s = length (stream_rest (rp_streams s ! j)) + rest_from (Suc j) s"
  by (simp add: rest_from_def sum.atLeast_Suc_lessThan)

lemma rest_from_set_stream: "i < j \<Longrightarrow> rest_from j (set_stream i m s) = rest_from j s"
  by (simp add: rest_from_def)

lemma rest_from_goto [simp]: "rest_from j (goto t cs s) = rest_from j s"
  by (simp add: rest_from_def)

lemma stream_work_update:
  assumes "i < length ms"
  shows "sum_list (map stream_work (ms[i := m])) + stream_work (ms ! i) = sum_list (map stream_work ms) + stream_work m"
proof -
  have "stream_work (ms ! i) \<le> sum_list (map stream_work ms)" using assms by (intro member_le_sum_list) auto
  then show ?thesis using assms by (simp add: map_update sum_list_update)
qed

lemma next_arrives_work:
  assumes "accessors_inv s" "streams_inv evss s" "next_arrives i continue heap s = Some s'" "i < length (rp_streams s)"
  shows "sum_list (map stream_work (rp_streams s')) = sum_list (map stream_work (rp_streams s))"
    "\<And>j. i < j \<Longrightarrow> rest_from j s' = rest_from j s"
    "\<exists>heap'. rp_task s' = continue heap' \<and> heap_weight heap' = heap_weight heap + length (stream_rest (rp_streams s ! i))"
proof -
  have closed: "sm_open (rp_streams s ! i) \<or> sm_todo (rp_streams s ! i) = []" using assms(2,4) by (simp add: streams_inv_def Let_def)
  have "sum_list (map stream_work (rp_streams s')) = sum_list (map stream_work (rp_streams s)) \<and>
    (\<forall>j>i. rest_from j s' = rest_from j s) \<and>
    (\<exists>heap'. rp_task s' = continue heap' \<and> heap_weight heap' = heap_weight heap + length (stream_rest (rp_streams s ! i)))"
    using assms(3)
  proof (cases rule: next_arrives_cases)
    case last
    then show ?thesis using closed by (auto simp: stream_rest_def)
  next
    case (event ev evs m)
    have "stream_work m = stream_work (rp_streams s ! i)" using event(1) by (simp add: stream_work_def)
    moreover have "heap_weight (heap @ [e]) = heap_weight heap + Suc (length (he_stream e))" for e :: "('a, nat) heap_entry"
      by (simp add: heap_weight_def)
    ultimately show ?thesis using event(3) stream_update(1) [OF assms(2,4) event(1,2)] stream_work_update [OF assms(4), of m]
      by (auto simp: rest_from_set_stream)
  qed
  then show "sum_list (map stream_work (rp_streams s')) = sum_list (map stream_work (rp_streams s))"
    "\<And>j. i < j \<Longrightarrow> rest_from j s' = rest_from j s"
    "\<exists>heap'. rp_task s' = continue heap' \<and> heap_weight heap' = heap_weight heap + length (stream_rest (rp_streams s ! i))"
    by blast+
qed

lemma next_arrives_length: "next_arrives i continue heap s = Some s' \<Longrightarrow> length (rp_streams s') = length (rp_streams s)"
  by (erule next_arrives_cases) simp_all

lemma task_step_work:
  assumes "accessors_inv s" "streams_inv evss s" "task_step pick s = Some s'"
  shows "work s' < work s"
proof (cases "rp_task s")
  case (Asking k)
  then show ?thesis using assms(3) by (auto simp: task_step_def Let_def work_def task_work_def heap_weight_def split: if_splits)
next
  case (AwaitReply j heap)
  then show ?thesis using assms(3)
    by (auto simp: task_step_def Let_def work_def task_work_def split: if_splits reply.splits)
next
  case (AwaitFirst j heap)
  then have j: "j < length (rp_streams s)" using assms(2) by (auto simp: streams_inv_def Let_def)
  have n: "next_arrives j (AwaitReply (Suc j)) heap s = Some s'" using assms(3) AwaitFirst by (simp add: task_step_def)
  from next_arrives_work [OF assms(1,2) n j] next_arrives_length [OF n] AwaitFirst j
  show ?thesis by (auto simp: work_def task_work_def rest_from_Suc)
next
  case (Merging heap)
  then show ?thesis using assms
    by (auto simp: task_step_def work_def task_work_def streams_inv_def Let_def pop_entry heap_weight_pop split: option.splits)
next
  case (AwaitNext i heap)
  have i: "i < length (rp_streams s)" using entry_in_range(1) [OF assms(1), of i] AwaitNext by simp
  have n: "next_arrives i Merging heap s = Some s'" using assms(3) AwaitNext by (simp add: task_step_def)
  from next_arrives_work [OF assms(1,2) n i] AwaitNext
  show ?thesis by (auto simp: work_def task_work_def)
qed (use assms(3) in \<open>simp_all add: task_step_def\<close>)

lemma replay_step_work:
  assumes "accessors_inv s" "streams_inv evss s" "replay_step pick e s = Some (Ok s')"
  shows "work s' < work s"
proof (cases "e = Task")
  case True
  then show ?thesis using assms(3) task_step_work [OF assms(1,2)] by auto
next
  case False
  show ?thesis
  proof (rule producer_step [OF assms(3) False])
    fix i m
    assume m: "s' = set_stream i m s" "i < length (rp_streams s)" "stream_rest m = stream_rest (rp_streams s ! i)"
      "stream_work m < stream_work (rp_streams s ! i)"
    have rest: "stream_rest ((rp_streams s)[i := m] ! k) = stream_rest (rp_streams s ! k)" for k
      using m(3) by (simp add: nth_update_if)
    have "task_work (set_stream i m s) = task_work s"
      by (simp add: task_work_def rest_from_def rest cong: task.case_cong)
    then show ?thesis using stream_work_update [OF m(2), of m] m(1,4) by (simp add: work_def)
  qed
qed

lemma work_new: "work (replay_new evss) = 5 * length evss + 3 * length (concat evss) + 3"
proof -
  have "(\<Sum>i\<in>{0..<length evss}. length (evss ! i)) = length (concat evss)"
    by (simp add: length_concat sum_list_sum_nth)
  moreover have "(\<Sum>evs\<leftarrow>evss. Suc (Suc (length evs))) = 2 * length evss + length (concat evss)"
    by (induction evss) simp_all
  ultimately show ?thesis
    by (simp add: work_def task_work_def rest_from_def stream_rest_def replay_new_def stream_work_def comp_def)
qed

subsection \<open>Runs\<close>

fun replay_run :: "(('t, nat) heap_entry list \<Rightarrow> nat) \<Rightarrow> replay_action list \<Rightarrow> 't replay \<Rightarrow> 't replay option" where
  "replay_run pick [] s = Some s"
| "replay_run pick (e # es) s = (case replay_step pick e s of Some (Ok s') \<Rightarrow> replay_run pick es s' | _ \<Rightarrow> None)"

lemma replay_run_reachable: "replay_run pick es s = Some s' \<Longrightarrow> replay_reachable pick evss s \<Longrightarrow> replay_reachable pick evss s'"
  by (induction es arbitrary: s) (auto split: option.splits sum.splits intro: replay_reachable.step)

lemma replay_run_bounded:
  assumes "max_pick pick" "replay_run pick es s = Some s'" "accessors_inv s \<and> streams_inv evss s \<and> served pick evss s"
  shows "length es + work s' \<le> work s"
  using assms(2,3)
proof (induction es arbitrary: s)
  case (Cons e es)
  then obtain s1 where s1: "replay_step pick e s = Some (Ok s1)" "replay_run pick es s1 = Some s'"
    by (auto split: option.splits sum.splits)
  have "accessors_inv s1 \<and> streams_inv evss s1 \<and> served pick evss s1"
    using replay_step_inv [OF assms(1) _ _ _ s1(1)] Cons.prems(2) by blast
  from Cons.IH [OF s1(2) this] replay_step_work [OF _ _ s1(1)] Cons.prems(2) show ?case by fastforce
qed simp

text \<open>As long as no message is dropped, some task can go on.\<close>

lemma replay_progress:
  assumes "accessors_inv s" "streams_inv evss s" "\<forall>m \<in> set (rp_streams s). sm_reply m \<noteq> Lost" "rp_task s \<noteq> Done"
  shows "\<exists>e s'. (\<forall>i. e \<noteq> DropMessage i) \<and> replay_step pick e s = Some (Ok s')"
proof (cases "task_step pick s")
  case (Some s')
  then show ?thesis by (intro exI [of _ Task] exI [of _ s']) simp
next
  case None
  let ?n = "length (rp_streams s)"
  have alive: "rp_task s \<noteq> Failed" using assms(2,3) by (auto simp: streams_inv_def Let_def)
  have feed: "\<exists>e s'. (\<forall>i. e \<noteq> DropMessage i) \<and> replay_step pick e s = Some (Ok s')"
    if i: "i < ?n" "sm_reply (rp_streams s ! i) = Given" "poll_next (rp_streams s ! i) = None" for i
  proof -
    have empty: "sm_buf (rp_streams s ! i) = []" "sm_open (rp_streams s ! i)"
      using i(3) by (auto simp: poll_next_def split: list.splits if_splits)
    show ?thesis
    proof (cases "sm_todo (rp_streams s ! i)")
      case Nil
      then show ?thesis using i(1,2) empty by (intro exI [of _ "EndStream i"]) simp
    next
      case (Cons ev evs)
      then show ?thesis using i(1,2) empty alive by (intro exI [of _ "Produce i"]) (simp add: channel_capacity_def)
    qed
  qed
  have given: "sm_reply (rp_streams s ! i) = Given" if "i < ?n" "i < task_from ?n (rp_task s) \<or> (\<exists>h. rp_task s = AwaitFirst i h)" for i
    using assms(2) alive that unfolding streams_inv_def Let_def by blast
  show ?thesis
  proof (cases "rp_task s")
    case (AwaitReply j heap)
    then have j: "j < ?n" "sm_reply (rp_streams s ! j) = Awaited"
      using None by (auto simp: task_step_def Let_def split: if_splits reply.splits)
    then show ?thesis using AwaitReply by (intro exI [of _ "CreateStream j"]) (simp add: asked_def)
  next
    case (AwaitFirst j heap)
    then have j: "j < ?n" using assms(2) by (auto simp: streams_inv_def Let_def)
    moreover have "poll_next (rp_streams s ! j) = None"
      using None AwaitFirst by (auto simp: task_step_def next_arrives_def split: option.splits)
    ultimately show ?thesis using feed given AwaitFirst by blast
  next
    case (AwaitNext i heap)
    then have i: "i < ?n" using entry_in_range(1) [OF assms(1), of i] by simp
    moreover have "poll_next (rp_streams s ! i) = None"
      using None AwaitNext by (auto simp: task_step_def next_arrives_def split: option.splits)
    moreover have "sm_reply (rp_streams s ! i) = Given" using given [OF i] i AwaitNext by simp
    ultimately show ?thesis using feed by blast
  qed (use None alive assms(4) in \<open>auto simp: task_step_def split: option.splits\<close>)
qed

subsection \<open>Properties\<close>

text \<open>
  C21. However the tasks interleave, the background task calls what \<open>background_task\<close> calls on the whole
  streams, in this order, and all of it when it is done: the delays of the producers do not change
  the replay. Only a message that is dropped unhandled makes it fail. When it has ended, either way,
  every accessor has been dropped once, so that the runtime is not kept alive. No channel ever holds
  more than two events.
\<close>

theorem replay_refines_specification:
  assumes "max_pick pick" "replay_reachable pick evss s"
  defines "spec \<equiv> background_task pick (enumerate 0 evss)"
  shows "(rp_task s \<noteq> Failed \<longrightarrow> prefix (rp_calls s) spec) \<and> (rp_task s = Done \<longrightarrow> rp_calls s = spec) \<and>
    (rp_task s = Failed \<longrightarrow> (\<exists>cs ds. rp_calls s = cs @ map DropAcc ds \<and> prefix cs spec) \<and>
      (\<exists>m \<in> set (rp_streams s). sm_reply m = Lost)) \<and>
    (rp_task s \<in> {Done, Failed} \<longrightarrow> mset (drops (rp_calls s)) = mset [0..<length evss]) \<and>
    (\<forall>m \<in> set (rp_streams s). length (sm_buf m) \<le> 2)"
proof -
  have inv: "accessors_inv s" "streams_inv evss s" "served pick evss s" using replay_reachable_inv [OF assms(1,2)] by blast+
  have served: "rp_calls s @ future pick evss s = spec" if "rp_task s \<noteq> Failed"
    using inv(3) that by (simp add: served_def spec_def)
  have "rp_task s = Done \<Longrightarrow> rp_calls s = spec" using served by (simp add: future_def)
  moreover have "rp_task s \<noteq> Failed \<Longrightarrow> prefix (rp_calls s) spec" using served by (metis prefixI)
  moreover have "rp_task s = Failed \<Longrightarrow> \<exists>cs ds. rp_calls s = cs @ map DropAcc ds \<and> prefix cs spec"
    using inv(3) by (simp add: served_def spec_def)
  moreover have "rp_task s = Failed \<Longrightarrow> \<exists>m \<in> set (rp_streams s). sm_reply m = Lost"
    using inv(2) by (auto simp: streams_inv_def Let_def)
  moreover have "mset (drops (rp_calls s)) = mset [0..<length evss]" if "rp_task s \<in> {Done, Failed}"
    using inv(1,2) that by (auto simp: accessors_inv_def streams_inv_def Let_def)
  moreover have "\<forall>m \<in> set (rp_streams s). length (sm_buf m) \<le> 2"
    using inv(2) by (auto simp: streams_inv_def Let_def channel_capacity_def in_set_conv_nth)
  ultimately show ?thesis by blast
qed

text \<open>Two producers, the second of which is faster.\<close>

definition fast_second :: "replay_action list" where
  "fast_second = [Task, Task, CreateStream 1, Produce 1, Task, CreateStream 0, Task, Produce 1, EndStream 1, Produce 0, Task,
     Task, Task, Task, Task, Task, Task, Task, Task, EndStream 0, Task, Task]"

definition replayed :: "nat replay" where
  "replayed = \<lparr>rp_task = Done, rp_streams = replicate 2 \<lparr>sm_reply = Given, sm_todo = [], sm_buf = [], sm_open = False\<rparr>,
     rp_calls = [SendCreate 0, SendCreate 1, SendProcess 1 (replay_event 2), SendProcess 1 (replay_event 4), DropAcc 1,
       SendProcess 0 (replay_event 1), DropAcc 0]\<rparr>"

lemma fast_second_run: "replay_run first_max fast_second (replay_new [[replay_event 1], [replay_event 2, replay_event 4]]) = Some replayed"
  by (simp add: fast_second_def replay_new_def task_step_def goto_def set_stream_def asked_def channel_capacity_def
      next_arrives_def poll_next_def stream_rest_def heap_push_def heap_pop_def entry_cmp_def ord_cmp_def replay_event_def
      replayed_def numeral_2_eq_2)

theorem replay_refines_specification_witness:
  "rp_calls replayed = background_task first_max (enumerate 0 [[replay_event 1], [replay_event 2, replay_event 4]])"
proof -
  have "replay_reachable first_max [[replay_event 1], [replay_event 2, replay_event 4]] replayed"
    by (rule replay_run_reachable [OF fast_second_run replay_reachable.new])
  from replay_refines_specification [OF first_max.max_pick_axioms this] show ?thesis by (simp add: replayed_def)
qed

text \<open>
  C22. The replay ends. A run of \<open>n\<close> producers with \<open>m\<close> events in all has at most \<open>5 n + 3 m + 3\<close> steps,
  and as long as the background task is not done and no message has been dropped, some task can take
  a step: there is no deadlock, in particular not on a full channel.
\<close>

theorem replay_completes:
  assumes "max_pick pick" "replay_run pick es (replay_new evss) = Some s"
  shows "length es \<le> 5 * length evss + 3 * length (concat evss) + 3 \<and>
    ((\<forall>m \<in> set (rp_streams s). sm_reply m \<noteq> Lost) \<and> rp_task s \<noteq> Done \<longrightarrow>
      (\<exists>e s'. (\<forall>i. e \<noteq> DropMessage i) \<and> replay_step pick e s = Some (Ok s')))"
proof -
  have "replay_reachable pick evss (replay_new evss)" by (rule replay_reachable.new)
  note new = replay_reachable_inv [OF assms(1) this]
    and s = replay_reachable_inv [OF assms(1) replay_run_reachable [OF assms(2) this]]
  have "length es \<le> 5 * length evss + 3 * length (concat evss) + 3"
    using replay_run_bounded [OF assms(1,2) new] by (simp add: work_new)
  then show ?thesis using replay_progress s by blast
qed

text \<open>The background task waits for the first reply.\<close>

definition unanswered :: "nat replay" where
  "unanswered = (replay_new [[replay_event 1], [replay_event 2]])\<lparr>rp_task := AwaitReply 0 [], rp_calls := [SendCreate 0, SendCreate 1]\<rparr>"

theorem replay_completes_witness:
  "task_step first_max unanswered = None \<and>
    (\<exists>e s'. (\<forall>i. e \<noteq> DropMessage i) \<and> replay_step first_max e unanswered = Some (Ok s'))"
proof -
  have "replay_run first_max [Task, Task, Task] (replay_new [[replay_event 1], [replay_event 2]]) = Some unanswered"
    by (simp add: unanswered_def replay_new_def task_step_def goto_def)
  from replay_completes [OF first_max.max_pick_axioms this]
  have "\<exists>e s'. (\<forall>i. e \<noteq> DropMessage i) \<and> replay_step first_max e unanswered = Some (Ok s')"
    by (simp add: unanswered_def replay_new_def)
  then show ?thesis by (simp add: task_step_def unanswered_def replay_new_def)
qed

end
