(* ===== verification/App.thy ===== *)
theory App
  imports Shutdown Synchronizer Tokio
begin

text \<open>
  The example application: the actors of \<open>replay_mock/src/lib.rs\<close>, the initialisation of the
  \<open>Synchronizer\<close>, and the configuration of \<open>app/src/main.rs\<close>, on the runtime of \<open>System\<close>. The
  background task runs outside the runtime: its calls are those of \<open>background_task\<close>.

  \<open>from_nanos\<close> stands for \<open>DateTime::from_timestamp_nanos\<close> of \<open>chrono\<close>, of which only is used
  that it keeps the order. The sizes are those of the target \<open>x86_64-unknown-linux-gnu\<close>.
\<close>

subsection \<open>The actors of \<open>replay_mock\<close>\<close>

text \<open>\<open>event_stream\<close>: the events that the task it spawns sends to the returned stream.\<close>

definition interval_events :: "(int \<Rightarrow> 't) \<Rightarrow> ('t, unit) event list" where
  "interval_events from_nanos =
     map (\<lambda>t. \<lparr>ev_timestamp = from_nanos (t * 1000000000), ev_tie_break = 0, ev_obj = ()\<rparr>) [1..10]"

text \<open>The functions that messages call.\<close>

datatype 't app_fn =
    FCreateStream                            \<comment> \<open>\<open>Producer::create_stream\<close>\<close>
  | FProcess "('t, untyped_box) event"       \<comment> \<open>\<open>Producer::process_event\<close>\<close>
  | FRecv "('t, unit) event"                 \<comment> \<open>\<open>IntervalUnitConsumer::recv_event\<close>\<close>

record 't app_mem =
  am_consumers :: broadcast_group            \<comment> \<open>the field of the \<open>IntervalUnitProducer\<close>\<close>
  am_boxes :: "unit boxes"
  am_log :: "('t, unit) event list"          \<comment> \<open>what the consumers print\<close>

text \<open>\<open>IntervalUnitProducer::process_event\<close>.\<close>

definition interval_process_event :: "broadcast_group \<Rightarrow> ('t, unit) event \<Rightarrow> 't app_fn cmd list" where
  "interval_process_event consumers item = [CmdBroadcast consumers (FRecv item)]"

fun app_user :: "('t app_fn, 't app_mem) user" where
  "app_user FCreateStream this mem = Ok (mem, [])"
| "app_user (FProcess ev) this mem =
     rbind (process_event (ZeroSized ()) ev (am_boxes mem)) (\<lambda>(item, boxes).
     Ok (mem\<lparr>am_boxes := boxes\<rparr>, interval_process_event (am_consumers mem) item))"
| "app_user (FRecv item) this mem = Ok (mem\<lparr>am_log := am_log mem @ [item]\<rparr>, [])"

subsection \<open>The registered types\<close>

type_synonym 't app_type = "(unit, unit, unit init_view, ('t app_fn, 't app_mem) init_outcome) actor_type"

definition producer_trait :: trait_id where "producer_trait = TraitId 1"
definition tokio_type :: type_id where "tokio_type = TypeId 4"

text \<open>\<open>Synchronizer::init\<close>: the accessors that it collects go to the background task.\<close>

definition synchronizer_type :: "'t app_type" where
  "synchronizer_type = \<lparr>at_type_id = TypeId 1, at_ident = ''Synchronizer'', at_size = 0, at_align = 1,
     at_config_type = TypeId 0, at_deserialize = Some,
     at_init = (\<lambda>v _. Some ([InitAllAccessors (QDyn producer_trait) (length (iv_lookup v (QDyn producer_trait))),
       InitGetResource tokio_type], \<lambda>_ mem. mem))\<rparr>"

definition interval_producer_type :: "((context_id \<times> refs) list \<Rightarrow> (context_id \<times> refs) list) \<Rightarrow> 't app_type" where
  "interval_producer_type iter = \<lparr>at_type_id = TypeId 2, at_ident = ''IntervalUnitProducer'', at_size = 16, at_align = 8,
     at_config_type = TypeId 0, at_deserialize = Some,
     at_init = (\<lambda>v _. Some ([], \<lambda>_ mem. mem\<lparr>am_consumers := broadcast_group iter (iv_lookup v (QSized (TypeId 3)))\<rparr>))\<rparr>"

definition interval_consumer_type :: "'t app_type" where
  "interval_consumer_type = \<lparr>at_type_id = TypeId 3, at_ident = ''IntervalUnitConsumer'', at_size = 0, at_align = 1,
     at_config_type = TypeId 0, at_deserialize = Some, at_init = (\<lambda>v _. Some ([], \<lambda>_ mem. mem))\<rparr>"

type_synonym 't app_nodes = "(unit, unit, unit init_view, ('t app_fn, 't app_mem) init_outcome, unit) registration list"

definition app_nodes :: "((context_id \<times> refs) list \<Rightarrow> (context_id \<times> refs) list) \<Rightarrow>
    't app_nodes" where
  "app_nodes iter = [RegisterActor synchronizer_type [], RegisterResource tokio_type (),
     RegisterActor interval_consumer_type [],
     RegisterActor (interval_producer_type iter) [(producer_trait, DynMeta 1)]]"

subsection \<open>The configuration of the application\<close>

definition app_actor :: "string \<Rightarrow> unit actor_config" where
  "app_actor name = \<lparr>cfg_typename = name, cfg_config = (), cfg_context = cid 0\<rparr>"

definition app_config :: "unit config" where
  "app_config = \<lparr>config_root = Scope None []
      [app_actor ''Synchronizer'', app_actor ''IntervalUnitProducer'', app_actor ''IntervalUnitConsumer''] [],
     config_contexts = [\<lparr>cc_id = cid 0, cc_thread_affinity = None\<rparr>]\<rparr>"

text \<open>The calls of the background task, as the runtime sees them.\<close>

fun call_outside :: "('t, accessor) call \<Rightarrow> 't app_fn outside" where
  "call_outside (SendCreate a) = OutSend a FCreateStream"
| "call_outside (SendProcess a ev) = OutSend a (FProcess ev)"
| "call_outside (DropAcc a) = OutDrop a"

subsection \<open>The start of the application\<close>

definition app_registry :: "((context_id \<times> refs) list \<Rightarrow> (context_id \<times> refs) list) \<Rightarrow>
    (unit, unit, unit, 't app_fn, 't app_mem) object_registry" where
  "app_registry iter = (case run_nodes (app_nodes iter) builder_default of Ok r \<Rightarrow> r | Fault _ \<Rightarrow> builder_default)"

lemmas app_types = synchronizer_type_def interval_producer_type_def interval_consumer_type_def

lemma app_nodes_run: "run_nodes (app_nodes iter :: 't app_nodes) builder_default = Ok (app_registry iter)"
proof -
  have "\<exists>r. run_nodes (app_nodes iter :: 't app_nodes) builder_default = Ok r"
    by (simp add: app_nodes_def app_types init_actor_def init_resource_def builder_default_def uniquely_named_def
        Let_def metadata_helper_def push_trait_def tokio_type_def)
  then show ?thesis by (auto simp: app_registry_def)
qed

lemma app_by_name:
  "by_name (app_registry iter) ''Synchronizer'' = Some (TypeId 1, create_vtable synchronizer_type)"
  "by_name (app_registry iter) ''IntervalUnitProducer'' = Some (TypeId 2, create_vtable (interval_producer_type iter))"
  "by_name (app_registry iter) ''IntervalUnitConsumer'' = Some (TypeId 3, create_vtable interval_consumer_type)"
  "trait_types (app_registry iter) producer_trait = Some [\<lparr>im_type_id = TypeId 2, im_dyn_meta = DynMeta 1\<rparr>]"
  "resource_constructors (app_registry iter) = [tokio_type \<mapsto> ()]"
  by (simp_all add: app_registry_def app_nodes_def app_types init_actor_def init_resource_def builder_default_def
      uniquely_named_def Let_def metadata_helper_def push_trait_def by_name_def tokio_type_def producer_trait_def)

subsection \<open>Its run\<close>

definition app_alloc :: "nat \<Rightarrow> layout \<Rightarrow> usize" where
  "app_alloc k l = 4096"

type_synonym 't app_args = "(unit, unit, unit, 't app_fn, 't app_mem) context_constructor_args"

definition app_infos :: "((context_id \<times> refs) list \<Rightarrow> (context_id \<times> refs) list) \<Rightarrow>
    (unit, unit, unit, 't app_fn, 't app_mem) actor_constructor_info list" where
  "app_infos iter =
     [\<lparr>aci_id = aid 0, aci_offset = Offset 0, aci_vtable = create_vtable synchronizer_type, aci_cfg = app_actor ''Synchronizer''\<rparr>,
      \<lparr>aci_id = aid (Suc 0), aci_offset = Offset 0, aci_vtable = create_vtable (interval_producer_type iter),
        aci_cfg = app_actor ''IntervalUnitProducer''\<rparr>,
      \<lparr>aci_id = aid (Suc (Suc 0)), aci_offset = Offset 16, aci_vtable = create_vtable interval_consumer_type,
        aci_cfg = app_actor ''IntervalUnitConsumer''\<rparr>]"

definition app_arena :: arena where
  "app_arena = \<lparr>arena_data = 4096, arena_capacity = 23\<rparr>"

lemma app_layouts:
  "vtable_layout (create_vtable synchronizer_type) = Ok \<lparr>lay_size = 0, lay_align = 1\<rparr>"
  "vtable_layout (create_vtable (interval_producer_type iter)) = Ok \<lparr>lay_size = 16, lay_align = 8\<rparr>"
  "vtable_layout (create_vtable interval_consumer_type) = Ok \<lparr>lay_size = 0, lay_align = 1\<rparr>"
  by (rule trans [OF create_vtable_layout]; simp add: wf_actor_type_def app_types wf_layout_def)+

lemma app_from_layouts:
  "from_layouts (app_alloc k) [\<lparr>lay_size = 0, lay_align = 1\<rparr>, \<lparr>lay_size = 16, lay_align = 8\<rparr>, \<lparr>lay_size = 0, lay_align = 1\<rparr>] =
    Ok (app_arena, [Offset 0, Offset 0, Offset 16])"
proof -
  have "compute_space_required [\<lparr>lay_size = 0, lay_align = 1\<rparr>, \<lparr>lay_size = 16, lay_align = 8\<rparr>, \<lparr>lay_size = 0, lay_align = 1\<rparr>] = Ok 23"
    by (simp add: space_eval)
  then show ?thesis
    by (simp add: from_layouts_def alloc_call_def from_size_align_def wf_layout_def nonnull_new_def
        get_offsets_def align_offset_def offset_from_u32_def app_alloc_def app_arena_def)
qed

lemma app_allocate:
  "allocate_actors (app_registry iter) (app_alloc k) [(aid 0, app_actor ''Synchronizer''),
      (aid (Suc 0), app_actor ''IntervalUnitProducer''), (aid (Suc (Suc 0)), app_actor ''IntervalUnitConsumer'')] =
    Ok (app_arena, app_infos iter)"
  by (simp add: allocate_actors_def constructor_info_def app_infos_def app_actor_def app_by_name app_layouts
      app_from_layouts)

definition app_tree :: "((context_id \<times> refs) list \<Rightarrow> (context_id \<times> refs) list) \<Rightarrow>
    (unit, unit, unit, 't app_fn, 't app_mem) object_tree" where
  "app_tree iter = \<lparr>tree_actors = actor_entries (cid 0) (app_infos iter)\<rparr>"

definition app_args :: "((context_id \<times> refs) list \<Rightarrow> (context_id \<times> refs) list) \<Rightarrow> 't app_args" where
  "app_args iter = \<lparr>ca_id = cid 0, ca_actors = app_infos iter, ca_rx = 0, ca_arena = app_arena, ca_links = [],
     ca_tree = Some (app_tree iter), ca_make_tx = [0], ca_resource_map = [tokio_type \<mapsto> ()]\<rparr>"

definition app_start :: "((context_id \<times> refs) list \<Rightarrow> (context_id \<times> refs) list) \<Rightarrow> 't app_mem \<Rightarrow>
    ('t app_args, 't app_fn, 't app_mem) sys" where
  "app_start iter mem = \<lparr>sys_threads = [Waiting (app_args iter)], sys_channels = [remote_channel\<lparr>senders := 1\<rparr>],
     sys_control = Block 1, sys_live = [], sys_outside = [], sys_make_tx = 1, sys_mem = mem\<rparr>"

lemma app_run: "run (app_registry iter) app_alloc (\<lambda>_. 64) app_config mem = Ok (app_start iter mem)"
proof -
  have assign: "assign_actors 0 (scope_actors (config_root app_config)) (map (\<lambda>_. []) (config_contexts app_config)) =
      Ok [[(aid 0, app_actor ''Synchronizer''), (aid (Suc 0), app_actor ''IntervalUnitProducer''),
        (aid (Suc (Suc 0)), app_actor ''IntervalUnitConsumer'')]]"
    by (simp add: app_config_def app_actor_def demo_ids)
  have "scope_children (config_root app_config) = []" "imported_scopes (config_root app_config) = []"
    "length (config_contexts app_config) = 1"
    "list_all (\<lambda>(i, b). i = context_as_index (cc_id b)) (enumerate 0 (config_contexts app_config))"
    by (simp_all add: app_config_def)
  then show ?thesis
    by (simp add: run_def create_context_args_def assign app_allocate demo_ids cb_new_def alloc_call_def
        cb_layout_def nonnull_new_def cb_clone_def fetch_add_def fetch_sub_def release_def links_for_def clone_links_def
        app_by_name start_def app_start_def app_args_def app_tree_def tx_clone_def tx_drop_def remote_channel_def)
qed

definition producer_acc :: accessor where
  "producer_acc = \<lparr>acc_offset = Offset 0, acc_meta = MetaDyn (DynMeta 1), acc_queue = 0\<rparr>"

definition app_consumers :: "((context_id \<times> refs) list \<Rightarrow> (context_id \<times> refs) list) \<Rightarrow> broadcast_group" where
  "app_consumers iter = \<lparr>by_context = iter [(cid 0, [(Offset 16, MetaUnit)])]\<rparr>"

definition app_context :: "((context_id \<times> refs) list \<Rightarrow> (context_id \<times> refs) list) \<Rightarrow> 't app_fn actor_context" where
  "app_context iter = \<lparr>ctx_data = context_data_new (cid 0), ctx_arena = app_arena,
     ctx_drop_fns = map (\<lambda>a. (aci_offset a, vt_drop (aci_vtable a))) (app_infos iter :: (unit, unit, unit, 't app_fn, 't app_mem) actor_constructor_info list),
     ctx_rx = 0, ctx_links = []\<rparr>"

lemma app_lookup:
  "tree_query (app_registry iter) (app_tree iter) a (QDyn producer_trait) =
    [(aid (Suc 0), \<lparr>key_loc = \<lparr>loc_context = cid 0, loc_offset = Offset 0\<rparr>, key_meta = MetaDyn (DynMeta 1)\<rparr>)]"
  "tree_query (app_registry iter) (app_tree iter) a (QSized (TypeId 3)) =
    [(aid (Suc (Suc 0)), \<lparr>key_loc = \<lparr>loc_context = cid 0, loc_offset = Offset 16\<rparr>, key_meta = MetaUnit\<rparr>)]"
  by (simp_all add: tree_query_def lookup_dyn_def lookup_sized_def app_by_name app_tree_def actor_entries_def app_infos_def
      create_vtable_def app_types)

lemma app_create:
  "create_context (app_registry iter) id (app_args iter) mem =
    Ok (mem\<lparr>am_consumers := app_consumers iter\<rparr>, app_context iter, [AccClone producer_acc, DropMakeTx])"
  by (simp add: create_context_def app_args_def has_cycles_def app_context_def)
    (simp add: app_infos_def Let_def at_offset_def align_offset_def app_layouts,
      simp add: create_vtable_def, simp add: app_types init_view_def app_lookup vtable_deserialize_def
        actor_constructor_def align_offset_def app_arena_def all_accessors_def accessor_for_key_def get_resource_def
        broadcast_group_def app_consumers_def producer_acc_def,
      rule exI [of _ False], simp)


text \<open>The application waiting for its next message, and the rounds of its run.\<close>

definition app_wait :: "((context_id \<times> refs) list \<Rightarrow> (context_id \<times> refs) list) \<Rightarrow> 't app_mem \<Rightarrow>
    ('t app_args, 't app_fn, 't app_mem) sys" where
  "app_wait iter mem = \<lparr>sys_threads = [Running PRecv [] (app_context iter)], sys_channels = [remote_channel\<lparr>senders := 1\<rparr>],
     sys_control = Block 1, sys_live = [producer_acc], sys_outside = [], sys_make_tx = 0, sys_mem = mem\<rparr>"

definition app_build where
  "app_build iter = create_context (app_registry iter) id"

definition boot :: "'f sys_event list" where
  "boot = map Th [0, 0, 0, 0, 0]"

lemma app_context_simps [simp]:
  "ctx_rx (app_context iter) = 0" "ctx_data (app_context iter) = context_data_new (cid 0)"
  "ctx_links (app_context iter) = []" "(app_context iter)\<lparr>ctx_data := context_data_new (cid 0)\<rparr> = app_context iter"
  by (simp_all add: app_context_def)

lemma queue_simps [simp]:
  "local_recv (local_send (cd_local_queue (context_data_new i)) m) = (Some m, cd_local_queue (context_data_new i))"
  "(context_data_new i)\<lparr>cd_local_queue := cd_local_queue (context_data_new i)\<rparr> = context_data_new i"
  by (simp_all add: context_data_new_def local_unbounded_def local_recv_def local_send_def local_default_def)

lemma app_drop [simp]: "context_drop (app_context iter) = Ok ()"
  by (simp add: context_drop_def app_context_def app_infos_def create_vtable_def app_types vtable_drop_def
      align_offset_def arena_offset_def app_arena_def)

lemma app_boot:
  "run_counted (app_build iter) app_user boot (app_start iter mem) =
    Some (app_wait iter (mem\<lparr>am_consumers := app_consumers iter\<rparr>))"
  by (simp add: run_simps boot_def app_build_def app_start_def app_wait_def app_create producer_acc_def)

fun schedule :: "('t, accessor) call \<Rightarrow> 't app_fn sys_event list" where
  "schedule (SendCreate a) = [Out (OutSend a FCreateStream), Out (OutStep 0), Out (OutStep 0), Th 0, Th 0, Th 0]"
| "schedule (SendProcess a ev) =
     [Out (OutSend a (FProcess ev)), Out (OutStep 0), Out (OutStep 0), Th 0, Th 0, Th 0, Th 0]"
| "schedule (DropAcc a) = [Out (OutDrop a), Out (OutStep 0), Th 0, Th 0, Th 0, Th 0]"

lemma app_round_create:
  "run_counted (app_build iter) app_user (schedule (SendCreate producer_acc)) (app_wait iter mem) = Some (app_wait iter mem)"
  by (simp add: run_simps app_wait_def producer_acc_def)

definition typed_event :: "('t, untyped_box) event \<Rightarrow> ('t, unit) event" where
  "typed_event ev = \<lparr>ev_timestamp = ev_timestamp ev, ev_tie_break = ev_tie_break ev, ev_obj = ()\<rparr>"

lemma app_round_process:
  assumes "am_consumers mem = \<lparr>by_context = [(cid 0, [(Offset 16, MetaUnit)])]\<rparr>"
  shows "run_counted (app_build iter) app_user (schedule (SendProcess producer_acc ev)) (app_wait iter mem) =
    Some (app_wait iter (mem\<lparr>am_log := am_log mem @ [typed_event ev]\<rparr>))"
  using assms
  by (simp add: run_simps app_wait_def producer_acc_def typed_event_def process_event_def box_from_raw_def
      interval_process_event_def broadcast_def)


definition app_end :: "'t app_mem \<Rightarrow> ('t app_args, 't app_fn, 't app_mem) sys" where
  "app_end mem = \<lparr>sys_threads = [Finished], sys_channels = [remote_channel\<lparr>senders := 0, receiver_alive := False\<rparr>],
     sys_control = Freed cb_layout, sys_live = [], sys_outside = [], sys_make_tx = 0, sys_mem = mem\<rparr>"

lemma app_round_drop:
  "run_counted (app_build iter) app_user (schedule (DropAcc producer_acc)) (app_wait iter mem) = Some (app_end mem)"
  by (simp add: run_simps app_wait_def producer_acc_def app_end_def)

lemma app_rounds:
  assumes "am_consumers mem = \<lparr>by_context = [(cid 0, [(Offset 16, MetaUnit)])]\<rparr>"
  shows "run_counted (app_build iter) app_user (concat (map schedule (map (SendProcess producer_acc) us))) (app_wait iter mem) =
    Some (app_wait iter (mem\<lparr>am_log := am_log mem @ map typed_event us\<rparr>))"
  using assms
proof (induction us arbitrary: mem)
  case (Cons u us)
  let ?mem = "mem\<lparr>am_log := am_log mem @ [typed_event u]\<rparr>"
  have "am_consumers ?mem = \<lparr>by_context = [(cid 0, [(Offset 16, MetaUnit)])]\<rparr>" using Cons.prems by simp
  from Cons.IH [OF this] show ?case using app_round_process [OF Cons.prems, of iter u]
    by (simp add: run_counted_append del: schedule.simps)
qed simp

text \<open>The calls in a schedule of threads outside the runtime, without their shared accesses.\<close>

fun outside_calls :: "'f sys_event list \<Rightarrow> 'f outside list" where
  "outside_calls [] = []"
| "outside_calls (Out (OutSend a f) # es) = OutSend a f # outside_calls es"
| "outside_calls (Out (OutDrop a) # es) = OutDrop a # outside_calls es"
| "outside_calls (_ # es) = outside_calls es"

lemma outside_calls_append: "outside_calls (es @ fs) = outside_calls es @ outside_calls fs"
  by (induction es rule: outside_calls.induct) simp_all

lemma outside_calls_schedule: "outside_calls (concat (map schedule cs)) = map call_outside cs"
proof (induction cs)
  case (Cons c cs)
  have "outside_calls (schedule c) = [call_outside c]" by (cases c) simp_all
  then show ?case using Cons by (simp add: outside_calls_append)
qed simp

lemma app_task:
  assumes "max_pick pick"
  shows "background_task pick [(producer_acc, us)] = SendCreate producer_acc # map (SendProcess producer_acc) us @ [DropAcc producer_acc]"
proof -
  let ?task = "background_task pick [(producer_acc, us)]"
  have "\<forall>c \<in> set ?task. call_acc c = producer_acc"
  proof -
    have "distinct (map he_acc (map producer_entry (filter (\<lambda>p. snd p \<noteq> []) [(producer_acc, us)])))" by simp
    from max_pick.merge_loop_delivers [OF assms(1) this] show ?thesis
      by (auto simp: background_task_unfold split: if_splits)
  qed
  then have "filter (\<lambda>c. call_acc c = producer_acc) ?task = ?task" by (simp add: filter_id_conv)
  then show ?thesis
    using background_task_serves [OF assms(1), of "[(producer_acc, us)]" producer_acc us] by simp
qed

lemma app_stream:
  assumes "stream_collect (ZeroSized ()) alloc (interval_events from_nanos) [] = (us, boxes)"
  shows "map typed_event us = interval_events from_nanos"
  using stream_collect_zero_sized [OF assms] by (auto simp: typed_event_def comp_def intro!: map_idI)

lemma interval_sorted: "strict_mono from_nanos \<Longrightarrow> sorted_wrt ev_less (interval_events from_nanos)"
  by (simp add: interval_events_def upto.simps ev_less_def ev_le_def strict_mono_less strict_mono_eq)

lemma app_replays:
  fixes from_nanos :: "int \<Rightarrow> 't :: linorder"
  assumes "max_pick pick" "\<And>m. mset (iter m) = mset m" "strict_mono from_nanos"
    and "stream_collect (ZeroSized ()) alloc (interval_events from_nanos) [] = (us, boxes)"
  shows "\<exists>es s. run (app_registry iter) app_alloc (\<lambda>_. 64) app_config mem = Ok (app_start iter mem) \<and>
    run_counted (create_context (app_registry iter) id) app_user es (app_start iter mem) = Some s \<and>
    outside_calls es = map call_outside (background_task pick [(producer_acc, us)]) \<and>
    set (sys_threads s) = {Finished} \<and>
    am_log (sys_mem s) = am_log mem @ interval_events from_nanos \<and>
    sorted_wrt ev_less (interval_events from_nanos)"
proof -
  let ?task = "background_task pick [(producer_acc, us)]"
  note task = app_task [OF assms(1), of us] and us = app_stream [OF assms(4)]
  let ?m = "mem\<lparr>am_consumers := app_consumers iter\<rparr>"
  have "mset (iter [(cid 0, [(Offset 16, MetaUnit)])]) = {#(cid 0, [(Offset 16, MetaUnit)])#}" using assms(2) by simp
  then have cons: "am_consumers ?m = \<lparr>by_context = [(cid 0, [(Offset 16, MetaUnit)])]\<rparr>"
    by (simp add: app_consumers_def)
  let ?es = "boot @ concat (map schedule ?task)"
  let ?final = "app_end (?m\<lparr>am_log := am_log ?m @ map typed_event us\<rparr>)"
  have "run_counted (app_build iter) app_user ?es (app_start iter mem) = Some ?final"
    unfolding task
    by (simp add: run_counted_append app_boot app_round_create app_rounds [OF cons, simplified] app_round_drop
        del: schedule.simps run_counted.simps)
  moreover have "outside_calls ?es = map call_outside ?task"
    by (simp add: outside_calls_append outside_calls_schedule boot_def)
  moreover have "sorted_wrt ev_less (interval_events from_nanos)" by (rule interval_sorted [OF assms(3)])
  ultimately show ?thesis using app_run [of iter mem] us
    by (intro exI [of _ ?es] exI [of _ ?final]) (simp add: app_end_def app_build_def)
qed

subsection \<open>Properties\<close>

text \<open>
  The application replays its events from start to end. It starts, its synchronizer gets an
  accessor to its one producer, and there is a run in which a thread outside the runtime makes
  the calls of the background task, for the stream that the producer creates, and no others:
  the consumer receives the ten events as they were produced, in the order of time, the producer's
  accessor is dropped, and all threads finish.
\<close>

theorem app_replays_in_order:
  fixes from_nanos :: "int \<Rightarrow> 't :: linorder"
  assumes "max_pick pick" "\<And>m. mset (iter m) = mset m" "strict_mono from_nanos"
    and "stream_collect (ZeroSized ()) alloc (interval_events from_nanos) [] = (us, boxes)"
  shows "\<exists>es s. run (app_registry iter) app_alloc (\<lambda>_. 64) app_config mem = Ok (app_start iter mem) \<and>
    run_counted (create_context (app_registry iter) id) app_user es (app_start iter mem) = Some s \<and>
    outside_calls es = map call_outside (background_task pick [(producer_acc, us)]) \<and>
    set (sys_threads s) = {Finished} \<and>
    am_log (sys_mem s) = am_log mem @ interval_events from_nanos \<and>
    sorted_wrt ev_less (interval_events from_nanos)"
  by (rule app_replays [OF assms])

theorem app_replays_in_order_witness:
  "\<exists>us boxes es s. stream_collect (ZeroSized ()) bump_alloc (interval_events (\<lambda>t. t :: int)) [] = (us, boxes) \<and>
    run_counted (create_context (app_registry (\<lambda>m. m)) id) app_user es
      (app_start (\<lambda>m. m) \<lparr>am_consumers = \<lparr>by_context = []\<rparr>, am_boxes = [], am_log = []\<rparr>) = Some s \<and>
    outside_calls es = map call_outside (background_task first_max [(producer_acc, us)]) \<and>
    am_log (sys_mem s) = interval_events (\<lambda>t. t)"
proof -
  obtain us boxes where st: "stream_collect (ZeroSized ()) bump_alloc (interval_events (\<lambda>t. t :: int)) [] = (us, boxes)"
    by fastforce
  have "strict_mono (\<lambda>t. t :: int)" by (simp add: strict_mono_def)
  from app_replays_in_order [OF first_max.max_pick_axioms _ this st, of "\<lambda>m. m"
      "\<lparr>am_consumers = \<lparr>by_context = []\<rparr>, am_boxes = [], am_log = []\<rparr>"] st
  show ?thesis by auto
qed

end
