(* ===== verification/AppRuns.thy ===== *)
theory AppRuns
  imports App "HOL-Library.Sublist"
begin

text \<open>
  All runs of the example application, and not only the one that \<open>App\<close> exhibits: the thread of the
  runtime and the background task interleave in any way. The task makes its calls one after the
  other, at any time, each in the steps of \<open>outside_step\<close>.

  Every state of these runs is \<open>conc\<close> of an abstract one, which is where each call of the task is: seen
  by the thread, in the channel, in flight, or still to come.
\<close>

subsection \<open>The steps\<close>

datatype app_event = Advance | Issue | Progress

type_synonym 't app_sys = "('t app_args, 't app_fn, 't app_mem) sys"

definition with_calls :: "('t, accessor) call list \<Rightarrow> 't app_sys res option \<Rightarrow> (('t, accessor) call list \<times> 't app_sys) res option" where
  "with_calls cs r = map_option (\<lambda>r. rbind r (\<lambda>s. Ok (cs, s))) r"

fun app_step :: "((context_id \<times> refs) list \<Rightarrow> (context_id \<times> refs) list) \<Rightarrow> app_event \<Rightarrow>
    ('t, accessor) call list \<times> 't app_sys \<Rightarrow> (('t, accessor) call list \<times> 't app_sys) res option" where
  "app_step iter Advance (cs, s) = with_calls cs (thread_step (app_build iter) app_user 0 s)"
| "app_step iter Issue (cs, s) =
     (case cs of [] \<Rightarrow> None
      | c # cs' \<Rightarrow> if sys_outside s = [] then with_calls cs' (outside_step (call_outside c) s) else None)"
| "app_step iter Progress (cs, s) = with_calls cs (outside_step (OutStep 0) s)"

fun app_steps :: "((context_id \<times> refs) list \<Rightarrow> (context_id \<times> refs) list) \<Rightarrow> app_event list \<Rightarrow>
    ('t, accessor) call list \<times> 't app_sys \<Rightarrow> (('t, accessor) call list \<times> 't app_sys) option" where
  "app_steps iter [] x = Some x"
| "app_steps iter (e # es) x = (case app_step iter e x of Some (Ok y) \<Rightarrow> app_steps iter es y | _ \<Rightarrow> None)"

subsection \<open>Abstract states\<close>

text \<open>Where the thread is. \<open>Processing ev\<close> is after the producer's handler, before the consumer's.\<close>

datatype 't phase =
    Fresh | Linking | Unlinking | Drained | Releasing
  | Receiving | Processing "('t, untyped_box) event" | Handled | Counting
  | LastDropped | Stopping | Exiting | Ended

datatype 't flight = Quiet | Started "('t, accessor) call" | Counted "('t, accessor) call"

record 't app_state =
  as_phase :: "'t phase"
  as_seen :: "('t, accessor) call list"
  as_pend :: "('t, accessor) call list"
  as_flight :: "'t flight"
  as_rest :: "('t, accessor) call list"
  as_dropped :: bool
  as_log :: "('t, untyped_box) event list"

definition early :: "'t phase \<Rightarrow> bool" where "early p \<longleftrightarrow> p = Fresh \<or> p = Linking"
definition linked :: "'t phase \<Rightarrow> bool" where "linked p \<longleftrightarrow> early p \<or> p = Unlinking"
definition booting :: "'t phase \<Rightarrow> bool" where "booting p \<longleftrightarrow> linked p \<or> p = Drained \<or> p = Releasing"
definition ending :: "'t phase \<Rightarrow> bool" where "ending p \<longleftrightarrow> p = LastDropped \<or> p = Stopping \<or> p = Exiting \<or> p = Ended"

fun busy :: "'t phase \<Rightarrow> nat" where
  "busy (Processing ev) = 1" | "busy Handled = 1" | "busy Counting = 1" | "busy LastDropped = 1" | "busy _ = 0"

lemmas phase_defs = early_def linked_def booting_def ending_def

fun call_fn :: "('t, accessor) call \<Rightarrow> 't app_fn" where
  "call_fn (SendProcess a ev) = FProcess ev"
| "call_fn _ = FCreateStream"

definition call_msg :: "('t, accessor) call \<Rightarrow> 't app_fn msg" where
  "call_msg c = \<lparr>msg_targets = [(Offset 0, MetaDyn (DynMeta 1))], msg_fn = call_fn c\<rparr>"

fun call_item :: "('t, accessor) call \<Rightarrow> 't app_fn queue_item" where
  "call_item (DropAcc a) = AccessorDropped"
| "call_item c = Msg (call_msg c)"

fun flight_actions :: "'t flight \<Rightarrow> 't app_fn action list" where
  "flight_actions Quiet = []"
| "flight_actions (Started c) = (case c of DropAcc a \<Rightarrow> [AccDrop producer_acc] | _ \<Rightarrow> [AccIncrement producer_acc (call_msg c)])"
| "flight_actions (Counted c) = [AccPush producer_acc (call_msg c)]"

fun flight_calls :: "'t flight \<Rightarrow> ('t, accessor) call list" where
  "flight_calls Quiet = []" | "flight_calls (Started c) = [c]" | "flight_calls (Counted c) = [c]"

fun counted :: "'t flight \<Rightarrow> nat" where
  "counted (Counted c) = 1" | "counted _ = 0"

definition as_live :: "'t app_state \<Rightarrow> accessor list" where
  "as_live a = (if early (as_phase a) \<or> as_dropped a then [] else [producer_acc])"

definition as_tokens :: "'t app_state \<Rightarrow> nat" where
  "as_tokens a = (if booting (as_phase a) then 1 else 0) + length (as_live a) + counted (as_flight a) + length (as_pend a) +
     busy (as_phase a)"

text \<open>The context while the message to the consumer is in its local queue.\<close>

definition processing_context :: "((context_id \<times> refs) list \<Rightarrow> (context_id \<times> refs) list) \<Rightarrow> ('t, untyped_box) event \<Rightarrow>
    't app_fn actor_context" where
  "processing_context iter ev = (app_context iter)\<lparr>ctx_data := broadcast \<lparr>by_context = [(cid 0, [(Offset 16, MetaUnit)])]\<rparr>
     (FRecv (typed_event ev)) (context_data_new (cid 0))\<rparr>"

fun phase_thread :: "((context_id \<times> refs) list \<Rightarrow> (context_id \<times> refs) list) \<Rightarrow> 't phase \<Rightarrow> ('t app_args, 't app_fn) thread" where
  "phase_thread iter Fresh = Waiting (app_args iter)"
| "phase_thread iter Linking = Running PDrain [AccClone producer_acc, DropMakeTx] (app_context iter)"
| "phase_thread iter Unlinking = Running PDrain [DropMakeTx] (app_context iter)"
| "phase_thread iter Drained = Running PDrain [] (app_context iter)"
| "phase_thread iter Releasing = Running PRelease [] (app_context iter)"
| "phase_thread iter Receiving = Running PRecv [] (app_context iter)"
| "phase_thread iter (Processing ev) = Running PHandled [] (processing_context iter ev)"
| "phase_thread iter Handled = Running PHandled [] (app_context iter)"
| "phase_thread iter Counting = Running PCount [] (app_context iter)"
| "phase_thread iter LastDropped = Running PDropped [] (app_context iter)"
| "phase_thread iter Stopping = Running (PStop [] True) [] (app_context iter)"
| "phase_thread iter Exiting = Running PExit [] (app_context iter)"
| "phase_thread iter Ended = Finished"

definition conc :: "((context_id \<times> refs) list \<Rightarrow> (context_id \<times> refs) list) \<Rightarrow> 't app_mem \<Rightarrow> 't app_state \<Rightarrow> 't app_sys" where
  "conc iter mem a = \<lparr>sys_threads = [phase_thread iter (as_phase a)],
     sys_channels = [if as_phase a = Ended then \<lparr>pending = [], senders = 0, receiver_alive = False\<rparr>
       else \<lparr>pending = map call_item (as_pend a), senders = (if linked (as_phase a) then 1 else 0) + length (as_live a),
         receiver_alive = True\<rparr>],
     sys_control = (if as_phase a = Exiting \<or> as_phase a = Ended then Freed cb_layout else Block (of_nat (as_tokens a))),
     sys_live = as_live a, sys_outside = flight_actions (as_flight a),
     sys_make_tx = (if linked (as_phase a) then 1 else 0),
     sys_mem = (if as_phase a = Fresh then mem
       else mem\<lparr>am_consumers := app_consumers iter, am_log := am_log mem @ map typed_event (as_log a)\<rparr>)\<rparr>"

text \<open>The steps of the thread, of a new call, and of the call in flight.\<close>

fun received :: "('t, accessor) call \<Rightarrow> 't phase" where
  "received (SendCreate a) = Handled" | "received (SendProcess a ev) = Processing ev" | "received (DropAcc a) = LastDropped"

definition runtime :: "'t app_state \<Rightarrow> 't app_state option" where
  "runtime a =
     (case as_phase a of
        Fresh \<Rightarrow> Some (a\<lparr>as_phase := Linking\<rparr>)
      | Linking \<Rightarrow> Some (a\<lparr>as_phase := Unlinking\<rparr>)
      | Unlinking \<Rightarrow> Some (a\<lparr>as_phase := Drained\<rparr>)
      | Drained \<Rightarrow> Some (a\<lparr>as_phase := Releasing\<rparr>)
      | Releasing \<Rightarrow> Some (a\<lparr>as_phase := Receiving\<rparr>)
      | Receiving \<Rightarrow> (case as_pend a of [] \<Rightarrow> None
          | c # cs \<Rightarrow> Some (a\<lparr>as_phase := received c, as_seen := as_seen a @ [c], as_pend := cs\<rparr>))
      | Processing ev \<Rightarrow> Some (a\<lparr>as_phase := Handled, as_log := as_log a @ [ev]\<rparr>)
      | Handled \<Rightarrow> Some (a\<lparr>as_phase := Counting\<rparr>)
      | Counting \<Rightarrow> Some (a\<lparr>as_phase := Receiving\<rparr>)
      | LastDropped \<Rightarrow> Some (a\<lparr>as_phase := Stopping\<rparr>)
      | Stopping \<Rightarrow> Some (a\<lparr>as_phase := Exiting\<rparr>)
      | Exiting \<Rightarrow> Some (a\<lparr>as_phase := Ended\<rparr>)
      | Ended \<Rightarrow> None)"

definition issue :: "'t app_state \<Rightarrow> 't app_state option" where
  "issue a = (case as_rest a of [] \<Rightarrow> None
     | c # cs \<Rightarrow> if as_flight a = Quiet \<and> as_live a \<noteq> [] then Some (a\<lparr>as_flight := Started c, as_rest := cs\<rparr>) else None)"

definition progress :: "'t app_state \<Rightarrow> 't app_state option" where
  "progress a = (case as_flight a of
      Quiet \<Rightarrow> None
    | Started (DropAcc x) \<Rightarrow> Some (a\<lparr>as_flight := Quiet, as_pend := as_pend a @ [DropAcc x], as_dropped := True\<rparr>)
    | Started c \<Rightarrow> Some (a\<lparr>as_flight := Counted c\<rparr>)
    | Counted c \<Rightarrow> Some (a\<lparr>as_flight := Quiet, as_pend := as_pend a @ [c]\<rparr>))"

fun abstract_step :: "app_event \<Rightarrow> 't app_state \<Rightarrow> 't app_state option" where
  "abstract_step Advance a = runtime a"
| "abstract_step Issue a = issue a"
| "abstract_step Progress a = progress a"

subsection \<open>The invariant of the abstract states\<close>

definition serving :: "('t, untyped_box) event list \<Rightarrow> ('t, accessor) call list" where
  "serving us = SendCreate producer_acc # map (SendProcess producer_acc) us @ [DropAcc producer_acc]"

definition app_inv :: "('t, untyped_box) event list \<Rightarrow> 't app_state \<Rightarrow> bool" where
  "app_inv us a \<longleftrightarrow>
     as_seen a @ as_pend a @ flight_calls (as_flight a) @ as_rest a = serving us \<and>
     sent_events (as_seen a) = as_log a @ (case as_phase a of Processing ev \<Rightarrow> [ev] | _ \<Rightarrow> []) \<and>
     (as_dropped a \<longleftrightarrow> DropAcc producer_acc \<in> set (as_seen a @ as_pend a)) \<and>
     (booting (as_phase a) \<longrightarrow> as_seen a = []) \<and>
     (early (as_phase a) \<longrightarrow> as_pend a = [] \<and> as_flight a = Quiet \<and> \<not> as_dropped a) \<and>
     (ending (as_phase a) \<longleftrightarrow> DropAcc producer_acc \<in> set (as_seen a)) \<and>
     (\<forall>c. as_flight a = Counted c \<longrightarrow> c \<noteq> DropAcc producer_acc)"

definition app_init :: "('t, untyped_box) event list \<Rightarrow> 't app_state" where
  "app_init us = \<lparr>as_phase = Fresh, as_seen = [], as_pend = [], as_flight = Quiet, as_rest = serving us, as_dropped = False, as_log = []\<rparr>"

lemma app_init_inv: "app_inv us (app_init us)"
  by (simp add: app_inv_def app_init_def phase_defs)

lemma conc_init: "conc iter mem (app_init us) = app_start iter mem"
  by (simp add: conc_def app_init_def app_start_def as_live_def as_tokens_def phase_defs remote_channel_def)

text \<open>The drop is the last call: once it is seen, it is all there is.\<close>

lemma last_is_last: "xs @ ys = zs @ [z] \<Longrightarrow> z \<notin> set zs \<Longrightarrow> z \<in> set xs \<Longrightarrow> ys = []"
  by (cases ys rule: rev_cases) auto

lemma serving_last: "serving us = (SendCreate producer_acc # map (SendProcess producer_acc) us) @ [DropAcc producer_acc]"
  "DropAcc producer_acc \<notin> set (SendCreate producer_acc # map (SendProcess producer_acc) us)"
  by (auto simp: serving_def)

lemma serving_over: "xs @ ys = serving us \<Longrightarrow> DropAcc producer_acc \<in> set xs \<Longrightarrow> ys = []"
  unfolding serving_last(1) using last_is_last serving_last(2) by metis

lemma seen_all:
  assumes "app_inv us a" "ending (as_phase a)"
  shows "as_pend a = []" "as_flight a = Quiet" "as_rest a = []" "as_dropped a" "as_seen a = serving us"
proof -
  have "as_seen a @ (as_pend a @ flight_calls (as_flight a) @ as_rest a) = serving us" "DropAcc producer_acc \<in> set (as_seen a)"
    using assms by (simp_all add: app_inv_def)
  from serving_over [OF this] show "as_pend a = []" "as_flight a = Quiet" "as_rest a = []" by (cases "as_flight a"; simp)+
  then show "as_dropped a" "as_seen a = serving us" using assms by (auto simp: app_inv_def)
qed

lemma pushed_all:
  assumes "app_inv us a" "as_dropped a"
  shows "as_flight a = Quiet" "as_rest a = []"
proof -
  have "(as_seen a @ as_pend a) @ (flight_calls (as_flight a) @ as_rest a) = serving us"
    "DropAcc producer_acc \<in> set (as_seen a @ as_pend a)"
    using assms by (simp_all add: app_inv_def)
  from serving_over [OF this] show "as_flight a = Quiet" "as_rest a = []" by (cases "as_flight a"; simp)+
qed

lemma app_calls:
  assumes "app_inv us a" "c \<in> set (as_seen a @ as_pend a @ flight_calls (as_flight a) @ as_rest a)"
  shows "call_acc c = producer_acc"
  using assms by (auto simp: app_inv_def serving_def)

subsection \<open>Simulation\<close>

lemma u32_counts:
  assumes "n < 2 ^ 32"
  shows "(of_nat n :: u32) \<le> 1 \<longleftrightarrow> n \<le> 1" "1 < (of_nat n :: u32) \<longleftrightarrow> 1 < n"
proof -
  have "unat (of_nat n :: u32) = n" by (rule unat_of_nat_u32 [OF assms])
  then show "(of_nat n :: u32) \<le> 1 \<longleftrightarrow> n \<le> 1" by (simp add: word_le_nat_alt)
  then show "1 < (of_nat n :: u32) \<longleftrightarrow> 1 < n" by (simp add: not_le [symmetric])
qed

lemma as_tokens_bound: "as_tokens a \<le> 4 + length (as_pend a)"
  by (cases "as_flight a"; cases "as_phase a") (simp_all add: as_tokens_def as_live_def)

lemma inv_tokens:
  assumes "app_inv us a" "length us + 6 < 2 ^ 32"
  shows "as_tokens a < 2 ^ 32"
proof -
  have "length (as_pend a) \<le> length (serving us)" using assms(1) by (metis app_inv_def length_append le_add1 le_add2 le_trans)
  then show ?thesis using as_tokens_bound [of a] assms(2) by (simp add: serving_def)
qed

text \<open>While the thread has not seen the drop, somebody keeps the runtime alive.\<close>

lemma kept_alive:
  assumes "app_inv us a" "\<not> ending (as_phase a)" "\<not> early (as_phase a)"
  shows "as_live a \<noteq> [] \<or> as_pend a \<noteq> []"
  using assms by (auto simp: app_inv_def as_live_def)

lemma one_group:
  assumes "\<And>m. mset (iter m) = mset m"
  shows "app_consumers iter = \<lparr>by_context = [(cid 0, [(Offset 16, MetaUnit)])]\<rparr>"
proof -
  have "mset (iter [(cid 0, [(Offset 16, MetaUnit)])]) = {#(cid 0, [(Offset 16, MetaUnit)])#}" using assms by simp
  then show ?thesis by (simp add: app_consumers_def)
qed

lemma conc_boot:
  assumes "app_inv us a" "linked (as_phase a) \<or> as_phase a = Drained"
  shows "thread_step (app_build iter) app_user 0 (conc iter mem a) = map_option (\<lambda>a'. Ok (conc iter mem a')) (runtime a)"
proof (cases "as_phase a")
  case Fresh
  then have "as_log a = []" using assms(1) by (auto simp: app_inv_def phase_defs)
  then show ?thesis using Fresh assms(1)
    by (simp add: runtime_def thread_step_def conc_def after_run_def app_build_def app_create set_thread_def app_inv_def
        as_tokens_def as_live_def phase_defs)
next
  case Linking
  then show ?thesis using assms(1)
    by (simp add: runtime_def run_simps conc_def app_inv_def as_tokens_def as_live_def phase_defs producer_acc_def)
next
  case Unlinking
  then show ?thesis by (simp add: runtime_def run_simps conc_def as_tokens_def as_live_def phase_defs)
next
  case Drained
  then show ?thesis by (simp add: runtime_def run_simps conc_def as_tokens_def as_live_def phase_defs local_recv_def
      context_data_new_def local_unbounded_def local_default_def)
qed (use assms(2) in \<open>simp_all add: phase_defs\<close>)

lemma conc_release:
  assumes "app_inv us a" "length us + 6 < 2 ^ 32" "as_phase a = Releasing"
  shows "thread_step (app_build iter) app_user 0 (conc iter mem a) = map_option (\<lambda>a'. Ok (conc iter mem a')) (runtime a)"
proof -
  have "1 < as_tokens a" using kept_alive [OF assms(1)] assms(3) by (auto simp: as_tokens_def phase_defs Suc_le_eq)
  then have "1 < (of_nat (as_tokens a) :: u32)" using u32_counts(2) [OF inv_tokens [OF assms(1,2)]] by simp
  moreover have "as_tokens a = Suc (as_tokens (a\<lparr>as_phase := Receiving\<rparr>))"
    using assms(3) by (simp add: as_tokens_def as_live_def phase_defs)
  ultimately show ?thesis using assms(3)
    by (simp add: runtime_def run_simps conc_def as_live_def phase_defs)
qed

lemma conc_receive:
  assumes "app_inv us a" "as_phase a = Receiving" "\<And>m. mset (iter m) = mset m"
  shows "thread_step (app_build iter) app_user 0 (conc iter mem a) = map_option (\<lambda>a'. Ok (conc iter mem a')) (runtime a)"
proof (cases "as_pend a")
  case Nil
  then have "as_live a \<noteq> []" using kept_alive [OF assms(1)] assms(2) by (simp add: phase_defs)
  then show ?thesis using Nil assms(2)
    by (simp add: runtime_def run_simps conc_def phase_defs)
next
  case (Cons c cs)
  show ?thesis
  proof (cases c)
    case (SendCreate x)
    then show ?thesis using Cons assms(2)
      by (simp add: runtime_def run_simps conc_def phase_defs as_tokens_def as_live_def call_msg_def)
  next
    case (SendProcess x ev)
    then show ?thesis using Cons assms(2)
      by (simp add: runtime_def run_simps conc_def phase_defs as_tokens_def as_live_def call_msg_def process_event_def
          box_from_raw_def interval_process_event_def one_group [OF assms(3)] processing_context_def typed_event_def)
  next
    case (DropAcc x)
    then show ?thesis using Cons assms(2)
      by (simp add: runtime_def run_simps conc_def phase_defs as_tokens_def as_live_def)
  qed
qed

lemma conc_process:
  assumes "(\<exists>ev. as_phase a = Processing ev) \<or> as_phase a = Handled"
  shows "thread_step (app_build iter) app_user 0 (conc iter mem a) = map_option (\<lambda>a'. Ok (conc iter mem a')) (runtime a)"
  using assms
proof
  assume "\<exists>ev. as_phase a = Processing ev"
  then show ?thesis
    by (auto simp: runtime_def run_simps conc_def phase_defs as_tokens_def as_live_def processing_context_def broadcast_def)
next
  assume "as_phase a = Handled"
  then show ?thesis by (simp add: runtime_def run_simps conc_def phase_defs as_tokens_def as_live_def local_recv_def
      context_data_new_def local_unbounded_def local_default_def)
qed

lemma conc_count:
  assumes "app_inv us a" "length us + 6 < 2 ^ 32" "as_phase a = Counting \<or> as_phase a = LastDropped"
  shows "thread_step (app_build iter) app_user 0 (conc iter mem a) = map_option (\<lambda>a'. Ok (conc iter mem a')) (runtime a)"
  using assms(3)
proof
  assume c: "as_phase a = Counting"
  then have "1 < as_tokens a" using kept_alive [OF assms(1)] by (auto simp: as_tokens_def phase_defs Suc_le_eq)
  then have "\<not> (of_nat (as_tokens a) :: u32) \<le> 1" using u32_counts(1) [OF inv_tokens [OF assms(1,2)]] by simp
  moreover have "as_tokens a = Suc (as_tokens (a\<lparr>as_phase := Receiving\<rparr>))"
    using c by (simp add: as_tokens_def as_live_def phase_defs)
  ultimately show ?thesis using c
    by (simp add: runtime_def run_simps conc_def as_live_def phase_defs context_data_new_def)
next
  assume d: "as_phase a = LastDropped"
  have "as_tokens a = 1" using seen_all [OF assms(1)] d by (simp add: as_tokens_def as_live_def phase_defs)
  moreover have "as_tokens (a\<lparr>as_phase := Stopping\<rparr>) = 0"
    using seen_all [OF assms(1)] d by (simp add: as_tokens_def as_live_def phase_defs)
  ultimately show ?thesis using d
    by (simp add: runtime_def run_simps conc_def as_live_def phase_defs)
qed

lemma conc_end:
  assumes "app_inv us a" "as_phase a = Stopping \<or> as_phase a = Exiting \<or> as_phase a = Ended"
  shows "thread_step (app_build iter) app_user 0 (conc iter mem a) = map_option (\<lambda>a'. Ok (conc iter mem a')) (runtime a)"
  using assms(2) seen_all [OF assms(1)]
  by (auto simp: runtime_def run_simps conc_def as_live_def phase_defs)

lemma conc_runtime:
  assumes "app_inv us a" "length us + 6 < 2 ^ 32" "\<And>m. mset (iter m) = mset m"
  shows "thread_step (app_build iter) app_user 0 (conc iter mem a) = map_option (\<lambda>a'. Ok (conc iter mem a')) (runtime a)"
  by (cases "as_phase a")
    (simp_all add: conc_boot [OF assms(1)] conc_release [OF assms(1,2)] conc_receive [OF assms(1) _ assms(3)] conc_process
      conc_count [OF assms(1,2)] conc_end [OF assms(1)] phase_defs)

lemma conc_issue:
  assumes "app_inv us a"
  shows "app_step iter Issue (as_rest a, conc iter mem a) = map_option (\<lambda>a'. Ok (as_rest a', conc iter mem a')) (issue a)"
proof (cases "as_rest a")
  case (Cons c cs)
  show ?thesis
  proof (cases "as_flight a = Quiet")
    case True
    have "call_acc c = producer_acc" using app_calls [OF assms, of c] Cons by simp
    then show ?thesis using Cons True
      by (cases c) (auto simp: with_calls_def conc_def issue_def as_live_def as_tokens_def phase_defs accessor_send_def accessor_drop_def
          call_msg_def producer_acc_def)
  next
    case False
    then have "sys_outside (conc iter mem a) \<noteq> []" by (cases "as_flight a") (auto simp: conc_def split: call.splits)
    then show ?thesis using Cons False by (simp add: issue_def)
  qed
qed (simp add: issue_def)

lemma producer_queue: "acc_queue producer_acc = 0"
  by (simp add: producer_acc_def)

lemma conc_progress:
  assumes "app_inv us a"
  shows "app_step iter Progress (as_rest a, conc iter mem a) = map_option (\<lambda>a'. Ok (as_rest a', conc iter mem a')) (progress a)"
proof (cases "as_flight a = Quiet")
  case False
  have alive: "\<not> ending (as_phase a)" using seen_all [OF assms] False by blast
  have live: "as_live a = [producer_acc]" "\<not> as_dropped a" "\<not> early (as_phase a)"
    using pushed_all [OF assms] assms False by (auto simp: as_live_def app_inv_def)
  note simps = with_calls_def conc_def progress_def as_tokens_def live alive run_simps push_of_def producer_queue
  show ?thesis
  proof (cases "as_flight a")
    case (Started c)
    then show ?thesis using live alive
      by (cases c) (auto simp: simps as_live_def phase_defs)
  next
    case (Counted c)
    have "c \<noteq> DropAcc producer_acc" using assms Counted by (simp add: app_inv_def)
    moreover have "call_acc c = producer_acc" using app_calls [OF assms, of c] Counted by simp
    ultimately show ?thesis using live alive Counted
      by (cases c) (auto simp: simps as_live_def phase_defs)
  qed (use False in simp)
qed (simp add: progress_def with_calls_def conc_def)

lemma conc_step:
  assumes "app_inv us a" "length us + 6 < 2 ^ 32" "\<And>m. mset (iter m) = mset m"
  shows "app_step iter e (as_rest a, conc iter mem a) = map_option (\<lambda>a'. Ok (as_rest a', conc iter mem a')) (abstract_step e a)"
proof (cases e)
  case Advance
  have "as_rest a' = as_rest a" if "runtime a = Some a'" for a'
    using that by (auto simp: runtime_def split: phase.splits list.splits)
  then show ?thesis using Advance conc_runtime [OF assms]
    by (cases "runtime a") (simp_all add: with_calls_def)
qed (use conc_issue [OF assms(1)] conc_progress [OF assms(1)] in simp_all)

subsection \<open>The invariant holds, and the runs end\<close>

lemma runtime_inv: "app_inv us a \<Longrightarrow> runtime a = Some a' \<Longrightarrow> app_inv us a'"
proof (cases "as_phase a")
  case Receiving
  assume a: "app_inv us a" "runtime a = Some a'"
  then obtain c cs where c: "as_pend a = c # cs" "a' = a\<lparr>as_phase := received c, as_seen := as_seen a @ [c], as_pend := cs\<rparr>"
    using Receiving by (auto simp: runtime_def split: list.splits)
  have "call_acc c = producer_acc" using app_calls [OF a(1), of c] c(1) by simp
  then show ?thesis using a(1) c Receiving by (cases c) (auto simp: app_inv_def phase_defs)
qed (auto simp: runtime_def app_inv_def phase_defs)

lemma issue_inv:
  assumes "app_inv us a" "issue a = Some a'"
  shows "app_inv us a'"
proof -
  obtain c cs where c: "as_rest a = c # cs" "as_flight a = Quiet" "as_live a \<noteq> []" "a' = a\<lparr>as_flight := Started c, as_rest := cs\<rparr>"
    using assms(2) by (auto simp: issue_def split: list.splits if_splits)
  then show ?thesis using assms(1) by (auto simp: app_inv_def as_live_def split: if_splits)
qed

lemma progress_inv:
  assumes "app_inv us a" "progress a = Some a'"
  shows "app_inv us a'"
proof (cases "as_flight a")
  case (Started c)
  then have "call_acc c = producer_acc" using app_calls [OF assms(1), of c] by simp
  moreover have "\<not> early (as_phase a)" using assms(1) Started by (auto simp: app_inv_def)
  ultimately show ?thesis using assms Started seen_all [OF assms(1)] by (cases c) (auto simp: app_inv_def progress_def)
next
  case (Counted c)
  moreover have "\<not> early (as_phase a)" using assms(1) Counted by (auto simp: app_inv_def)
  ultimately show ?thesis using assms by (auto simp: app_inv_def progress_def)
qed (use assms(2) in \<open>simp add: progress_def\<close>)

lemma abstract_step_inv: "app_inv us a \<Longrightarrow> abstract_step e a = Some a' \<Longrightarrow> app_inv us a'"
  by (cases e) (auto intro: runtime_inv issue_inv progress_inv)

fun phase_work :: "'t phase \<Rightarrow> nat" where
  "phase_work Fresh = 5" | "phase_work Linking = 4" | "phase_work Unlinking = 3" | "phase_work Drained = 2"
| "phase_work Releasing = 1" | "phase_work (Processing ev) = 3" | "phase_work Handled = 2" | "phase_work Counting = 1"
| "phase_work LastDropped = 3" | "phase_work Stopping = 2" | "phase_work Exiting = 1" | "phase_work _ = 0"

fun flight_work :: "'t flight \<Rightarrow> nat" where
  "flight_work Quiet = 0" | "flight_work (Started c) = 6" | "flight_work (Counted c) = 5"

definition app_work :: "'t app_state \<Rightarrow> nat" where
  "app_work a = phase_work (as_phase a) + 4 * length (as_pend a) + flight_work (as_flight a) + 7 * length (as_rest a)"

lemma received_work: "phase_work (received c) < 4"
  by (cases c) simp_all

lemma abstract_step_work: "abstract_step e a = Some a' \<Longrightarrow> app_work a' < app_work a"
proof (cases e)
  case Advance
  assume "abstract_step e a = Some a'"
  then show ?thesis using Advance
    by (auto simp: runtime_def app_work_def received_work split: phase.splits list.splits)
qed (auto simp: issue_def progress_def app_work_def split: list.splits if_splits flight.splits call.splits)

lemma abstract_progress:
  assumes "app_inv us a" "as_phase a \<noteq> Ended"
  shows "\<exists>e a'. abstract_step e a = Some a'"
proof (cases "as_phase a = Receiving \<and> as_pend a = []")
  case False
  then have "\<exists>a'. runtime a = Some a'" using assms(2) by (auto simp: runtime_def split: phase.splits list.splits)
  then show ?thesis by (intro exI [of _ Advance]) simp
next
  case True
  then have live: "as_live a \<noteq> []" using kept_alive [OF assms(1)] by (simp add: phase_defs)
  show ?thesis
  proof (cases "as_flight a")
    case Quiet
    have "DropAcc producer_acc \<notin> set (as_seen a)" using assms(1) True by (simp add: app_inv_def phase_defs)
    then have "as_rest a \<noteq> []" using assms(1) True Quiet by (auto simp: app_inv_def serving_def)
    then obtain a' where "issue a = Some a'" using Quiet live by (cases "as_rest a") (auto simp: issue_def)
    then show ?thesis by (intro exI [of _ Issue]) simp
  next
    case (Started c)
    then have "\<exists>a'. progress a = Some a'" by (cases c) (simp_all add: progress_def)
    then show ?thesis by (intro exI [of _ Progress]) simp
  next
    case (Counted c)
    then have "\<exists>a'. progress a = Some a'" by (simp add: progress_def)
    then show ?thesis by (intro exI [of _ Progress]) simp
  qed
qed

lemma app_steps_conc:
  assumes "length us + 6 < 2 ^ 32" "\<And>m. mset (iter m) = mset m"
  shows "app_inv us a \<Longrightarrow> app_steps iter es (as_rest a, conc iter mem a) = Some (cs, s) \<Longrightarrow>
    \<exists>a'. app_inv us a' \<and> cs = as_rest a' \<and> s = conc iter mem a' \<and> length es + app_work a' \<le> app_work a"
proof (induction es arbitrary: a)
  case (Cons e es)
  obtain b where b: "abstract_step e a = Some b" "app_steps iter es (as_rest b, conc iter mem b) = Some (cs, s)"
    using Cons.prems conc_step [OF Cons.prems(1) assms, of e mem] by (cases "abstract_step e a") auto
  from Cons.IH [OF abstract_step_inv [OF Cons.prems(1) b(1)] b(2)] abstract_step_work [OF b(1)]
  show ?case by fastforce
qed auto

text \<open>What holds after any run of the application.\<close>

lemma app_every_run:
  assumes "\<And>m. mset (iter m) = mset m" "length us + 6 < 2 ^ 32"
    and "app_steps iter es (serving us, app_start iter mem) = Some (cs, s)"
  shows "length es \<le> 7 * length us + 19"
    and "\<exists>k. am_log (sys_mem s) = am_log mem @ map typed_event (take k us)"
    and "app_step iter e (cs, s) \<noteq> Some (Fault f)"
    and "sys_threads s = [Finished] \<or> (\<exists>e r. app_step iter e (cs, s) = Some (Ok r))"
    and "sys_threads s = [Finished] \<Longrightarrow> cs = [] \<and> am_log (sys_mem s) = am_log mem @ map typed_event us \<and> sys_control s = Freed cb_layout"
proof -
  have "app_steps iter es (as_rest (app_init us), conc iter mem (app_init us)) = Some (cs, s)"
    using assms(3) by (simp add: conc_init) (simp add: app_init_def)
  from app_steps_conc [OF assms(2,1) app_init_inv this] obtain a
    where a: "app_inv us a" "cs = as_rest a" "s = conc iter mem a" "length es + app_work a \<le> app_work (app_init us)" by blast
  show "length es \<le> 7 * length us + 19" using a(4) by (simp add: app_work_def app_init_def serving_def)
  have events: "sent_events (serving us) = us"
    unfolding serving_last(1) by simp
  have log: "\<exists>k. as_log a = take k us"
  proof -
    have "us = sent_events (as_seen a) @ sent_events (as_pend a @ flight_calls (as_flight a) @ as_rest a)"
      using a(1) events by (metis app_inv_def sent_events_append)
    then have "prefix (as_log a) us" using a(1) by (auto simp: app_inv_def prefix_def)
    then show ?thesis by (metis prefix_def append_eq_conv_conj)
  qed
  then show "\<exists>k. am_log (sys_mem s) = am_log mem @ map typed_event (take k us)"
    using a(3) by (auto simp: conc_def intro: exI [of _ 0])
  show "app_step iter e (cs, s) \<noteq> Some (Fault f)"
    unfolding a(2,3) conc_step [OF a(1) assms(2,1)] by (cases "abstract_step e a") simp_all
  have over: "sys_threads s = [Finished] \<longleftrightarrow> as_phase a = Ended" by (cases "as_phase a") (simp_all add: a(3) conc_def)
  show "sys_threads s = [Finished] \<or> (\<exists>e r. app_step iter e (cs, s) = Some (Ok r))"
  proof (cases "as_phase a = Ended")
    case False
    then obtain e b where "abstract_step e a = Some b" using abstract_progress [OF a(1)] by blast
    then have "app_step iter e (cs, s) = Some (Ok (as_rest b, conc iter mem b))"
      unfolding a(2,3) conc_step [OF a(1) assms(2,1)] by simp
    then show ?thesis by blast
  qed (simp add: over)
  assume "sys_threads s = [Finished]"
  then have e: "as_phase a = Ended" using over by simp
  then have "as_seen a = serving us" "as_rest a = []" using seen_all [OF a(1)] by (simp_all add: phase_defs)
  moreover have "as_log a = us" using a(1) e calculation(1) events by (simp add: app_inv_def)
  ultimately show "cs = [] \<and> am_log (sys_mem s) = am_log mem @ map typed_event us \<and> sys_control s = Freed cb_layout"
    using e a(2,3) by (simp add: conc_def)
qed

lemma app_one_thread:
  assumes "\<And>m. mset (iter m) = mset m" "length us + 6 < 2 ^ 32"
    and "app_steps iter es (serving us, app_start iter mem) = Some (cs, s)"
  shows "length (sys_threads s) = 1"
proof -
  have "app_steps iter es (as_rest (app_init us), conc iter mem (app_init us)) = Some (cs, s)"
    using assms(3) by (simp add: conc_init) (simp add: app_init_def)
  from app_steps_conc [OF assms(2,1) app_init_inv this] show ?thesis by (auto simp: conc_def)
qed

lemma app_steps_append: "app_steps iter (es @ fs) x = Option.bind (app_steps iter es x) (app_steps iter fs)"
  by (induction es arbitrary: x) (auto split: option.splits sum.splits)

end
