(* ===== verification/AppMain.thy ===== *)
theory AppMain
  imports AppRuns
begin

text \<open>
  \<open>main\<close> of \<open>app/src/main.rs\<close>: it loads the shared libraries, the constructors of which register the
  actors, runs the runtime, and closes the libraries. The dynamic linker is a parameter, on an
  abstract state \<open>'p\<close> of the process: \<open>dlopen\<close> returns a handle, or null, and \<open>nodes\<close> are the nodes
  that are registered in a state.
\<close>

subsection \<open>\<open>main\<close>\<close>

record file_config =
  fc_dytor :: "unit config"
  fc_shared_lib_paths :: "string list"

definition cstring_new :: "string \<Rightarrow> string option" where
  "cstring_new s = (if CHR 0x00 \<in> set s then None else Some s)"

definition lib_path :: string where
  "lib_path = ''target/x86_64-unknown-linux-gnu/debug/libreplay_mock.so''"

definition main_config :: "file_config res" where
  "main_config = rbind (unwrap (cstring_new lib_path)) (\<lambda>path.
     Ok \<lparr>fc_dytor = app_config, fc_shared_lib_paths = [path]\<rparr>)"

fun load_libs :: "(string \<Rightarrow> 'p \<Rightarrow> usize \<times> 'p) \<Rightarrow> string list \<Rightarrow> 'p \<Rightarrow> usize list \<times> 'p" where
  "load_libs dlopen [] p = ([], p)"
| "load_libs dlopen (path # paths) p =
     (let (lib, p) = dlopen path p; (libs, p) = load_libs dlopen paths p in (lib # libs, p))"

fun close_libs :: "(usize \<Rightarrow> 'p \<Rightarrow> 'p) \<Rightarrow> usize list \<Rightarrow> 'p \<Rightarrow> 'p" where
  "close_libs dlclose [] p = p"
| "close_libs dlclose (lib # libs) p = close_libs dlclose libs (dlclose lib p)"

text \<open>\<open>main\<close> up to the start of the threads, and after them.\<close>

definition main_start :: "(string \<Rightarrow> 'p \<Rightarrow> usize \<times> 'p) \<Rightarrow> ('p \<Rightarrow> 't app_nodes) \<Rightarrow> (nat \<Rightarrow> layout \<Rightarrow> usize) \<Rightarrow>
    (layout \<Rightarrow> usize) \<Rightarrow> 'p \<Rightarrow> 't app_mem \<Rightarrow>
    (usize list \<times> 'p \<times> (unit, unit, unit, 't app_fn, 't app_mem) object_registry \<times> ('t app_args, 't app_fn, 't app_mem) sys) res" where
  "main_start dlopen nodes alloc cb_alloc p mem =
     rbind main_config (\<lambda>config.
     let (libs, p) = load_libs dlopen (fc_shared_lib_paths config) p in
     rbind (run_nodes (nodes p) builder_default) (\<lambda>registry.
     rbind (run registry alloc cb_alloc (fc_dytor config) mem) (\<lambda>s.
     Ok (libs, p, registry, s))))"

definition main_end :: "(usize \<Rightarrow> 'p \<Rightarrow> 'p) \<Rightarrow> usize list \<Rightarrow> 'p \<Rightarrow> ('i, 'f, 'm) sys \<Rightarrow> 'p option" where
  "main_end dlclose libs p s = (if list_all (\<lambda>t. t = Finished) (sys_threads s) then Some (close_libs dlclose libs p) else None)"

subsection \<open>What the library registers\<close>

lemma main_config_Ok: "main_config = Ok \<lparr>fc_dytor = app_config, fc_shared_lib_paths = [lib_path]\<rparr>"
  by (simp add: main_config_def cstring_new_def lib_path_def)

lemma app_nodes_order:
  assumes "mset ns = mset (app_nodes iter :: 't app_nodes)"
  shows "run_nodes ns builder_default = Ok (app_registry iter)"
  using app_nodes_run assms by (rule run_nodes_order) (simp add: app_nodes_def)

lemma unknown_type_panics:
  assumes "\<exists>c \<in> set cs. by_name registry (cfg_typename (snd c)) = None"
  shows "rmap (constructor_info registry) cs = Fault UnwrapFailed"
  using assms
proof (induction cs)
  case (Cons c cs)
  then show ?case by (cases "by_name registry (cfg_typename (snd c))") (auto simp: constructor_info_def split: prod.splits)
qed simp

definition app_names :: "string list" where
  "app_names = [''Synchronizer'', ''IntervalUnitProducer'', ''IntervalUnitConsumer'']"

lemma app_unknown_type:
  assumes "\<exists>name \<in> set app_names. by_name registry name = None"
  shows "run registry alloc cb_alloc app_config mem = Fault UnwrapFailed"
proof -
  have "rmap (constructor_info registry) [(aid 0, app_actor ''Synchronizer''),
      (aid (Suc 0), app_actor ''IntervalUnitProducer''), (aid (Suc (Suc 0)), app_actor ''IntervalUnitConsumer'')] = Fault UnwrapFailed"
    using assms by (intro unknown_type_panics) (auto simp: app_names_def app_actor_def)
  then show ?thesis
    by (simp add: run_def create_context_args_def app_config_def app_actor_def demo_ids cb_new_def alloc_call_def
        cb_layout_def nonnull_new_def allocate_actors_def unwrap_def)
qed

subsection \<open>Properties\<close>


text \<open>A dynamic linker that knows one library, on the registered nodes.\<close>

definition link_one :: "string \<Rightarrow> 't app_nodes \<Rightarrow> usize \<times> 't app_nodes" where
  "link_one path ns = (if path = lib_path then (1, rev (app_nodes (\<lambda>m. m)) @ ns) else (0, ns))"

definition empty_mem :: "int app_mem" where
  "empty_mem = \<lparr>am_consumers = \<lparr>by_context = []\<rparr>, am_boxes = [], am_log = []\<rparr>"


text \<open>
  The handle that \<open>dlopen\<close> returns is not tested. If the library cannot be loaded, or lacks one of
  the three actors of the configuration, \<open>main\<close> panics on an \<open>unwrap\<close> while it sets the runtime up.
\<close>

theorem main_without_library:
  assumes "run_nodes (nodes (snd (dlopen lib_path p0))) builder_default = Ok registry"
    and "\<exists>name \<in> set app_names. by_name registry name = None"
  shows "main_start dlopen nodes alloc cb_alloc p0 mem = Fault UnwrapFailed"
  using assms(1) app_unknown_type [OF assms(2)]
  by (cases "dlopen lib_path p0") (simp add: main_start_def main_config_Ok)

theorem main_without_library_witness:
  "main_start (\<lambda>_ ns. (0, ns)) id (\<lambda>_ _. 4096) (\<lambda>_. 64) ([] :: int app_nodes)
    \<lparr>am_consumers = \<lparr>by_context = []\<rparr>, am_boxes = [], am_log = []\<rparr> = Fault UnwrapFailed"
  by (rule main_without_library [where registry = builder_default]) (simp, auto simp: app_names_def by_name_def builder_default_def)

end
