(* ===== verification/Startup.thy ===== *)
theory Startup
  imports Shutdown
begin

text \<open>
  Which configurations the program starts with: \<open>run\<close> gets as far as spawning its threads exactly
  if the configuration is \<open>startable\<close>. Everything else is a panic, or undefined behaviour.
\<close>

subsection \<open>When the steps of the startup succeed\<close>

lemma assign_actors_ok:
  "is_ok (assign_actors i cs ctxs) \<longleftrightarrow>
    i + length cs < 2 ^ 32 \<and> (\<forall>c \<in> set cs. context_as_index (cfg_context c) < length ctxs)"
  if "i < 2 ^ 32"
  using that
proof (induction cs arbitrary: i ctxs)
  case (Cons c cs)
  let ?j = "context_as_index (cfg_context c)"
  show ?case
  proof (cases "i = 2 ^ 32 - 1 \<or> \<not> ?j < length ctxs")
    case True
    then show ?thesis
    proof
      assume "i = 2 ^ 32 - 1"
      then show ?thesis using act.id_for_index_last by simp
    next
      assume "\<not> ?j < length ctxs"
      then show ?thesis by (auto simp: vec_get_def rbind_def split: sum.splits)
    qed
  next
    case False
    then have i: "i < 2 ^ 32 - 1" and j: "?j < length ctxs" using Cons.prems by auto
    then obtain a where "id_for_index actor_new i = Ok a" using act.id_for_index_total by blast
    then show ?thesis using Cons.IH [of "Suc i"] i j by (simp add: vec_get_def)
  qed
qed simp

lemma build_contexts_ok:
  assumes "i + length ctxs < 2 ^ 32" "su_control su = Block c"
  shows "is_ok (build_contexts r alloc n i ctxs su) \<longleftrightarrow>
    (\<forall>k<length ctxs. is_ok (allocate_actors r (alloc (i + k)) (ctxs ! k)))"
  using assms
proof (induction ctxs arbitrary: i su c)
  case (Cons cs ctxs)
  obtain a where a: "id_for_index context_new i = Ok a" using Cons.prems(1) ctx.id_for_index_total [of i] by auto
  have all: "(\<forall>k<length (cs # ctxs). is_ok (allocate_actors r (alloc (i + k)) ((cs # ctxs) ! k))) \<longleftrightarrow>
      is_ok (allocate_actors r (alloc i) cs) \<and> (\<forall>k<length ctxs. is_ok (allocate_actors r (alloc (Suc i + k)) (ctxs ! k)))"
    by (simp add: All_less_Suc2)
  show ?case
  proof (cases "allocate_actors r (alloc i) cs")
    case (Inl e)
    then show ?thesis unfolding all using a by simp
  next
    case (Inr x)
    then obtain arena actors where x: "allocate_actors r (alloc i) cs = Ok (arena, actors)" by (cases x) simp
    then show ?thesis unfolding all using a Cons.prems(1)
      by (simp add: Cons.prems(2) cb_clone_def fetch_add_def Cons.IH [where c = "c + 1"])
  qed
qed simp

lemma release_Block_ok: "is_ok (release (Block c))"
  by (simp add: release_def fetch_sub_def cb_dealloc_def)

text \<open>\<open>create_context_args\<close>, down to the allocation of the actors of each context.\<close>

lemma create_context_args_ok:
  fixes registry :: "('v, 'c, 's, 'f, 'm) object_registry"
  defines "n \<equiv> \<lambda>config :: 'v config. length (config_contexts config)"
  shows "is_ok (create_context_args registry alloc cb_alloc config) \<longleftrightarrow>
    scope_children (config_root config) = [] \<and> imported_scopes (config_root config) = [] \<and>
    n config < 2 ^ 32 \<and> map cc_id (config_contexts config) = map cid [0..<n config] \<and>
    length (scope_actors (config_root config)) < 2 ^ 32 \<and>
    (\<forall>c \<in> set (scope_actors (config_root config)). context_as_index (cfg_context c) < n config) \<and>
    cb_alloc cb_layout \<noteq> 0 \<and>
    (\<forall>k < n config. is_ok (allocate_actors registry (alloc k) (lives_in k (numbered 0 (scope_actors (config_root config))))))"
proof -
  let ?root = "config_root config" and ?bs = "config_contexts config"
  let ?cs = "scope_actors ?root" and ?n = "n config"
  have ids: "list_all (\<lambda>(i, b). i = context_as_index (cc_id b)) (enumerate 0 ?bs) \<longleftrightarrow> map cc_id ?bs = map cid [0..<?n] \<and> ?n < 2 ^ 32"
    by (simp add: enumerated_ids n_def)
  have assign: "is_ok (assign_actors 0 ?cs (map (\<lambda>_. []) ?bs)) \<longleftrightarrow>
      length ?cs < 2 ^ 32 \<and> (\<forall>c \<in> set ?cs. context_as_index (cfg_context c) < ?n)"
    by (simp add: assign_actors_ok n_def)
  show ?thesis
  proof (cases "scope_children ?root = [] \<and> imported_scopes ?root = [] \<and> map cc_id ?bs = map cid [0..<?n] \<and> ?n < 2 ^ 32 \<and>
      is_ok (assign_actors 0 ?cs (map (\<lambda>_. []) ?bs)) \<and> cb_alloc cb_layout \<noteq> 0")
    case False
    then have "\<not> is_ok (create_context_args registry alloc cb_alloc config)"
      by (auto simp: create_context_args_def Let_def ids [unfolded n_def] is_ok_iff cb_new_def alloc_call_def nonnull_new_def n_def)
    then show ?thesis using False assign by blast
  next
    case True
    then obtain ctxs where ctxs: "assign_actors 0 ?cs (map (\<lambda>_. []) ?bs) = Ok ctxs" by (auto simp: is_ok_iff)
    have c: "length ctxs = ?n" "\<And>k. k < ?n \<Longrightarrow> ctxs ! k = lives_in k (numbered 0 ?cs)"
      using assign_actors_Ok [OF ctxs] by (auto simp: n_def)
    let ?su = "\<lparr>su_args = [], su_tree = [], su_channels = replicate ?n (tx_clone remote_channel), su_control = Block 1\<rparr>
      :: ('v, 'c, 's, 'f, 'm) startup"
    have build: "is_ok (build_contexts registry alloc ?n 0 ctxs ?su) \<longleftrightarrow>
        (\<forall>k<?n. is_ok (allocate_actors registry (alloc k) (lives_in k (numbered 0 ?cs))))"
      using build_contexts_ok [of 0 ctxs ?su 1 registry alloc ?n] c True by simp
    have "is_ok (create_context_args registry alloc cb_alloc config) \<longleftrightarrow> is_ok (build_contexts registry alloc ?n 0 ctxs ?su)"
    proof (cases "build_contexts registry alloc ?n 0 ctxs ?su")
      case (Inl e)
      then show ?thesis using True ctxs
        by (simp add: create_context_args_def Let_def ids [unfolded n_def] cb_new_def alloc_call_def cb_layout_def nonnull_new_def n_def)
    next
      case (Inr su)
      then have "\<exists>b. su_control su = Block b" using build_contexts_Ok [OF Inr] by auto
      then obtain b where b: "su_control su = Block b" by blast
      moreover obtain x where "release (Block b) = Ok x" using release_Block_ok [of b] by (cases "release (Block b)") simp_all
      ultimately show ?thesis using True ctxs Inr
        by (cases x) (simp add: create_context_args_def Let_def ids [unfolded n_def] cb_new_def alloc_call_def cb_layout_def nonnull_new_def n_def)
    qed
    then show ?thesis using build True assign by simp
  qed
qed

subsection \<open>When the actors of a context can be allocated\<close>

text \<open>The layouts of the actors of a context, of types that are registered.\<close>

definition known :: "('v, 'c, 's, 'f, 'm) object_registry \<Rightarrow> 'v actor_config \<Rightarrow> bool" where
  "known registry c \<longleftrightarrow> by_name registry (cfg_typename c) \<noteq> None"

definition layout_of :: "('v, 'c, 's, 'f, 'm) object_registry \<Rightarrow> 'v actor_config \<Rightarrow> layout" where
  "layout_of registry c = (case by_name registry (cfg_typename c) of
     Some (_, v) \<Rightarrow> \<lparr>lay_size = vt_size v, lay_align = vt_align v\<rparr> | None \<Rightarrow> \<lparr>lay_size = 0, lay_align = 1\<rparr>)"

text \<open>What \<open>std::alloc::alloc\<close> promises: null, or the address of a block that fits.\<close>

definition allocates :: "(layout \<Rightarrow> usize) \<Rightarrow> bool" where
  "allocates alloc \<longleftrightarrow> (\<forall>l. alloc l = 0 \<or> alloc_ok alloc l)"

lemma by_name_layout:
  assumes "run_nodes ns builder_default = Ok registry" "\<forall>t \<in> set (actors_of ns). wf_actor_type t"
    and "by_name registry name = Some (ty, v)"
  shows "vtable_layout v = Ok \<lparr>lay_size = vt_size v, lay_align = vt_align v\<rparr> \<and> wf_layout \<lparr>lay_size = vt_size v, lay_align = vt_align v\<rparr>"
proof -
  obtain t where t: "t \<in> set (actors_of ns)" "v = create_vtable t"
    using assms(3) by_name_registered [OF assms(1), of name] by (auto simp: find_Some_iff intro: nth_mem)
  then have "wf_actor_type t" using assms(2) by blast
  then show ?thesis using t(2) create_vtable_layout [of t] by (simp add: create_vtable_def wf_actor_type_def)
qed

lemma constructor_infos_ok:
  "\<forall>x \<in> set xs. known registry (snd x) \<Longrightarrow> \<exists>infos. rmap (constructor_info registry) xs = Ok infos \<and>
    list_all2 (\<lambda>x info. \<exists>ty. by_name registry (cfg_typename (snd x)) = Some (ty, aci_vtable info)) xs infos"
  by (induction xs) (auto simp: known_def constructor_info_def unwrap_def split: prod.splits)

lemma constructor_infos_known: "is_ok (rmap (constructor_info registry) xs) \<Longrightarrow> \<forall>x \<in> set xs. known registry (snd x)"
  by (induction xs) (auto simp: known_def constructor_info_def is_ok_iff unwrap_def split: prod.splits option.splits)

lemma allocate_actors_ok:
  assumes reg: "run_nodes ns builder_default = Ok registry" "\<forall>t \<in> set (actors_of ns). wf_actor_type t"
    and alloc: "allocates alloc"
  defines "space \<equiv> \<lambda>xs. space_bound (map (\<lambda>x. layout_of registry (snd x)) xs)"
  shows "is_ok (allocate_actors registry alloc xs) \<longleftrightarrow>
    (\<forall>x \<in> set xs. known registry (snd x)) \<and> 0 < space xs \<and> space xs < 2 ^ 32 \<and>
    alloc (arena_layout (of_nat (space xs))) \<noteq> 0"
proof (cases "\<forall>x \<in> set xs. known registry (snd x)")
  case False
  then have "\<not> is_ok (rmap (constructor_info registry) xs)" using constructor_infos_known by blast
  then show ?thesis using False by (cases "rmap (constructor_info registry) xs") (auto simp: allocate_actors_def)
next
  case True
  let ?ls = "map (\<lambda>x. layout_of registry (snd x)) xs"
  obtain infos where infos: "rmap (constructor_info registry) xs = Ok infos"
    "list_all2 (\<lambda>x info. \<exists>ty. by_name registry (cfg_typename (snd x)) = Some (ty, aci_vtable info)) xs infos"
    using constructor_infos_ok [OF True] by blast
  have "rmap (\<lambda>info. vtable_layout (aci_vtable info)) infos = Ok ?ls \<and> (\<forall>l \<in> set ?ls. wf_layout l)"
    using infos(2)
  proof (induction rule: list_all2_induct)
    case (Cons x ys info infos)
    then show ?case using by_name_layout [OF reg] by (fastforce simp: layout_of_def)
  qed simp
  then have ls: "rmap (\<lambda>info. vtable_layout (aci_vtable info)) infos = Ok ?ls" "\<forall>l \<in> set ?ls. wf_layout l" by blast+
  have len: "length infos = length ?ls" using infos(2) by (simp add: list_all2_lengthD)
  have "is_ok (allocate_actors registry alloc xs) \<longleftrightarrow> is_ok (from_layouts alloc ?ls)"
  proof (cases "from_layouts alloc ?ls")
    case (Inr x)
    obtain c where c: "compute_space_required ?ls = Ok c" "(ucast c :: usize) \<noteq> 0" "alloc (arena_layout c) \<noteq> 0"
      using Inr by (auto simp: from_layouts_def from_size_align_1 alloc_call_def nonnull_new_def split: if_splits)
    then have "c \<noteq> 0" by auto
    then have "from_layouts alloc ?ls = Ok (\<lparr>arena_data = alloc (arena_layout c), arena_capacity = c\<rparr>, placed (alloc (arena_layout c)) ?ls)"
      using from_layouts_exact [OF ls(2) c(1)] c(3) alloc by (auto simp: allocates_def)
    then show ?thesis using infos(1) ls(1) len by (simp add: allocate_actors_def placed_def)
  qed (use infos(1) ls(1) in \<open>simp add: allocate_actors_def\<close>)
  also have "\<dots> \<longleftrightarrow> 0 < space xs \<and> space xs < 2 ^ 32 \<and> alloc (arena_layout (of_nat (space xs))) \<noteq> 0"
  proof (cases "space xs < 2 ^ 32")
    case False
    then show ?thesis using compute_space_exact [OF ls(2)] by (auto simp: space_def from_layouts_def)
  next
    case True
    let ?c = "of_nat (space xs) :: u32"
    have c: "compute_space_required ?ls = Ok ?c" using compute_space_exact [OF ls(2)] True by (simp add: space_def)
    have "unat ?c = space xs" by (rule unat_of_nat_u32 [OF True])
    then have nz: "?c = 0 \<longleftrightarrow> space xs = 0" by (simp only: unat_eq_zero [symmetric])
    show ?thesis
    proof (cases "?c = 0 \<or> alloc (arena_layout ?c) = 0")
      case True
      then show ?thesis using c nz by (auto simp: from_layouts_def from_size_align_1 alloc_call_def nonnull_new_def unwrap_def)
    next
      case False
      then show ?thesis using from_layouts_exact [OF ls(2) c] alloc nz \<open>space xs < 2 ^ 32\<close> by (auto simp: allocates_def)
    qed
  qed
  finally show ?thesis using True by simp
qed

lemma numbered_snd: "snd ` set (numbered i cs) = set cs"
  by (induction cs arbitrary: i) simp_all

lemma all_lives_in:
  assumes "\<forall>c \<in> set cs. context_as_index (cfg_context c) < n"
  shows "(\<forall>k<n. \<forall>x \<in> set (lives_in k (numbered 0 cs)). P (snd x)) \<longleftrightarrow> (\<forall>c \<in> set cs. P c)"
proof
  assume all: "\<forall>k<n. \<forall>x \<in> set (lives_in k (numbered 0 cs)). P (snd x)"
  show "\<forall>c \<in> set cs. P c"
  proof
    fix c assume c: "c \<in> set cs"
    then obtain x where "x \<in> set (numbered 0 cs)" "snd x = c" using numbered_snd [of 0 cs] by force
    then show "P c" using all assms c by (fastforce simp: lives_in_def)
  qed
next
  assume all: "\<forall>c \<in> set cs. P c"
  show "\<forall>k<n. \<forall>x \<in> set (lives_in k (numbered 0 cs)). P (snd x)"
  proof (intro allI impI ballI)
    fix k x assume "x \<in> set (lives_in k (numbered 0 cs))"
    then have "snd x \<in> snd ` set (numbered 0 cs)" by (simp add: lives_in_def)
    then show "P (snd x)" using all numbered_snd [of 0 cs] by simp
  qed
qed

subsection \<open>Properties\<close>

definition space_of :: "('v, 'c, 's, 'f, 'm) object_registry \<Rightarrow> 'v config \<Rightarrow> nat \<Rightarrow> nat" where
  "space_of registry config k =
     space_bound (map (\<lambda>x. layout_of registry (snd x)) (lives_in k (numbered 0 (scope_actors (config_root config)))))"

definition startable :: "('v, 'c, 's, 'f, 'm) object_registry \<Rightarrow> (nat \<Rightarrow> layout \<Rightarrow> usize) \<Rightarrow> (layout \<Rightarrow> usize) \<Rightarrow>
    'v config \<Rightarrow> bool" where
  "startable registry alloc cb_alloc config \<longleftrightarrow>
     (let root = config_root config; n = length (config_contexts config) in
      scope_children root = [] \<and> imported_scopes root = [] \<and>
      0 < n \<and> n < 2 ^ 32 \<and> map cc_id (config_contexts config) = map cid [0..<n] \<and>
      length (scope_actors root) < 2 ^ 32 \<and>
      list_all (\<lambda>c. context_as_index (cfg_context c) < n \<and> known registry c) (scope_actors root) \<and>
      cb_alloc cb_layout \<noteq> 0 \<and>
      list_all (\<lambda>k. 0 < space_of registry config k \<and> space_of registry config k < 2 ^ 32 \<and>
        alloc k (arena_layout (of_nat (space_of registry config k))) \<noteq> 0) [0..<n])"

text \<open>
  C13. \<open>run\<close> spawns its threads exactly if the configuration is startable: it has no namespaces; its
  contexts are named 1 to n, in order, with at least one; every actor names a registered type and
  one of the contexts; the actors of every context together take some space, but less than
  \<open>2 ^ 32\<close> bytes; and no allocation fails. In particular no context may be without actors: an
  arena of no bytes is allocated for it, which is undefined behaviour.
\<close>

theorem startup_succeeds_iff:
  assumes "run_nodes ns builder_default = Ok registry" "\<forall>t \<in> set (actors_of ns). wf_actor_type t"
    and "\<And>k. allocates (alloc k)"
  shows "(is_ok (run registry alloc cb_alloc config mem) \<longleftrightarrow> startable registry alloc cb_alloc config) \<and>
    run registry alloc cb_alloc \<lparr>config_root = Scope None [] [] [],
        config_contexts = [\<lparr>cc_id = cid 0, cc_thread_affinity = None\<rparr>]\<rparr> mem =
      Fault (if cb_alloc cb_layout = 0 then UnwrapFailed else UndefinedBehaviour)"
proof -
  let ?root = "config_root config" and ?n = "length (config_contexts config)"
  let ?cs = "scope_actors ?root"
  have args: "is_ok (create_context_args registry alloc cb_alloc config) \<longleftrightarrow>
      scope_children ?root = [] \<and> imported_scopes ?root = [] \<and>
      ?n < 2 ^ 32 \<and> map cc_id (config_contexts config) = map cid [0..<?n] \<and> length ?cs < 2 ^ 32 \<and>
      (\<forall>c \<in> set ?cs. context_as_index (cfg_context c) < ?n \<and> known registry c) \<and> cb_alloc cb_layout \<noteq> 0 \<and>
      (\<forall>k < ?n. 0 < space_of registry config k \<and> space_of registry config k < 2 ^ 32 \<and>
        alloc k (arena_layout (of_nat (space_of registry config k))) \<noteq> 0)"
  proof (cases "\<forall>c \<in> set ?cs. context_as_index (cfg_context c) < ?n")
    case True
    have "(\<forall>k < ?n. is_ok (allocate_actors registry (alloc k) (lives_in k (numbered 0 ?cs)))) \<longleftrightarrow>
        (\<forall>c \<in> set ?cs. known registry c) \<and>
        (\<forall>k < ?n. 0 < space_of registry config k \<and> space_of registry config k < 2 ^ 32 \<and>
          alloc k (arena_layout (of_nat (space_of registry config k))) \<noteq> 0)"
      unfolding all_lives_in [OF True, of "known registry", symmetric] allocate_actors_ok [OF assms(1,2,3)] space_of_def by blast
    then show ?thesis using True unfolding create_context_args_ok by blast
  qed (unfold create_context_args_ok, blast)
  have "is_ok (run registry alloc cb_alloc config mem) \<longleftrightarrow> is_ok (create_context_args registry alloc cb_alloc config) \<and> ?n \<noteq> 0"
  proof (cases "create_context_args registry alloc cb_alloc config")
    case (Inr su)
    then have "length (su_args su) = ?n" using startedD(1) [OF create_context_args_started] by blast
    then show ?thesis using Inr by (auto simp: run_def guard_def)
  qed (simp add: run_def)
  then have "is_ok (run registry alloc cb_alloc config mem) \<longleftrightarrow> startable registry alloc cb_alloc config"
    unfolding args by (auto simp: startable_def Let_def list_all_iff)
  moreover have "compute_space_required [] = Ok 0"
    by (simp add: compute_space_required_def to_u32_def)
  ultimately show ?thesis
    by (auto simp: run_def create_context_args_def cb_new_def alloc_call_def cb_layout_def nonnull_new_def demo_ids
        allocate_actors_def from_layouts_def from_size_align_def wf_layout_def unwrap_def)
qed

definition low_alloc :: "layout \<Rightarrow> usize" where
  "low_alloc l = (if unat (lay_align l) dvd 4096 \<and> unat (lay_size l) < 2 ^ 20 then 4096 else 0)"

lemma low_alloc_allocates: "allocates low_alloc"
  by (auto simp: allocates_def low_alloc_def alloc_ok_def)

theorem startup_succeeds_iff_witness:
  "is_ok (run (demo_registry keep_accessor) (\<lambda>_. low_alloc) (\<lambda>_. 64) demo_config 0)"
proof -
  have "space_bound [\<lparr>lay_size = 8, lay_align = 8\<rparr>] = 15"
    using demo_space compute_space_Ok [of "[\<lparr>lay_size = 8, lay_align = 8\<rparr>]" 15] by (simp add: wf_layout_def)
  then have "startable (demo_registry keep_accessor) (\<lambda>_. low_alloc) (\<lambda>_. 64) demo_config"
    by (simp add: startable_def demo_config_def demo_actor_def known_def layout_of_def space_of_def demo_by_name lives_in_def
        numbered_def low_alloc_def numeral_3_eq_3 upt_rec demo_type_def create_vtable_def)
  moreover have "\<forall>t \<in> set (actors_of (demo_nodes keep_accessor)). wf_actor_type t"
    by (simp add: demo_nodes_def demo_type_def wf_actor_type_def wf_layout_def)
  ultimately show ?thesis
    using startup_succeeds_iff [OF demo_nodes_run _ low_alloc_allocates] by blast
qed

end
