(* ===== verification/Panic.thy ===== *)
theory Panic
  imports Delivery
begin

text \<open>
  Panics, as in the dev profile of \<open>Cargo.toml\<close>; the release profile aborts. \<open>System\<close> ends where a
  thread panics; here the thread unwinds and the others go on. What it
  owns is dropped on the way: its \<open>Context\<close>, with the actors, the receiver of its channel and its
  links, and, before the release, the \<open>ControlBlockPtr\<close>, the drop of which panics in turn, so that
  the process aborts. An event that the thread had not handled yet stays counted.

  Accessors that the dropped values own are dropped too: that is a step of \<open>outside_step\<close>, which may
  drop any accessor at any time. The effect of the interrupted handler on the actors is arbitrary:
  it is an argument of the step. A call that panics outside the runtime is not continued.
\<close>

subsection \<open>Unwinding\<close>

record ('i, 'f, 'm) psys =
  ps_sys :: "('i, 'f, 'm) sys"
  ps_panicked :: "nat list"     \<comment> \<open>the threads that panicked\<close>
  ps_aborted :: bool
  ps_lost :: nat                \<comment> \<open>how many events they did not handle; only to state the properties\<close>

text \<open>What is dropped while thread unwinds; a panic in it aborts.\<close>

fun unwinding :: "('i, 'f) thread \<Rightarrow> unit res" where
  "unwinding (Waiting i) = control_block_ptr_drop"
| "unwinding (Running pt as c) =
     rbind (if pt = PDrain then control_block_ptr_drop else Ok ()) (\<lambda>_. context_drop c)"
| "unwinding Finished = Ok ()"

text \<open>The channel that a thread receives from, and those it holds links to.\<close>

fun owned_channels :: "('i, 'f) thread \<Rightarrow> 'f queue_item channel list \<Rightarrow> 'f queue_item channel list" where
  "owned_channels (Running pt as c) chans =
     drop_txs (ctx_links c) (chans[ctx_rx c := rx_drop (chans ! ctx_rx c)])"
| "owned_channels _ chans = chans"

definition unwind :: "nat \<Rightarrow> 'm \<Rightarrow> ('i, 'f, 'm) psys \<Rightarrow> ('i, 'f, 'm) psys" where
  "unwind k mem p =
     (let s = ps_sys p; t = sys_threads s ! k in
      p\<lparr>ps_sys := set_thread k Finished (s\<lparr>sys_channels := owned_channels t (sys_channels s), sys_mem := mem\<rparr>),
        ps_panicked := k # ps_panicked p,
        ps_lost := ps_lost p + thread_tokens t + chan_tokens (sys_channels s ! k)\<rparr>)"

text \<open>A step; \<open>None\<close> if there is none, or its behaviour is undefined.\<close>

definition psys_step :: "('i \<Rightarrow> 'm \<Rightarrow> ('m \<times> 'f actor_context \<times> 'f action list) res) \<Rightarrow> ('f, 'm) user \<Rightarrow>
    'm \<Rightarrow> 'f sys_event \<Rightarrow> ('i, 'f, 'm) psys \<Rightarrow> ('i, 'f, 'm) psys option" where
  "psys_step build user mem e p =
     (if ps_aborted p then None
      else case sys_event_step build user e (ps_sys p) of
        None \<Rightarrow> None
      | Some (Ok s) \<Rightarrow> Some (p\<lparr>ps_sys := s\<rparr>)
      | Some (Fault f) \<Rightarrow>
          (case e of
             Out x \<Rightarrow> None
           | Th k \<Rightarrow>
               if f = UndefinedBehaviour then None
               else if is_ok (unwinding (sys_threads (ps_sys p) ! k)) then Some (unwind k mem p)
               else Some (p\<lparr>ps_aborted := True\<rparr>)))"

text \<open>The states reached while fewer than \<open>2 ^ 32\<close> events are counted.\<close>

inductive psys_reachable ::
    "('i \<Rightarrow> 'm \<Rightarrow> ('m \<times> 'f actor_context \<times> 'f action list) res) \<Rightarrow> ('f, 'm) user \<Rightarrow>
     ('i, 'f, 'm) sys \<Rightarrow> ('i, 'f, 'm) psys \<Rightarrow> bool" for build user s0 where
  here: "psys_reachable build user s0 \<lparr>ps_sys = s0, ps_panicked = [], ps_aborted = False, ps_lost = 0\<rparr>"
| step: "psys_reachable build user s0 p \<Longrightarrow> psys_step build user mem e p = Some q \<Longrightarrow>
    total (ps_sys q) + ps_lost q < 2 ^ 32 \<Longrightarrow> psys_reachable build user s0 q"

subsection \<open>The same run without unwinding\<close>

text \<open>
  A state with threads \<open>K\<close> unwound behaves as one in which they stand still: there they keep their
  place, their channel and what is in it. \<open>s0\<close> is that state at an earlier time.
\<close>

definition frozen :: "nat set \<Rightarrow> ('i, 'f, 'm) sys \<Rightarrow> ('i, 'f, 'm) sys \<Rightarrow> ('i, 'f, 'm) sys \<Rightarrow> bool" where
  "frozen K s0 p s \<longleftrightarrow>
     length (sys_threads p) = length (sys_threads s) \<and> length (sys_channels p) = length (sys_channels s) \<and>
     length (sys_channels s) = length (sys_threads s) \<and> K \<subseteq> {..<length (sys_threads s)} \<and>
     (\<forall>k. k \<notin> K \<longrightarrow> k < length (sys_threads s) \<longrightarrow> sys_threads p ! k = sys_threads s ! k \<and>
        pending (sys_channels p ! k) = pending (sys_channels s ! k) \<and>
        receiver_alive (sys_channels p ! k) = receiver_alive (sys_channels s ! k)) \<and>
     (\<forall>k \<in> K. sys_threads p ! k = Finished \<and> \<not> receiver_alive (sys_channels p ! k) \<and>
        pending (sys_channels p ! k) = [] \<and> sys_threads s ! k = sys_threads s0 ! k \<and>
        pending (sys_channels s ! k) = pending (sys_channels s0 ! k)) \<and>
     sys_control p = sys_control s \<and> sys_live p = sys_live s \<and> sys_outside p = sys_outside s \<and>
     sys_make_tx p = sys_make_tx s \<and> sys_mem p = sys_mem s"

lemma drop_txs_fields [simp]:
  "length (drop_txs js chans) = length chans"
  "pending (drop_txs js chans ! j) = pending (chans ! j)" "receiver_alive (drop_txs js chans ! j) = receiver_alive (chans ! j)"
  by (induction js arbitrary: chans) (auto simp: drop_txs_def tx_drop_def nth_update_if)

lemma frozen_thread: "frozen K s0 p s \<Longrightarrow> k \<notin> K \<Longrightarrow> frozen K s0 (set_thread k t p) (set_thread k t s)"
  by (auto simp: frozen_def nth_update_if)

lemma frozen_channel:
  assumes "frozen K s0 p s"
    and "j \<notin> K \<Longrightarrow> pending ch = pending ch' \<and> receiver_alive ch = receiver_alive ch'"
    and "j \<in> K \<Longrightarrow> \<not> receiver_alive ch \<and> pending ch = [] \<and> pending ch' = pending (sys_channels s ! j)"
  shows "frozen K s0 (set_channel j ch p) (set_channel j ch' s)"
  using assms by (cases "j \<in> K") (auto simp: frozen_def nth_update_if)

lemma frozen_fields:
  assumes "frozen K s0 p s"
  shows "frozen K s0 (p\<lparr>sys_control := b\<rparr>) (s\<lparr>sys_control := b\<rparr>)" "frozen K s0 (p\<lparr>sys_live := l\<rparr>) (s\<lparr>sys_live := l\<rparr>)"
    "frozen K s0 (p\<lparr>sys_outside := xs\<rparr>) (s\<lparr>sys_outside := xs\<rparr>)" "frozen K s0 (p\<lparr>sys_make_tx := n\<rparr>) (s\<lparr>sys_make_tx := n\<rparr>)"
    "frozen K s0 (p\<lparr>sys_mem := m\<rparr>) (s\<lparr>sys_mem := m\<rparr>)"
  using assms by (simp_all add: frozen_def)

lemma frozen_same:
  assumes "frozen K s0 p s"
  shows "sys_control p = sys_control s" "sys_live p = sys_live s" "sys_outside p = sys_outside s"
    "sys_make_tx p = sys_make_tx s" "sys_mem p = sys_mem s" "available a p = available a s"
  using assms by (simp_all add: frozen_def available_def borrowed_def)

lemma frozen_send:
  assumes "frozen K s0 p s" "send_unwrap j x p = Ok p'" "j < length (sys_channels s)"
  obtains s' where "send_unwrap j x s = Ok s'" "frozen K s0 p' s'"
proof -
  have alive: "receiver_alive (sys_channels p ! j)" using assms(2) by (auto simp: send_unwrap_def tx_send_def split: if_splits)
  have j: "j \<notin> K" "pending (sys_channels p ! j) = pending (sys_channels s ! j)" "receiver_alive (sys_channels s ! j)"
    using alive assms(1,3) by (auto simp: frozen_def)
  have "send_unwrap j x s = Ok (set_channel j ((sys_channels s ! j)\<lparr>pending := pending (sys_channels s ! j) @ [x]\<rparr>) s)"
    using j(3) by (simp add: send_unwrap_def tx_send_def)
  moreover have "frozen K s0 p' (set_channel j ((sys_channels s ! j)\<lparr>pending := pending (sys_channels s ! j) @ [x]\<rparr>) s)"
    using send_unwrap_Ok [OF assms(2)] j alive by (auto intro!: frozen_channel [OF assms(1)])
  ultimately show thesis by (rule that)
qed

lemma frozen_clone_drop:
  assumes "frozen K s0 p s" "j < length (sys_channels s)"
  shows "frozen K s0 (set_channel j (tx_clone (sys_channels p ! j)) p) (set_channel j (tx_clone (sys_channels s ! j)) s)"
    "frozen K s0 (set_channel j (tx_drop (sys_channels p ! j)) p) (set_channel j (tx_drop (sys_channels s ! j)) s)"
  using assms(2) assms(1) unfolding frozen_def [of K s0 p s]
  by (intro frozen_channel [OF assms(1)]; auto simp: tx_clone_def tx_drop_def)+

lemma frozen_action:
  assumes "frozen K s0 p s" "shape n ready s" "action_ok n a" "action_step a p = Some (Ok (bs, p'))"
  obtains s' where "action_step a s = Some (Ok (bs, s'))" "frozen K s0 p' s'"
proof -
  note same = frozen_same [OF assms(1)]
  have len: "length (sys_channels s) = n" and live: "\<And>x. x \<in> set (sys_live s) \<Longrightarrow> acc_queue x < n"
    using assms(2) by (auto simp: shape_def)
  have "\<exists>s'. action_step a s = Some (Ok (bs, s')) \<and> frozen K s0 p' s'"
  proof (cases a)
    case (AccClone x)
    then obtain b where b: "cb_clone (sys_control s) = Ok b" "bs = []"
      "p' = set_channel (acc_queue x) (tx_clone (sys_channels p ! acc_queue x)) (p\<lparr>sys_control := b, sys_live := x # sys_live s\<rparr>)"
      using assms(4) same by auto
    have x: "acc_queue x < length (sys_channels s)" using assms(3) AccClone len by (simp add: action_ok_def)
    have "frozen K s0 (p\<lparr>sys_control := b, sys_live := x # sys_live s\<rparr>) (s\<lparr>sys_control := b, sys_live := x # sys_live s\<rparr>)"
      using frozen_fields(2) [OF frozen_fields(1) [OF assms(1), of b], of "x # sys_live s"] by simp
    from frozen_clone_drop(1) [OF this, of "acc_queue x"] show ?thesis using AccClone b x by simp
  next
    case (AccIncrement x m)
    then show ?thesis using assms(4) same frozen_fields(1) [OF assms(1)] by (auto split: if_splits)
  next
    case (AccPush x m)
    then have "acc_queue x < length (sys_channels s)" using assms(3) len by (simp add: action_ok_def)
    then show ?thesis using AccPush assms(4) by (auto elim!: frozen_send [OF assms(1)])
  next
    case (AccDrop x)
    then obtain p1 where p1: "available x p" "send_unwrap (acc_queue x) AccessorDropped p = Ok p1" "bs = []"
      "p' = set_channel (acc_queue x) (tx_drop (sys_channels p1 ! acc_queue x)) (p1\<lparr>sys_live := remove1 x (sys_live p1)\<rparr>)"
      using assms(4) by (auto split: if_splits)
    have x: "acc_queue x < length (sys_channels s)" using available_live p1(1) live same len by auto
    obtain s1 where s1: "send_unwrap (acc_queue x) AccessorDropped s = Ok s1" "frozen K s0 p1 s1"
      by (rule frozen_send [OF assms(1) p1(2) x])
    have "frozen K s0 (p1\<lparr>sys_live := remove1 x (sys_live p1)\<rparr>) (s1\<lparr>sys_live := remove1 x (sys_live s1)\<rparr>)"
      using frozen_fields(2) [OF s1(2), of "remove1 x (sys_live s1)"] frozen_same [OF s1(2)] by simp
    note dropped = frozen_clone_drop(2) [OF this, of "acc_queue x"]
    have "length (sys_channels s1) = length (sys_channels s)" using send_unwrap_Ok [OF s1(1)] by simp
    then show ?thesis using dropped AccDrop p1 s1(1) x same by simp
  next
    case DropMakeTx
    then show ?thesis using assms(4,1) by (auto simp: frozen_def tx_drop_def)
  qed
  then show thesis using that by blast
qed

lemma frozen_after_run:
  assumes "frozen K s0 p s" "k \<notin> K" "after_run k pt p r = Ok p'"
  obtains s' where "after_run k pt s r = Ok s'" "frozen K s0 p' s'"
proof -
  obtain mem c as where r: "r = Ok (mem, c, as)" "p' = set_thread k (Running pt as c) (p\<lparr>sys_mem := mem\<rparr>)"
    using assms(3) by (auto simp: after_run_def)
  have "frozen K s0 p' (set_thread k (Running pt as c) (s\<lparr>sys_mem := mem\<rparr>))"
    unfolding r(2) by (intro frozen_thread frozen_fields assms(1,2))
  then show thesis using that r(1) by (simp add: after_run_def)
qed

lemma frozen_point:
  fixes s :: "('i, 'f, 'm) sys"
  assumes "frozen K s0 p s" "shape n ready s" "k < n" "k \<notin> K" "sys_threads s ! k = Running pt [] c"
    and "point_step user k pt c p = Some (Ok p')"
  shows "\<exists>s'. point_step user k pt c s = Some (Ok s') \<and> frozen K s0 p' s'"
proof -
  note same = frozen_same [OF assms(1)]
  have c: "ctx_rx c = k" "ctx_links c = links_for n k" "point_ok n k pt" using shape_thread [OF assms(2,3)] assms(5) by auto
  have len: "length (sys_channels s) = n" using assms(2) by (simp add: shape_def)
  have thread: "frozen K s0 (set_thread k t p) (set_thread k t s)" for t by (rule frozen_thread [OF assms(1,4)])
  have control: "frozen K s0 (set_thread k t (p\<lparr>sys_control := b\<rparr>)) (set_thread k t (s\<lparr>sys_control := b\<rparr>))" for t b
    by (intro frozen_thread frozen_fields assms(1,4))
  have drain: "\<exists>s'. drain_point user k again nxt c s = Ok s' \<and> frozen K s0 p' s'"
    if "drain_point user k again nxt c p = Ok p'" for again nxt
    using that thread same by (auto simp: drain_point_def split: option.splits elim: frozen_after_run [OF assms(1,4)])
  have handled: "\<exists>s'. handled_point k free c s = Ok s' \<and> frozen K s0 p' s'" if "handled_point k free c p = Ok p'" for free
  proof -
    note point = that
    obtain old b where b: "fetch_sub 1 (sys_control s) = Ok (old, b)"
      "p' = set_thread k (if old \<le> 1 then Running (PStop (ctx_links c) free) [] c else Running PRecv [] c) (p\<lparr>sys_control := b\<rparr>)"
      using point same by (auto simp: handled_point_def)
    show ?thesis unfolding b(2) using control b(1) by (simp add: handled_point_def)
  qed
  show ?thesis
  proof (cases pt)
    case PRecv
    then obtain item ch where ch: "rx_recv (sys_channels p ! k) = Some (Some item, ch)"
      using assms(6) c by (auto simp: recv_point_def split: option.splits)
    have eq: "pending (sys_channels p ! k) = pending (sys_channels s ! k)"
      "receiver_alive (sys_channels p ! k) = receiver_alive (sys_channels s ! k)"
      using assms(1,3,4) len by (auto simp: frozen_def)
    then obtain ch' where ch': "rx_recv (sys_channels s ! k) = Some (Some item, ch')"
      "pending ch = pending ch'" "receiver_alive ch = receiver_alive ch'"
      using ch by (auto simp: rx_recv_def split: list.splits if_splits)
    have "frozen K s0 (set_channel k ch p) (set_channel k ch' s)"
      using ch'(2,3) assms(4) by (intro frozen_channel [OF assms(1)]) auto
    then show ?thesis using assms(6) PRecv c ch ch'(1) same assms(4)
      by (auto simp: recv_point_def Let_def intro: frozen_thread split: queue_item.splits elim: frozen_after_run)
  next
    case (PFlush xs)
    then obtain rx m ys where xs: "xs = (rx, m) # ys" using c(3) by (cases xs) auto
    then obtain l p1 where l: "route (ctx_links c) (cd_id (ctx_data c)) rx = Ok l" "send_unwrap l (Msg m) p = Ok p1"
      "p' = set_thread k (Running (if ys = [] then PRecv else PFlush ys) [] c) p1" using assms(6) PFlush by auto
    have "l \<in> set (links_for n k)" using l(1) c(2) by (auto simp: route_def simp del: links_for_set intro: nth_mem)
    then obtain s1 where s1: "send_unwrap l (Msg m) s = Ok s1" "frozen K s0 p1 s1"
      using frozen_send [OF assms(1) l(2)] len by auto
    then show ?thesis using PFlush xs l frozen_thread [OF s1(2) assms(4)] by simp
  next
    case (PStop ls free)
    show ?thesis
    proof (cases ls)
      case Nil
      then show ?thesis using assms(6) PStop thread control same by (auto split: if_splits)
    next
      case (Cons l js)
      then obtain p1 where p1: "send_unwrap l Stop p = Ok p1" "p' = set_thread k (Running (PStop js free) [] c) p1"
        using assms(6) PStop by auto
      obtain s1 where s1: "send_unwrap l Stop s = Ok s1" "frozen K s0 p1 s1"
        using frozen_send [OF assms(1) p1(1)] c(3) PStop Cons len by auto
      then show ?thesis using PStop Cons p1 frozen_thread [OF s1(2) assms(4)] by simp
    qed
  next
    case PCount
    then show ?thesis using assms(6) thread control handled same
      by (auto simp: count_point_def split: list.splits)
  next
    case PExit
    have p': "p' = set_thread k Finished (p\<lparr>sys_channels := drop_txs (links_for n k) ((sys_channels p)[k := rx_drop (sys_channels p ! k)])\<rparr>)"
      "context_drop c = Ok ()" using assms(6) PExit c by (auto simp: exit_point_def Let_def)
    have "frozen K s0 (p\<lparr>sys_channels := drop_txs (links_for n k) ((sys_channels p)[k := rx_drop (sys_channels p ! k)])\<rparr>)
        (s\<lparr>sys_channels := drop_txs (links_for n k) ((sys_channels s)[k := rx_drop (sys_channels s ! k)])\<rparr>)"
      using assms(1,3,4) len by (auto simp: frozen_def rx_drop_def nth_update_if)
    then show ?thesis using p' PExit c frozen_thread [OF _ assms(4)] by (auto simp: exit_point_def Let_def)
  qed (use assms(6) drain handled control same in auto)
qed

lemma frozen_event:
  fixes s :: "('i, 'f, 'm) sys"
  assumes "frozen K s0 p s" "shape n ready s" "sys_event_step build user e p = Some (Ok p')"
  shows "\<exists>s'. sys_event_step build user e s = Some (Ok s') \<and> frozen K s0 p' s'"
proof -
  note same = frozen_same [OF assms(1)]
  have len: "length (sys_threads s) = n" "length (sys_threads p) = n" using assms(1,2) by (auto simp: shape_def frozen_def)
  show ?thesis
  proof (cases e)
    case (Th k)
    then have step: "thread_step build user k p = Some (Ok p')" and k: "k < n" "k \<notin> K"
      using assms len by (auto simp: thread_step_def frozen_def split: if_splits)
    then have eq: "sys_threads p ! k = sys_threads s ! k" using assms(1) len by (simp add: frozen_def)
    have "\<exists>s'. thread_step build user k s = Some (Ok s') \<and> frozen K s0 p' s'"
    proof (cases "sys_threads s ! k")
      case (Waiting i)
      then show ?thesis using step eq k len same
        by (auto simp: thread_step_def elim: frozen_after_run [OF assms(1) k(2)])
    next
      case (Running pt as c)
      show ?thesis
      proof (cases as)
        case Nil
        then show ?thesis using frozen_point [OF assms(1,2) k, of pt c user p'] step eq k len Running by (simp add: thread_step_def)
      next
        case (Cons a bs)
        then obtain cs p1 where p1: "action_step a p = Some (Ok (cs, p1))" "p' = set_thread k (Running pt (cs @ bs) c) p1"
          using step eq k len Running by (auto simp: thread_step_def)
        have "action_ok n a" using shape_thread [OF assms(2) k(1)] Running Cons by simp
        then obtain s1 where s1: "action_step a s = Some (Ok (cs, s1))" "frozen K s0 p1 s1"
          by (rule frozen_action [OF assms(1,2) _ p1(1)])
        then show ?thesis using p1(2) frozen_thread [OF s1(2) k(2)] k len Running Cons by (simp add: thread_step_def)
      qed
    qed (use step eq k len in \<open>simp add: thread_step_def\<close>)
    then show ?thesis using Th by simp
  next
    case (Out x)
    show ?thesis
    proof (cases x)
      case (OutStep i)
      then obtain bs p1 where p1: "i < length (sys_outside s)" "action_step (sys_outside s ! i) p = Some (Ok (bs, p1))"
        "p' = p1\<lparr>sys_outside := take i (sys_outside s) @ bs @ drop (Suc i) (sys_outside s)\<rparr>"
        using assms(3) Out same by (auto split: if_splits)
      have "action_ok n (sys_outside s ! i)" using assms(2) p1(1) by (auto simp: shape_def intro: outside_ok_action_ok)
      then obtain s1 where "action_step (sys_outside s ! i) s = Some (Ok (bs, s1))" "frozen K s0 p1 s1"
        by (rule frozen_action [OF assms(1,2) _ p1(2)])
      then show ?thesis using p1 Out OutStep frozen_fields(3) by auto
    qed (use assms(3) Out same frozen_fields(3) [OF assms(1)] in \<open>auto split: if_splits\<close>)
  qed
qed

subsection \<open>The events that are never handled\<close>

definition tokens_at :: "nat \<Rightarrow> ('i, 'f, 'm) sys \<Rightarrow> nat" where
  "tokens_at k s = thread_tokens (sys_threads s ! k) + chan_tokens (sys_channels s ! k)"

lemma total_tokens_at:
  assumes "length (sys_channels s) = length (sys_threads s)"
  shows "total s = (\<Sum>k<length (sys_threads s). tokens_at k s) + sum_list (map action_tokens (sys_outside s)) + length (sys_live s)"
  using assms by (simp add: total_def tokens_at_def sum_list_sum_nth sum.distrib atLeast0LessThan)

lemma frozen_total:
  assumes "frozen K s0 p s"
  shows "total s = total p + (\<Sum>k\<in>K. tokens_at k s0)"
proof -
  let ?n = "length (sys_threads s)"
  have K: "K \<subseteq> {..<?n}" using assms by (simp add: frozen_def)
  have "tokens_at k s = tokens_at k p + (if k \<in> K then tokens_at k s0 else 0)" if "k < ?n" for k
    using assms that by (auto simp: frozen_def tokens_at_def chan_tokens_def)
  then have "(\<Sum>k<?n. tokens_at k s) = (\<Sum>k<?n. tokens_at k p) + (\<Sum>k<?n. if k \<in> K then tokens_at k s0 else 0)"
    by (simp add: sum.distrib)
  also have "(\<Sum>k<?n. if k \<in> K then tokens_at k s0 else 0) = (\<Sum>k\<in>K. tokens_at k s0)"
    using K by (simp add: sum.If_cases Int_absorb1)
  finally show ?thesis using assms total_tokens_at [of s] total_tokens_at [of p] by (simp add: frozen_def)
qed

definition psys_inv :: "nat \<Rightarrow> (nat \<Rightarrow> 'i \<Rightarrow> bool) \<Rightarrow> ('i, 'f, 'm) psys \<Rightarrow> bool" where
  "psys_inv n ready p \<longleftrightarrow> (\<exists>s. sys_inv n ready s \<and> frozen (set (ps_panicked p)) s (ps_sys p) s \<and>
     total s = total (ps_sys p) + ps_lost p \<and> total s < 2 ^ 32)"

lemma frozen_refl: "frozen K s0 p s \<Longrightarrow> frozen K s p s"
  by (simp add: frozen_def)

lemma sys_inv_mem: "sys_inv n ready (s\<lparr>sys_mem := m\<rparr>) = sys_inv n ready s"
  by (simp add: sys_inv_def running_def stuck_def stopping_def senders_ok_def links_to_def live_to_def
      idle_def stopper_def follower_def leaving_def active_def)

lemma frozen_unwind:
  assumes "frozen K s p s" "shape n ready s" "sys_threads p ! k = Running pt as c" "k < n" "k \<notin> K"
  shows "frozen (insert k K) (s\<lparr>sys_mem := mem\<rparr>)
    (set_thread k Finished (p\<lparr>sys_channels := owned_channels (sys_threads p ! k) (sys_channels p), sys_mem := mem\<rparr>))
    (s\<lparr>sys_mem := mem\<rparr>)"
proof -
  have "ctx_rx c = k" using shape_thread [OF assms(2,4)] assms by (auto simp: frozen_def shape_def)
  then show ?thesis using assms by (auto simp: frozen_def shape_def nth_update_if rx_drop_def)
qed

lemma psys_inv_step:
  assumes "psys_inv n (builds n build) p" "psys_step build user mem e p = Some q" "total (ps_sys q) + ps_lost q < 2 ^ 32"
  shows "psys_inv n (builds n build) q"
proof -
  obtain s where s: "sys_inv n (builds n build) s" "frozen (set (ps_panicked p)) s (ps_sys p) s"
    "total s = total (ps_sys p) + ps_lost p" "total s < 2 ^ 32"
    using assms(1) by (auto simp: psys_inv_def)
  have sh: "shape n (builds n build) s" by (rule sys_inv_shape [OF s(1)])
  obtain r where r: "sys_event_step build user e (ps_sys p) = Some r"
    using assms(2) by (auto simp: psys_step_def split: if_splits option.splits)
  show ?thesis
  proof (cases r)
    case (Inr p')
    then have q: "q = p\<lparr>ps_sys := p'\<rparr>" using assms(2) r by (simp add: psys_step_def split: if_splits)
    obtain s' where s': "sys_event_step build user e s = Some (Ok s')" "frozen (set (ps_panicked p)) s p' s'"
      using frozen_event [OF s(2) sh] r Inr by blast
    have "sys_inv n (builds n build) s'"
      using s'(1) sys_inv_step [OF s(1,4)] sys_inv_outside [OF s(1)] by (cases e) fastforce+
    moreover have "total s' = total p' + ps_lost p" using frozen_total [OF s'(2)] frozen_total [OF s(2)] s(3) by simp
    ultimately show ?thesis using q frozen_refl [OF s'(2)] assms(3) by (auto simp: psys_inv_def)
  next
    case (Inl f)
    then obtain k where k: "e = Th k" using assms(2) r by (cases e) (auto simp: psys_step_def split: if_splits)
    show ?thesis
    proof (cases "is_ok (unwinding (sys_threads (ps_sys p) ! k))")
      case False
      then have "q = p\<lparr>ps_aborted := True\<rparr>" using assms(2) r Inl k by (auto simp: psys_step_def split: if_splits)
      then show ?thesis using assms(1) by (simp add: psys_inv_def)
    next
      case True
      then have q: "q = unwind k mem p" using assms(2) r Inl k by (auto simp: psys_step_def split: if_splits)
      obtain pt as c where t: "sys_threads (ps_sys p) ! k = Running pt as c"
        using True r Inl k by (cases "sys_threads (ps_sys p) ! k") (auto simp: control_block_ptr_drop_def thread_step_def split: if_splits)
      have kn: "k < n" "k \<notin> set (ps_panicked p)"
        using r k t s(2) sh by (auto simp: thread_step_def frozen_def shape_def split: if_splits)
      let ?s = "s\<lparr>sys_mem := mem\<rparr>"
      note fr = frozen_unwind [OF s(2) sh t kn, of mem]
      have "tokens_at k ?s = thread_tokens (sys_threads (ps_sys p) ! k) + chan_tokens (sys_channels (ps_sys p) ! k)"
        using s(2) kn sh by (auto simp: tokens_at_def frozen_def shape_def chan_tokens_def)
      moreover have "(\<Sum>j\<in>set (ps_panicked p). tokens_at j ?s) = ps_lost p"
        using frozen_total [OF s(2)] s(3) by (simp add: tokens_at_def)
      ultimately have "total ?s = total (ps_sys q) + ps_lost q"
        using frozen_total [OF fr] kn(2) by (simp add: q unwind_def Let_def)
      moreover have "frozen (set (ps_panicked q)) ?s (ps_sys q) ?s" using fr by (simp add: q unwind_def Let_def)
      ultimately show ?thesis using s(1) assms(3) by (auto simp: psys_inv_def sys_inv_mem intro!: exI [of _ ?s])
    qed
  qed
qed

lemma psys_reachable_inv:
  assumes "psys_reachable build user s0 p" "sys_inv n (builds n build) s0" "total s0 < 2 ^ 32"
  shows "psys_inv n (builds n build) p"
  using assms
proof (induction rule: psys_reachable.induct)
  case here
  then have "frozen {} s0 s0 s0" using sys_inv_shape [OF here(1)] by (auto simp: frozen_def shape_def)
  then show ?case using here by (auto simp: psys_inv_def)
next
  case (step p mem e q)
  show ?case by (rule psys_inv_step [OF step.IH [OF step.prems] step.hyps(2,3)])
qed

text \<open>Where nothing panics, the machine is that of \<open>System\<close>.\<close>

lemma no_panic_same_runs:
  assumes "psys_reachable build user s0 p" "ps_panicked p = []" "\<not> ps_aborted p" "total s0 < 2 ^ 32"
  shows "reachable build user s0 (ps_sys p) \<and> ps_lost p = 0"
  using assms
proof (induction rule: psys_reachable.induct)
  case (step p mem e q)
  obtain s where s: "sys_event_step build user e (ps_sys p) = Some (Ok s)" "q = p\<lparr>ps_sys := s\<rparr>"
    using step.hyps(2) step.prems by (auto simp: psys_step_def unwind_def Let_def split: if_splits option.splits sum.splits sys_event.splits)
  then have "reachable build user s0 (ps_sys p)" "ps_lost p = 0" using step.IH step.prems by auto
  then show ?case using s step.hyps(3)
    by (cases e) (auto intro: reachable.step [where t = s] reachable.outside [where t = s])
qed (auto intro: reachable.here)

subsection \<open>Properties\<close>

text \<open>A thread that panics while it has an event to handle leaves that event counted.\<close>

lemma handler_panic_loses:
  assumes "sys_threads (ps_sys p) ! k = Running pt as c" "0 < point_tokens pt \<or> chan_tokens (sys_channels (ps_sys p) ! k) > 0"
  shows "ps_lost p < ps_lost (unwind k mem p)"
  using assms by (auto simp: unwind_def Let_def)

text \<open>
  C10. A panic in a handler keeps the runtime from ever stopping. The counter is the number of
  unhandled events and of those that panics left behind, for good: once there is one of these,
  no thread is told to stop, the control block is not freed, and every thread that has ended did
  so by a panic of its own. So \<open>run\<close>, which joins all threads, does not return unless they all
  panic.
\<close>

theorem panic_prevents_shutdown:
  assumes "run registry alloc cb_alloc config mem = Ok s0" "length (config_contexts config) = n" "n + 1 < 2 ^ 32"
    and "psys_reachable (create_context registry iter) user s0 p" "0 < ps_lost p"
  shows "sys_control (ps_sys p) = Block (of_nat (total (ps_sys p) + ps_lost p)) \<and>
    (\<forall>j<n. Stop \<notin> set (pending (sys_channels (ps_sys p) ! j)) \<and>
      (ended (sys_threads (ps_sys p) ! j) \<longrightarrow> j \<in> set (ps_panicked p))) \<and>
    (\<forall>mem' e q. psys_step (create_context registry iter) user mem' e p = Some q \<longrightarrow> ps_lost p \<le> ps_lost q)"
proof -
  let ?ready = "builds n (create_context registry iter)"
  have small: "total s0 < 2 ^ 32" using run_inv(2) [OF assms(1-3)] assms(3) by simp
  obtain s where s: "sys_inv n ?ready s" "frozen (set (ps_panicked p)) s (ps_sys p) s"
    "total s = total (ps_sys p) + ps_lost p" "total s < 2 ^ 32"
    using psys_reachable_inv [OF assms(4) run_inv(1) [OF assms(1-3)] small] by (auto simp: psys_inv_def)
  have "running n ?ready s"
    using s(1,3) assms(5) stuck_total stopping_total by (fastforce simp: sys_inv_def)
  then have run: "active s" "shape n ?ready s" "sys_control s = Block (of_nat (total s))" by (auto simp: running_def)
  have "Stop \<notin> set (pending (sys_channels (ps_sys p) ! j)) \<and>
      (ended (sys_threads (ps_sys p) ! j) \<longrightarrow> j \<in> set (ps_panicked p))" if "j < n" for j
  proof -
    have "\<not> ended (sys_threads s ! j)" "Stop \<notin> set (pending (sys_channels s ! j))"
      using run(1,2) that by (auto simp: active_def shape_def all_set_conv_all_nth)
    then show ?thesis using s(2) run(2) that by (cases "j \<in> set (ps_panicked p)") (auto simp: frozen_def shape_def)
  qed
  moreover have "ps_lost p \<le> ps_lost q" if "psys_step (create_context registry iter) user mem' e p = Some q" for mem' e q
    using that by (auto simp: psys_step_def unwind_def Let_def split: if_splits option.splits sum.splits sys_event.splits)
  ultimately show ?thesis using frozen_same(1) [OF s(2)] run(3) s(3) by auto
qed

text \<open>The handler of the one message panics: the other two threads wait forever.\<close>

definition panicked_state where
  "panicked_state = \<lparr>ps_sys = (handled_state)\<lparr>
       sys_threads := [Finished, waiting lone_accessor (Suc 0), waiting lone_accessor (Suc (Suc 0))],
       sys_channels := [remote_channel\<lparr>senders := 2, receiver_alive := False\<rparr>, remote_channel\<lparr>senders := 1\<rparr>,
         remote_channel\<lparr>senders := 1\<rparr>]\<rparr>,
     ps_panicked = [0], ps_aborted = False, ps_lost = 2\<rparr>"

lemma psys_reachable_run:
  assumes "run_counted build user es s = Some s'" "psys_reachable build user s0 \<lparr>ps_sys = s, ps_panicked = [], ps_aborted = False, ps_lost = 0\<rparr>"
  shows "psys_reachable build user s0 \<lparr>ps_sys = s', ps_panicked = [], ps_aborted = False, ps_lost = 0\<rparr>"
  using assms
proof (induction es arbitrary: s)
  case (Cons e es)
  obtain t where t: "sys_event_step build user e s = Some (Ok t)" "total t < 2 ^ 32" "run_counted build user es t = Some s'"
    by (rule run_counted_step [OF Cons.prems(1)])
  have "psys_reachable build user s0 \<lparr>ps_sys = t, ps_panicked = [], ps_aborted = False, ps_lost = 0\<rparr>"
    by (rule psys_reachable.step [OF Cons.prems(2), of undefined e]) (use t in \<open>simp_all add: psys_step_def\<close>)
  then show ?case using Cons.IH t(3) by blast
qed simp

lemma panicked_reached: "psys_reachable (demo_build lone_accessor) panicking (demo_start lone_accessor) panicked_state"
proof -
  have "run_counted (demo_build lone_accessor) panicking (map Th [0, 0, 0, 0, 0, 1, 1, 1, 1, 2, 2, 2, 2] @
      [Out (OutSend acc0 0), Out (OutStep 0), Out (OutStep 0), Out (OutDrop acc0), Out (OutStep 0)]) (demo_start lone_accessor) =
      Some handled_state"
    by (simp only: run_counted_append ready_run handled_run bind.bind_lunit)
  from psys_reachable_run [OF this psys_reachable.here] show ?thesis
    by (rule psys_reachable.step [where mem = 0 and e = "Th 0"])
      (simp_all add: psys_step_def unwind_def run_simps handled_state_def ready_state_def panicking_def panicked_state_def)
qed

theorem panic_prevents_shutdown_witness:
  "sys_control (ps_sys panicked_state) = Block 2 \<and>
    (\<forall>mem e. psys_step (demo_build lone_accessor) panicking mem e panicked_state = None)"
proof -
  have "sys_control (ps_sys panicked_state) = Block (of_nat (total (ps_sys panicked_state) + ps_lost panicked_state))"
    using panic_prevents_shutdown [OF demo_run refl _ panicked_reached] by (simp add: demo_config_def panicked_state_def)
  moreover have "total (ps_sys panicked_state) + ps_lost panicked_state = 2"
    by (simp add: panicked_state_def run_simps handled_state_def ready_state_def)
  moreover have "psys_step (demo_build lone_accessor) panicking mem e panicked_state = None" for mem e
  proof (cases e)
    case (Th k)
    have "k = 0 \<or> k = Suc 0 \<or> k = Suc (Suc 0) \<or> 3 \<le> k" by linarith
    then show ?thesis using Th
      by (auto simp: psys_step_def panicked_state_def run_simps handled_state_def ready_state_def)
  next
    case (Out x)
    then show ?thesis
      by (cases x) (simp_all add: psys_step_def panicked_state_def run_simps handled_state_def ready_state_def)
  qed
  ultimately show ?thesis by simp
qed

text \<open>Contexts can always be dropped, also where threads have unwound.\<close>

lemma psys_droppable:
  "psys_reachable build user s0 p \<Longrightarrow> droppable build s0 \<Longrightarrow> droppable build (ps_sys p)"
proof (induction rule: psys_reachable.induct)
  case (step p mem e q)
  then have d: "droppable build (ps_sys p)" by blast
  obtain r where r: "sys_event_step build user e (ps_sys p) = Some r" "\<not> ps_aborted p"
    using step.hyps(2) by (auto simp: psys_step_def split: if_splits option.splits)
  show ?case
  proof (cases r)
    case (Inr s)
    then have "q = p\<lparr>ps_sys := s\<rparr>" using step.hyps(2) r by (simp add: psys_step_def)
    then show ?thesis using d r(1) Inr droppable_step [OF d] outside_threads
      by (cases e) (fastforce simp: droppable_def)+
  next
    case (Inl f)
    then obtain k where "q = unwind k mem p \<or> q = p\<lparr>ps_aborted := True\<rparr>"
      using step.hyps(2) r by (auto simp: psys_step_def split: if_splits sys_event.splits)
    then show ?thesis using d droppable_set [OF d, of "ps_sys (unwind k mem p)" k Finished]
      by (auto simp: unwind_def Let_def)
  qed
qed simp


text \<open>The \<open>init\<close> of the first actor panics.\<close>

definition panics_in_init :: demo_program where
  "panics_in_init k = (if k = 0 then [InitPanic ExplicitPanic] else [])"

lemma panics_in_init_create:
  "demo_build panics_in_init (demo_args panics_in_init 0 (demo_tree panics_in_init)) mem = Fault ExplicitPanic"
proof -
  have "panics_in_init 0 = [InitPanic ExplicitPanic]" by (simp add: panics_in_init_def)
  then show ?thesis
    by (simp add: create_context_def demo_args_def demo_info_def create_vtable_def vtable_deserialize_def demo_type_def
        demo_layout [unfolded create_vtable_def demo_type_def, simplified] at_offset_def align_offset_def
        actor_constructor_def context_data_new_def init_view_def)
qed


end
