(* ===== verification/Overflow.thy ===== *)
theory Overflow
  imports Delivery
begin

text \<open>
  The counter of unhandled events is an \<open>AtomicU32\<close> without an overflow check. The properties of
  \<open>Shutdown\<close> hold while fewer than \<open>2 ^ 32\<close> events are unhandled; here is what happens beyond.
\<close>

subsection \<open>Runs without a bound on the events\<close>

fun run_events :: "('i \<Rightarrow> 'm \<Rightarrow> ('m \<times> 'f actor_context \<times> 'f action list) res) \<Rightarrow> ('f, 'm) user \<Rightarrow>
    'f sys_event list \<Rightarrow> ('i, 'f, 'm) sys \<Rightarrow> ('i, 'f, 'm) sys option" where
  "run_events build user [] s = Some s"
| "run_events build user (e # es) s =
     (case sys_event_step build user e s of Some (Ok s') \<Rightarrow> run_events build user es s' | _ \<Rightarrow> None)"

lemma run_events_append:
  "run_events build user (es @ fs) s = Option.bind (run_events build user es s) (run_events build user fs)"
  by (induction es arbitrary: s) (auto split: option.splits sum.splits)

lemma run_events_counted: "run_counted build user es s = Some s' \<Longrightarrow> run_events build user es s = Some s'"
  by (induction es arbitrary: s) (auto split: option.splits sum.splits if_splits)

subsection \<open>A flood of messages\<close>

text \<open>One accessor sends \<open>n\<close> messages to an actor whose thread does not run meanwhile.\<close>

definition flooded :: "nat \<Rightarrow> ((unit, unit, unit, nat, nat) context_constructor_args, nat, nat) sys" where
  "flooded n = ready_state\<lparr>
     sys_channels := [remote_channel\<lparr>pending := replicate n (Msg \<lparr>msg_targets = [(Offset 4, MetaUnit)], msg_fn = 0\<rparr>), senders := 3\<rparr>,
       remote_channel\<lparr>senders := 2\<rparr>, remote_channel\<lparr>senders := 2\<rparr>],
     sys_control := Block (1 + of_nat n)\<rparr>"

definition flood_round :: "nat sys_event list" where
  "flood_round = [Out (OutSend acc0 0), Out (OutStep 0), Out (OutStep 0)]"

lemma flood_one: "run_events (demo_build lone_accessor) user flood_round (flooded n) = Some (flooded (Suc n))"
  by (simp add: run_simps ready_state_def flooded_def flood_round_def acc0_def replicate_append_same)

lemma flood:
  "run_events (demo_build lone_accessor) user (concat (replicate n flood_round)) (flooded m) = Some (flooded (m + n))"
  by (induction n arbitrary: m) (simp_all add: run_events_append flood_one)

lemma flooded_0: "flooded 0 = ready_state"
  by (simp add: flooded_def ready_state_def demo_start_def remote_channel_def)

text \<open>The thread handles one of them when the counter has come round to one.\<close>

definition cut_short :: "nat \<Rightarrow> ((unit, unit, unit, nat, nat) context_constructor_args, nat, nat) sys" where
  "cut_short n = (flooded n)\<lparr>sys_threads := [Running (PStop [Suc 0, Suc (Suc 0)] False) [] (demo_ctx lone_accessor 0),
     waiting lone_accessor (Suc 0), waiting lone_accessor (Suc (Suc 0))], sys_control := Block 0, sys_mem := 1\<rparr>"

lemma overflow_stops:
  assumes "(of_nat (Suc n) :: u32) = 0"
  shows "run_events (demo_build lone_accessor) countdown (map Th [0, 0, 0]) (flooded (Suc n)) = Some (cut_short n)"
proof -
  have "(1 :: u32) + (1 + of_nat n) = 1" using assms by (simp add: add.assoc [symmetric] add.commute)
  then show ?thesis by (simp add: run_simps ready_state_def flooded_def cut_short_def)
qed

lemma cut_short_total: "total (cut_short n) = Suc n"
  by (simp add: cut_short_def flooded_def ready_state_def run_simps)

text \<open>The program ends, with the accessor alive.\<close>

definition overflowed :: "((unit, unit, unit, nat, nat) context_constructor_args, nat, nat) sys" where
  "overflowed = (all_finished 1)\<lparr>
     sys_channels := [remote_channel\<lparr>senders := 1, receiver_alive := False\<rparr>,
       remote_channel\<lparr>senders := 0, receiver_alive := False\<rparr>, remote_channel\<lparr>senders := 0, receiver_alive := False\<rparr>],
     sys_control := Block 0, sys_live := [acc0]\<rparr>"

lemma overflow_ends:
  "run_events (demo_build lone_accessor) countdown (map Th [0, 0, 0, 0, 1, 1, 2, 2]) (cut_short n) = Some overflowed"
  by (simp add: run_simps cut_short_def flooded_def ready_state_def overflowed_def all_finished_def)

subsection \<open>Properties\<close>

text \<open>
  C12. The counter wraps. There is a run in which an accessor sends \<open>2 ^ 32\<close> messages, the thread they
  are sent to handles one of them, and takes it for the last event: it stops the program, with
  \<open>2 ^ 32\<close> events unhandled. All threads finish, the messages are lost, and the accessor, which is
  still alive, panics when it is dropped.
\<close>

theorem counter_wraps:
  "\<exists>es fs s t. run (demo_registry lone_accessor) demo_alloc (\<lambda>_. 64) demo_config 0 = Ok (demo_start lone_accessor) \<and>
    run_events (demo_build lone_accessor) countdown es (demo_start lone_accessor) = Some s \<and>
    total s = 2 ^ 32 \<and> (\<exists>c. sys_threads s ! 0 = Running (PStop (ctx_links c) False) [] c) \<and>
    run_events (demo_build lone_accessor) countdown fs s = Some t \<and>
    set (sys_threads t) = {Finished} \<and> sys_live t = [acc0] \<and>
    run_events (demo_build lone_accessor) countdown [Out (OutDrop acc0)] t = Some (t\<lparr>sys_outside := [AccDrop acc0]\<rparr>) \<and>
    outside_step (OutStep 0) (t\<lparr>sys_outside := [AccDrop acc0]\<rparr>) = Some (Fault UnwrapFailed)"
proof -
  define n :: nat where "n = 2 ^ 32 - 1"
  have n: "Suc n = 2 ^ 32" by (simp add: n_def)
  then have "of_nat (Suc n) = (2 :: u32) ^ 32" by (metis of_nat_numeral of_nat_power)
  then have zero: "of_nat (Suc n) = (0 :: u32)" by simp
  define es :: "nat sys_event list" where "es = map Th [0, 0, 0, 0, 0, 1, 1, 1, 1, 2, 2, 2, 2] @
    concat (replicate (Suc n) flood_round) @ map Th [0, 0, 0]"
  have "run_events (demo_build lone_accessor) countdown es (demo_start lone_accessor) = Some (cut_short n)"
    using flood [of countdown "Suc n" 0] overflow_stops [OF zero]
    by (simp only: es_def run_events_append run_events_counted [OF ready_run] flooded_0 bind.bind_lunit add_0)
  moreover have "total (cut_short n) = 2 ^ 32" using n by (simp only: cut_short_total)
  moreover have "sys_threads (cut_short n) ! 0 = Running (PStop (ctx_links (demo_ctx lone_accessor 0)) False) [] (demo_ctx lone_accessor 0)"
    by (simp add: cut_short_def)
  moreover have "set (sys_threads overflowed) = {Finished}" "sys_live overflowed = [acc0]"
    "run_events (demo_build lone_accessor) countdown [Out (OutDrop acc0)] overflowed = Some (overflowed\<lparr>sys_outside := [AccDrop acc0]\<rparr>)"
    "outside_step (OutStep 0) (overflowed\<lparr>sys_outside := [AccDrop acc0]\<rparr>) = Some (Fault UnwrapFailed)"
    by (simp_all add: overflowed_def all_finished_def run_simps)
  ultimately show ?thesis using demo_run [of lone_accessor] overflow_ends [of n] by blast
qed

end
