(* ===== verification/Borrows.thy ===== *)
theory Borrows
  imports Runtime
begin

text \<open>
  Keys to actors of the same context, in use: \<open>AcyclicLocalKey\<close> of \<open>lookup.rs\<close>. An actor that made
  such a key when it was initialised can call the other actor directly, while its own handler
  runs, or borrow it mutably. That this never makes two mutable references to the same actor is
  what the cycle check of \<open>create_context\<close> is there for. It suffices for \<open>call\<close>, where the
  borrows are nested; it does not for \<open>borrow_mut\<close>, whose result outlives the borrow of the
  arguments, so that an actor can hold the results of several keys at once.

  What user code can do with keys is bounded by the types: a key cannot be sent to another
  thread, and it is borrowed mutably while a reference that was made with it is in use. That an
  actor uses the keys that it made itself, and does not hand them on, is an assumption.
\<close>

subsection \<open>The code\<close>

text \<open>
  \<open>AcyclicLocalKey::call\<close>: the closure gets the reference; what it changes through its arguments
  is part of its result.
\<close>

definition acyclic_call :: "acyclic_local_key \<Rightarrow> arena \<Rightarrow> (usize \<times> meta \<Rightarrow> 'x) \<Rightarrow> 'x" where
  "acyclic_call k arena f = f (arena_offset arena (alk_offset k), alk_meta k)"

text \<open>
  Calls one within the other, with the keys in this order: the references that are live when the
  innermost closure runs, the newest first.
\<close>

fun nested_calls :: "arena \<Rightarrow> acyclic_local_key list \<Rightarrow> (usize \<times> meta) list \<Rightarrow> (usize \<times> meta) list" where
  "nested_calls arena [] live = live"
| "nested_calls arena (k # ks) live = acyclic_call k arena (\<lambda>r. nested_calls arena ks (r # live))"

subsection \<open>The keys of the actors\<close>

text \<open>The arguments of an actor's \<open>init\<close>, and the calls that it makes.\<close>

definition actor_args :: "('v, 'c, 's, 'f, 'm) object_registry \<Rightarrow> ('v, 'c, 's, 'f, 'm) object_tree \<Rightarrow>
    (type_id \<rightharpoonup> 's) \<Rightarrow> ('v, 'c, 's, 'f, 'm) actor_constructor_info \<Rightarrow> 's init_args" where
  "actor_args registry tree resources actor = \<lparr>ia_actor = aci_id actor, ia_offset = aci_offset actor,
     ia_lookup = tree_query registry tree (aci_id actor), ia_resources = resources\<rparr>"

definition init_calls :: "('v, 'c, 's, 'f, 'm) object_registry \<Rightarrow> ('v, 'c, 's, 'f, 'm) object_tree \<Rightarrow>
    ('v, 'c, 's, 'f, 'm) context_constructor_args \<Rightarrow> ('v, 'c, 's, 'f, 'm) actor_constructor_info \<Rightarrow>
    'f init_call list res" where
  "init_calls registry tree info actor =
     rbind (unwrap (vt_deserialize (aci_vtable actor) (cfg_config (aci_cfg actor)))) (\<lambda>cfg.
     rbind (vtable_layout (aci_vtable actor)) (\<lambda>layout.
     rbind (at_offset (ca_arena info) (aci_offset actor) layout) (\<lambda>buf.
     rbind (vt_constructor (aci_vtable actor)
       (init_view (actor_args registry tree (ca_resource_map info) actor)
         (\<lparr>id_data = context_data_new (ca_id info), id_relations = [], id_make_tx = ca_make_tx info\<rparr> :: 'f init_data)) buf cfg) (\<lambda>result.
     rbind (unwrap result) (\<lambda>(calls, _). Ok calls)))))"

text \<open>The keys that come of the calls, in order, each with the actor that it points to.\<close>

definition local_key :: "key \<Rightarrow> acyclic_local_key" where
  "local_key key = \<lparr>alk_offset = loc_offset (key_loc key), alk_meta = key_meta key\<rparr>"

fun acyclic_keys :: "(query_type \<Rightarrow> (actor_id \<times> key) list) \<Rightarrow> 'f init_call list \<Rightarrow>
    (actor_id \<times> acyclic_local_key) list" where
  "acyclic_keys found [] = []"
| "acyclic_keys found (c # cs) =
     (case c of InitAcyclicLocalKey q \<Rightarrow> map (map_prod id local_key) (found q) | _ \<Rightarrow> []) @ acyclic_keys found cs"

definition keys_of :: "('v, 'c, 's, 'f, 'm) object_registry \<Rightarrow> ('v, 'c, 's, 'f, 'm) context_constructor_args \<Rightarrow>
    ('v, 'c, 's, 'f, 'm) actor_constructor_info \<Rightarrow> (actor_id \<times> acyclic_local_key) list" where
  "keys_of registry info actor =
     (case ca_tree info of None \<Rightarrow> [] | Some tree \<Rightarrow>
        (case init_calls registry tree info actor of Fault _ \<Rightarrow> []
         | Ok calls \<Rightarrow> acyclic_keys (tree_query registry tree (aci_id actor)) calls))"

definition key_edges :: "('v, 'c, 's, 'f, 'm) object_registry \<Rightarrow> ('v, 'c, 's, 'f, 'm) context_constructor_args \<Rightarrow>
    (actor_id \<times> actor_id) set" where
  "key_edges registry info = {(aci_id a, b) | a b. a \<in> set (ca_actors info) \<and> b \<in> fst ` set (keys_of registry info a)}"

text \<open>The relations that the cycle check sees are those of the keys, one for each.\<close>

definition key_relations :: "actor_id \<Rightarrow> (actor_id \<times> acyclic_local_key) list \<Rightarrow> dependence_relation list" where
  "key_relations self ks = map (\<lambda>(i, _). \<lparr>dep_from = self, dep_to = i\<rparr>) ks"

definition key_target_ok :: "(query_type \<Rightarrow> (actor_id \<times> key) list) \<Rightarrow> context_id \<Rightarrow> actor_id \<Rightarrow>
    actor_id \<times> acyclic_local_key \<Rightarrow> bool" where
  "key_target_ok found ctx self x \<longleftrightarrow> (\<exists>q key. (fst x, key) \<in> set (found q) \<and> loc_context (key_loc key) = ctx \<and>
     fst x \<noteq> self \<and> snd x = local_key key)"

lemma broadcast_loop_id: "cd_id (broadcast_loop gs f d) = cd_id d"
  by (induction gs f d rule: broadcast_loop.induct) (simp_all add: Let_def split: prod.splits)

lemma exec_init_call_keys:
  assumes "exec_init_call args c d = Ok (d', as)"
  shows "cd_id (id_data d') = cd_id (id_data d)"
    and "id_relations d' = id_relations d @ key_relations (ia_actor args) (acyclic_keys (ia_lookup args) [c])"
    and "list_all (key_target_ok (ia_lookup args) (cd_id (id_data d)) (ia_actor args)) (acyclic_keys (ia_lookup args) [c])"
proof -
  have "cd_id (id_data d') = cd_id (id_data d) \<and>
      id_relations d' = id_relations d @ key_relations (ia_actor args) (acyclic_keys (ia_lookup args) [c]) \<and>
      list_all (key_target_ok (ia_lookup args) (cd_id (id_data d)) (ia_actor args)) (acyclic_keys (ia_lookup args) [c])"
  proof (cases c)
    case (InitAcyclicLocalKey q)
    then obtain k rels where k: "acyclic_local_key (ia_actor args) (cd_id (id_data d)) (ia_lookup args q) (id_relations d) = Ok (k, rels)"
      and d': "d' = d\<lparr>id_relations := rels\<rparr>"
      using assms by auto
    from k [unfolded acyclic_local_key_iff] obtain i key where one: "ia_lookup args q = [(i, key)]"
      "loc_context (key_loc key) = cd_id (id_data d)" "i \<noteq> ia_actor args"
      "rels = id_relations d @ [\<lparr>dep_from = ia_actor args, dep_to = i\<rparr>]"
      by blast
    have "key_target_ok (ia_lookup args) (cd_id (id_data d)) (ia_actor args) (i, local_key key)"
      unfolding key_target_ok_def using one by (intro exI [of _ q] exI [of _ key]) simp
    then show ?thesis using one by (simp add: InitAcyclicLocalKey d' key_relations_def)
  qed (use assms in \<open>auto simp: key_relations_def init_send_msg_def init_broadcast_def broadcast_def broadcast_loop_id\<close>)
  then show "cd_id (id_data d') = cd_id (id_data d)"
    and "id_relations d' = id_relations d @ key_relations (ia_actor args) (acyclic_keys (ia_lookup args) [c])"
    and "list_all (key_target_ok (ia_lookup args) (cd_id (id_data d)) (ia_actor args)) (acyclic_keys (ia_lookup args) [c])"
    by blast+
qed

lemma acyclic_keys_Cons: "acyclic_keys found (c # cs) = acyclic_keys found [c] @ acyclic_keys found cs"
  by simp

lemma exec_init_calls_keys:
  "exec_init_calls args cs d = Ok (d', as) \<Longrightarrow>
    cd_id (id_data d') = cd_id (id_data d) \<and>
    id_relations d' = id_relations d @ key_relations (ia_actor args) (acyclic_keys (ia_lookup args) cs) \<and>
    list_all (key_target_ok (ia_lookup args) (cd_id (id_data d)) (ia_actor args)) (acyclic_keys (ia_lookup args) cs)"
proof (induction args cs d arbitrary: d' as rule: exec_init_calls.induct)
  case (2 args c cs d)
  then obtain d1 as1 bs where 1: "exec_init_call args c d = Ok (d1, as1)" and 2: "exec_init_calls args cs d1 = Ok (d', bs)"
    by auto
  note one = exec_init_call_keys [OF 1] and rest = "2.IH" [OF 1 refl 2]
  show ?case using one rest
    by (subst (1 2) acyclic_keys_Cons) (simp add: key_relations_def del: acyclic_keys.simps(2))
qed (simp add: key_relations_def)

lemma init_view_same: "cd_id (id_data d) = cd_id (id_data d') \<Longrightarrow> init_view args d = init_view args d'"
  by (simp add: init_view_def)

lemma construct_actors_keys:
  assumes "construct_actors registry tree (ca_resource_map info) (ca_arena info) actors mem d = Ok (mem', d', as)"
    and "ca_tree info = Some tree" "cd_id (id_data d) = ca_id info"
  shows "id_relations d' = id_relations d @ concat (map (\<lambda>a. key_relations (aci_id a) (keys_of registry info a)) actors) \<and>
    (\<forall>a \<in> set actors. list_all (key_target_ok (tree_query registry tree (aci_id a)) (ca_id info) (aci_id a)) (keys_of registry info a))"
  using assms
proof (induction actors arbitrary: mem d mem' d' as)
  case (Cons a actors)
  let ?args = "actor_args registry tree (ca_resource_map info) a"
  have args: "\<lparr>ia_actor = aci_id a, ia_offset = aci_offset a, ia_lookup = tree_query registry tree (aci_id a),
      ia_resources = ca_resource_map info\<rparr> = ?args" by (simp add: actor_args_def)
  obtain cfg layout buf calls wr d1 as1 mem2 bs where
    step: "vt_deserialize (aci_vtable a) (cfg_config (aci_cfg a)) = Some cfg"
      "vtable_layout (aci_vtable a) = Ok layout" "at_offset (ca_arena info) (aci_offset a) layout = Ok buf"
      "vt_constructor (aci_vtable a) (init_view ?args d) buf cfg = Ok (Some (calls, wr))"
    and calls: "exec_init_calls ?args calls d = Ok (d1, as1)"
    and rest: "construct_actors registry tree (ca_resource_map info) (ca_arena info) actors mem2 d1 = Ok (mem', d', bs)"
    using Cons.prems(1) by (auto simp: Let_def args)
  have view: "init_view ?args d = init_view ?args
      \<lparr>id_data = context_data_new (ca_id info), id_relations = [], id_make_tx = ca_make_tx info\<rparr>"
    by (rule init_view_same) (simp add: Cons.prems(3) context_data_new_def)
  then have "init_calls registry tree info a = Ok calls" using step by (simp add: init_calls_def view [symmetric])
  then have keys: "keys_of registry info a = acyclic_keys (tree_query registry tree (aci_id a)) calls"
    by (simp add: keys_of_def Cons.prems(2))
  have one: "cd_id (id_data d1) = ca_id info"
    "id_relations d1 = id_relations d @ key_relations (aci_id a) (keys_of registry info a)"
    "list_all (key_target_ok (tree_query registry tree (aci_id a)) (ca_id info) (aci_id a)) (keys_of registry info a)"
    using exec_init_calls_keys [OF calls] Cons.prems(3) by (simp_all add: keys actor_args_def)
  show ?case using Cons.IH [OF rest Cons.prems(2) one(1)] one by simp
qed simp

subsection \<open>Contexts that were created\<close>

definition actor_bytes :: "arena \<Rightarrow> ('v, 'c, 's, 'f, 'm) actor_constructor_info \<Rightarrow> nat set" where
  "actor_bytes arena a =
     {unat (arena_offset arena (aci_offset a)) ..<
      unat (arena_offset arena (aci_offset a)) + unat (vt_size (aci_vtable a))}"

text \<open>
  What holds of a context that \<open>create_context\<close> returned: its actors are distinct and do not
  overlap, its keys point to actors of the context, and their dependences have no cycle.
\<close>

definition keyed :: "('v, 'c, 's, 'f, 'm) object_registry \<Rightarrow> ('v, 'c, 's, 'f, 'm) context_constructor_args \<Rightarrow> bool" where
  "keyed registry info \<longleftrightarrow> distinct (map aci_id (ca_actors info)) \<and> acyclic (key_edges registry info) \<and>
     (\<forall>a \<in> set (ca_actors info). \<forall>(i, k) \<in> set (keys_of registry info a).
        \<exists>b \<in> set (ca_actors info). aci_id b = i \<and> aci_offset b = alk_offset k) \<and>
     (\<forall>a \<in> set (ca_actors info). \<forall>b \<in> set (ca_actors info). aci_id a \<noteq> aci_id b \<longrightarrow>
        actor_bytes (ca_arena info) a \<inter> actor_bytes (ca_arena info) b = {})"

lemma keyedD:
  assumes "keyed registry info"
  shows "distinct (map aci_id (ca_actors info))" "acyclic (key_edges registry info)"
    "\<And>a i k. a \<in> set (ca_actors info) \<Longrightarrow> (i, k) \<in> set (keys_of registry info a) \<Longrightarrow>
      \<exists>b \<in> set (ca_actors info). aci_id b = i \<and> aci_offset b = alk_offset k"
    "\<And>a b. a \<in> set (ca_actors info) \<Longrightarrow> b \<in> set (ca_actors info) \<Longrightarrow> aci_id a \<noteq> aci_id b \<Longrightarrow>
      actor_bytes (ca_arena info) a \<inter> actor_bytes (ca_arena info) b = {}"
  using assms unfolding keyed_def by blast+

lemma key_relations_edges:
  "relation_edges (concat (map (\<lambda>a. key_relations (aci_id a) (keys_of registry info a)) (ca_actors info))) =
    key_edges registry info"
  by (force simp: relation_edges_def key_relations_def key_edges_def)

text \<open>The actors of a context whose arena was allocated do not overlap.\<close>

lemma allocated_disjoint:
  assumes "allocate_actors registry alloc configs = Ok (arena, actors)"
    and alloc: "alloc_ok alloc (arena_layout (arena_capacity arena))"
    and "i < j" "j < length actors"
  shows "actor_bytes arena (actors ! i) \<inter> actor_bytes arena (actors ! j) = {}"
proof -
  obtain ls where ls: "from_layouts alloc ls = Ok (arena, map aci_offset actors)"
    using allocate_actors_Ok(2) [OF assms(1)] by blast
  then have data: "arena_data arena = alloc (arena_layout (arena_capacity arena))"
    by (auto simp: from_layouts_def from_size_align_1 alloc_call_def nonnull_new_def split: if_splits)
  note pl = allocate_actors_placed [OF assms(1,2)]
  have at: "unat (arena_offset arena (aci_offset (actors ! l))) =
      unat (arena_data arena) + unat (offset_val (aci_offset (actors ! l)))" if "l < length actors" for l
  proof -
    have "unat (offset_val (aci_offset (actors ! l))) \<le> unat (arena_capacity arena)" using pl that by fastforce
    moreover have "unat (arena_data arena) + unat (arena_capacity arena) < 2 ^ 64"
      using alloc data by (simp add: alloc_ok_def)
    ultimately show ?thesis by (simp add: arena_offset_def unat_add_exact)
  qed
  have "unat (offset_val (aci_offset (actors ! i))) + unat (vt_size (aci_vtable (actors ! i)))
      \<le> unat (offset_val (aci_offset (actors ! j)))" using pl assms(3,4) by blast
  then show ?thesis using at [of i] at [of j] assms(3,4) by (auto simp: actor_bytes_def)
qed

text \<open>Every key that a query finds in this context points to an actor of the context.\<close>

lemma query_target:
  assumes st: "started registry alloc config su" and k: "k < length (su_args su)"
    and "(i, key) \<in> set (tree_query registry \<lparr>tree_actors = su_tree su\<rparr> self q)"
    and "loc_context (key_loc key) = ca_id (su_args su ! k)"
  shows "\<exists>b \<in> set (ca_actors (su_args su ! k)). aci_id b = i \<and> aci_offset b = loc_offset (key_loc key)"
proof -
  note s = startedD [OF st]
  obtain e where e: "e \<in> set (su_tree su)" "i = ad_id e" "key_loc key = ad_loc e"
    using assms(3) by (cases q) (auto simp: tree_query_def sized.lookup_member dyn.lookup_member)
  then obtain l b where l: "l < length (su_args su)" "b \<in> set (ca_actors (su_args su ! l))"
    "ad_id e = aci_id b" "ad_loc e = \<lparr>loc_context = ca_id (su_args su ! l), loc_offset = aci_offset b\<rparr>"
    using s(6) by (auto simp: entries_of_def actor_entries_def in_set_conv_nth [of _ "su_args su"])
  have "cid l = cid k" using assms(4) e(3) l s(1,5) k by (simp add: args_for_def)
  then have "l = k" using l(1) k s(1,2) by simp
  then show ?thesis using l e by auto
qed

lemma created_keyed:
  assumes "create_context_args registry alloc cb_alloc config = Ok su" "k < length (su_args su)"
    and "alloc_ok (alloc k) (arena_layout (arena_capacity (ca_arena (su_args su ! k))))"
    and "reorders iter" "create_context registry iter (su_args su ! k) mem = Ok (mem', c, as)"
  shows "keyed registry (su_args su ! k)"
proof -
  let ?i = "su_args su ! k"
  have st: "started registry alloc config su" by (rule create_context_args_started [OF assms(1)])
  note s = startedD [OF st]
  let ?configs = "lives_in k (numbered 0 (scope_actors (config_root config)))"
  have a: "allocate_actors registry (alloc k) ?configs = Ok (ca_arena ?i, ca_actors ?i)"
    "ca_tree ?i = Some \<lparr>tree_actors = su_tree su\<rparr>"
    using s(1,5) assms(2) by (simp_all add: args_for_def)
  have "map aci_id (ca_actors ?i) = map fst ?configs"
    using allocate_actors_Ok(1) [OF a(1)]
    by (auto simp: describes_def list_all2_conv_all_nth intro!: nth_equalityI)
  then have ids: "distinct (map aci_id (ca_actors ?i))"
    using distinct_numbered [OF startup_few_actors [OF assms(1)]] by (simp add: lives_in_def distinct_map_filter)
  obtain d bs where d: "construct_actors registry \<lparr>tree_actors = su_tree su\<rparr> (ca_resource_map ?i) (ca_arena ?i)
      (ca_actors ?i) mem \<lparr>id_data = context_data_new (ca_id ?i), id_relations = [], id_make_tx = ca_make_tx ?i\<rparr> =
      Ok (mem', d, bs)"
    and cycle: "has_cycles iter (id_relations d) = Ok False"
    using assms(5) a(2) by (auto simp: create_context_def Let_def)
  have rels: "id_relations d = concat (map (\<lambda>a. key_relations (aci_id a) (keys_of registry ?i a)) (ca_actors ?i))"
    "\<forall>a \<in> set (ca_actors ?i). list_all (key_target_ok (tree_query registry \<lparr>tree_actors = su_tree su\<rparr> (aci_id a))
      (ca_id ?i) (aci_id a)) (keys_of registry ?i a)"
    using construct_actors_keys [OF d a(2)] by (simp_all add: context_data_new_def)
  have "acyclic (key_edges registry ?i)"
    using cycle has_cycles_correct [OF assms(4)] by (simp add: rels(1) key_relations_edges acyclic_def)
  moreover have "\<exists>b \<in> set (ca_actors ?i). aci_id b = i \<and> aci_offset b = alk_offset key"
    if x: "x \<in> set (ca_actors ?i)" "(i, key) \<in> set (keys_of registry ?i x)" for x i key
  proof -
    have "key_target_ok (tree_query registry \<lparr>tree_actors = su_tree su\<rparr> (aci_id x)) (ca_id ?i) (aci_id x) (i, key)"
      using rels(2) x by (fastforce simp: list_all_iff)
    then obtain q key' where "(i, key') \<in> set (tree_query registry \<lparr>tree_actors = su_tree su\<rparr> (aci_id x) q)"
      "loc_context (key_loc key') = ca_id ?i" "key = local_key key'"
      by (auto simp: key_target_ok_def)
    then show ?thesis using query_target [OF st assms(2)] by (fastforce simp: local_key_def)
  qed
  moreover have "actor_bytes (ca_arena ?i) x \<inter> actor_bytes (ca_arena ?i) y = {}"
    if xy: "x \<in> set (ca_actors ?i)" "y \<in> set (ca_actors ?i)" "aci_id x \<noteq> aci_id y" for x y
  proof -
    obtain m n where mn: "m < length (ca_actors ?i)" "n < length (ca_actors ?i)" "x = ca_actors ?i ! m" "y = ca_actors ?i ! n"
      using xy(1,2) by (auto simp: in_set_conv_nth)
    then have "m < n \<or> n < m" using xy(3) by (metis linorder_neqE_nat)
    then show ?thesis using allocated_disjoint [OF a(1) assms(3)] mn by (auto simp: Int_commute)
  qed
  ultimately show ?thesis using ids unfolding keyed_def by blast
qed

subsection \<open>Nested calls\<close>

text \<open>
  The actors whose handlers run, the innermost first, and the keys that were called to get there:
  a handler of an actor of the context is entered for a message, and the innermost one may call
  any of its keys.
\<close>

inductive call_chain :: "('v, 'c, 's, 'f, 'm) object_registry \<Rightarrow> ('v, 'c, 's, 'f, 'm) context_constructor_args \<Rightarrow>
    actor_id list \<Rightarrow> acyclic_local_key list \<Rightarrow> bool" for registry info where
  handler: "a \<in> set (ca_actors info) \<Longrightarrow> call_chain registry info [aci_id a] []"
| call: "call_chain registry info (aci_id a # is) ks \<Longrightarrow> a \<in> set (ca_actors info) \<Longrightarrow>
    (i, k) \<in> set (keys_of registry info a) \<Longrightarrow> call_chain registry info (i # aci_id a # is) (ks @ [k])"

lemma nested_calls_snoc:
  "nested_calls arena (ks @ [k]) live = acyclic_borrow k arena # nested_calls arena ks live"
  by (induction ks arbitrary: live) (simp_all add: acyclic_call_def acyclic_borrow_def)

lemma chain_edges:
  "call_chain registry info ids ks \<Longrightarrow> ids \<noteq> [] \<and> sorted_wrt (\<lambda>i j. (j, i) \<in> (key_edges registry info)\<^sup>+) ids"
proof (induction rule: call_chain.induct)
  case (call a "is" ks i k)
  then have "(aci_id a, i) \<in> key_edges registry info" by (force simp: key_edges_def)
  then show ?case using call.IH by (auto intro: trancl_into_trancl)
qed simp

lemma chain_distinct:
  assumes "acyclic (key_edges registry info)" "call_chain registry info ids ks"
  shows "distinct ids"
proof -
  have "sorted_wrt (\<noteq>) ids"
    by (rule sorted_wrt_mono_rel [OF _ conjunct2 [OF chain_edges [OF assms(2)]]]) (use assms(1) in \<open>auto simp: acyclic_def\<close>)
  then show ?thesis by (induction ids) auto
qed

lemma chain_refs:
  "call_chain registry info ids ks \<Longrightarrow> keyed registry info \<Longrightarrow> a \<in> set (ca_actors info) \<Longrightarrow> aci_id a = last ids \<Longrightarrow>
    \<exists>bs. map aci_id bs = ids \<and> set bs \<subseteq> set (ca_actors info) \<and>
      map fst (nested_calls (ca_arena info) ks [(arena_offset (ca_arena info) (aci_offset a), m)]) =
        map (\<lambda>b. arena_offset (ca_arena info) (aci_offset b)) bs"
proof (induction rule: call_chain.induct)
  case (handler a')
  then show ?case by (intro exI [of _ "[a]"]) simp
next
  case (call a' "is" ks i k)
  obtain bs where bs: "map aci_id bs = aci_id a' # is" "set bs \<subseteq> set (ca_actors info)"
    "map fst (nested_calls (ca_arena info) ks [(arena_offset (ca_arena info) (aci_offset a), m)]) =
      map (\<lambda>b. arena_offset (ca_arena info) (aci_offset b)) bs"
    using call.IH [OF call.prems(1,2)] call.prems(3) by (metis last_ConsR list.distinct(1))
  obtain b where b: "b \<in> set (ca_actors info)" "aci_id b = i" "aci_offset b = alk_offset k"
    using keyedD(3) [OF call.prems(1) call.hyps(2,3)] by blast
  have "map fst (nested_calls (ca_arena info) (ks @ [k]) [(arena_offset (ca_arena info) (aci_offset a), m)]) =
      map (\<lambda>b. arena_offset (ca_arena info) (aci_offset b)) (b # bs)"
    using bs(3) b(3) by (simp add: nested_calls_snoc acyclic_borrow_def)
  moreover have "map aci_id (b # bs) = i # aci_id a' # is" "set (b # bs) \<subseteq> set (ca_actors info)"
    using bs b by simp_all
  ultimately show ?case by (intro exI [of _ "b # bs"] conjI)
qed

lemma distinct_ids_disjoint:
  assumes "keyed registry info" "set bs \<subseteq> set (ca_actors info)" "distinct (map aci_id bs)"
  shows "sorted_wrt (\<lambda>b c. actor_bytes (ca_arena info) b \<inter> actor_bytes (ca_arena info) c = {}) bs"
  using assms(2,3)
proof (induction bs)
  case (Cons b bs)
  have "actor_bytes (ca_arena info) b \<inter> actor_bytes (ca_arena info) c = {}" if "c \<in> set bs" for c
    using keyedD(4) [OF assms(1), of b c] Cons.prems that by force
  then show ?case using Cons by simp
qed simp

subsection \<open>Borrows that are held\<close>

text \<open>
  The mutable references that are live while a handler runs, the newest first. Each was made by a
  key, named by the actor that has it and its position among that actor's keys, except the one
  that the handler was entered with. Any live reference gives access to the keys of its actor;
  a key can be borrowed again only when the reference made with it has ended. The references
  end in any order that leaves those on which others depend; this is the list before some end.
\<close>

record live_ref =
  lr_actor :: actor_id
  lr_via :: "(actor_id \<times> nat) option"
  lr_ref :: "usize \<times> meta"

inductive live_refs :: "('v, 'c, 's, 'f, 'm) object_registry \<Rightarrow> ('v, 'c, 's, 'f, 'm) context_constructor_args \<Rightarrow>
    live_ref list \<Rightarrow> bool" for registry info where
  handler: "a \<in> set (ca_actors info) \<Longrightarrow>
    live_refs registry info [\<lparr>lr_actor = aci_id a, lr_via = None, lr_ref = (arena_offset (ca_arena info) (aci_offset a), m)\<rparr>]"
| borrow: "live_refs registry info rs \<Longrightarrow> a \<in> set (ca_actors info) \<Longrightarrow> aci_id a \<in> lr_actor ` set rs \<Longrightarrow>
    n < length (keys_of registry info a) \<Longrightarrow> keys_of registry info a ! n = (i, k) \<Longrightarrow>
    Some (aci_id a, n) \<notin> lr_via ` set rs \<Longrightarrow>
    live_refs registry info (\<lparr>lr_actor = i, lr_via = Some (aci_id a, n), lr_ref = acyclic_borrow k (ca_arena info)\<rparr> # rs)"

text \<open>The key at a position of an actor, and the actor it points to.\<close>

definition key_slot :: "('v, 'c, 's, 'f, 'm) object_registry \<Rightarrow> ('v, 'c, 's, 'f, 'm) context_constructor_args \<Rightarrow>
    actor_id \<times> nat \<Rightarrow> actor_id \<Rightarrow> bool" where
  "key_slot registry info s j \<longleftrightarrow> (\<exists>a \<in> set (ca_actors info). aci_id a = fst s \<and>
     snd s < length (keys_of registry info a) \<and> fst (keys_of registry info a ! snd s) = j)"

text \<open>Two keys meet if they point to the same actor, and can be reached from one handler.\<close>

definition keys_meet :: "('v, 'c, 's, 'f, 'm) object_registry \<Rightarrow> ('v, 'c, 's, 'f, 'm) context_constructor_args \<Rightarrow> bool" where
  "keys_meet registry info \<longleftrightarrow> (\<exists>root s s' j. s \<noteq> s' \<and> key_slot registry info s j \<and> key_slot registry info s' j \<and>
     (root, fst s) \<in> (key_edges registry info)\<^sup>* \<and> (root, fst s') \<in> (key_edges registry info)\<^sup>*)"

lemma key_edge_slot: "(i, j) \<in> key_edges registry info \<longleftrightarrow> (\<exists>n. key_slot registry info (i, n) j)"
  by (force simp: key_edges_def key_slot_def in_set_conv_nth)

lemma key_slot_target:
  assumes "distinct (map aci_id (ca_actors info))" "key_slot registry info s j" "key_slot registry info s j'"
  shows "j = j'"
proof -
  obtain a b where "a \<in> set (ca_actors info)" "b \<in> set (ca_actors info)" "aci_id a = fst s" "aci_id b = fst s"
    "fst (keys_of registry info a ! snd s) = j" "fst (keys_of registry info b ! snd s) = j'"
    using assms(2,3) unfolding key_slot_def by blast
  moreover from this have "a = b" using assms(1) by (metis distinct_map inj_onD)
  ultimately show ?thesis by simp
qed

lemma live_origin:
  "live_refs registry info rs \<Longrightarrow> \<exists>a \<in> set (ca_actors info). \<forall>r \<in> set rs.
    (aci_id a, lr_actor r) \<in> (key_edges registry info)\<^sup>* \<and>
    (case lr_via r of None \<Rightarrow> lr_actor r = aci_id a
     | Some s \<Rightarrow> key_slot registry info s (lr_actor r) \<and> (aci_id a, fst s) \<in> (key_edges registry info)\<^sup>*)"
proof (induction rule: live_refs.induct)
  case (borrow rs a n i k)
  let ?E = "key_edges registry info"
  obtain root where root: "root \<in> set (ca_actors info)" "\<forall>r \<in> set rs. (aci_id root, lr_actor r) \<in> ?E\<^sup>* \<and>
      (case lr_via r of None \<Rightarrow> lr_actor r = aci_id root
       | Some s \<Rightarrow> key_slot registry info s (lr_actor r) \<and> (aci_id root, fst s) \<in> ?E\<^sup>*)"
    using borrow.IH by blast
  have slot: "key_slot registry info (aci_id a, n) i"
    using borrow.hyps by (auto simp: key_slot_def)
  moreover have at: "(aci_id root, aci_id a) \<in> ?E\<^sup>*" using root(2) borrow.hyps(3) by auto
  moreover have "(aci_id root, i) \<in> ?E\<^sup>*" using at slot by (meson key_edge_slot rtrancl.rtrancl_into_rtrancl)
  ultimately show ?case using root by (intro bexI [of _ root]) auto
qed auto

lemma live_vias: "live_refs registry info rs \<Longrightarrow> distinct (map lr_via rs)"
  by (induction rule: live_refs.induct) auto

lemma live_points:
  "live_refs registry info rs \<Longrightarrow> keyed registry info \<Longrightarrow> r \<in> set rs \<Longrightarrow>
    \<exists>b \<in> set (ca_actors info). aci_id b = lr_actor r \<and> fst (lr_ref r) = arena_offset (ca_arena info) (aci_offset b)"
proof (induction rule: live_refs.induct)
  case (borrow rs a n i k)
  have "(i, k) \<in> set (keys_of registry info a)" using borrow.hyps(4,5) by (metis nth_mem)
  then obtain b where "b \<in> set (ca_actors info)" "aci_id b = i" "aci_offset b = alk_offset k"
    using keyedD(3) [OF borrow.prems(1) borrow.hyps(2)] by blast
  then show ?case using borrow.IH borrow.prems by (auto simp: acyclic_borrow_def)
qed auto

text \<open>A key that can be reached can be borrowed, unless it is already.\<close>

lemma live_borrow:
  assumes "keyed registry info" "live_refs registry info rs" "fst s \<in> lr_actor ` set rs" "key_slot registry info s j"
  shows "\<exists>rs'. live_refs registry info (rs' @ rs) \<and> (\<exists>r \<in> set (rs' @ rs). lr_via r = Some s \<and> lr_actor r = j)"
proof (cases "Some s \<in> lr_via ` set rs")
  case True
  then obtain r where r: "r \<in> set rs" "lr_via r = Some s" by auto
  then have "key_slot registry info s (lr_actor r)" using live_origin [OF assms(2)] by fastforce
  then have "lr_actor r = j" using key_slot_target [OF keyedD(1) [OF assms(1)]] assms(4) by blast
  then show ?thesis using r assms(2) by (intro exI [of _ "[]"]) auto
next
  case False
  obtain a where a: "a \<in> set (ca_actors info)" "aci_id a = fst s" "snd s < length (keys_of registry info a)"
    "fst (keys_of registry info a ! snd s) = j"
    using assms(4) unfolding key_slot_def by blast
  have k: "keys_of registry info a ! snd s = (j, snd (keys_of registry info a ! snd s))" using a(4) by (metis prod.collapse)
  let ?r = "\<lparr>lr_actor = j, lr_via = Some (aci_id a, snd s),
      lr_ref = acyclic_borrow (snd (keys_of registry info a ! snd s)) (ca_arena info)\<rparr>"
  have "live_refs registry info ([?r] @ rs)"
    using live_refs.borrow [OF assms(2) a(1) _ a(3) k] a(2) assms(3) False by simp
  moreover have "lr_via ?r = Some s" by (simp add: a(2))
  ultimately show ?thesis by (intro exI [of _ "[?r]"]) auto
qed

lemma live_reach:
  assumes "keyed registry info" "live_refs registry info rs" "i \<in> lr_actor ` set rs" "(i, j) \<in> (key_edges registry info)\<^sup>*"
  shows "\<exists>rs'. live_refs registry info (rs' @ rs) \<and> j \<in> lr_actor ` set (rs' @ rs)"
  using assms(4)
proof (induction rule: rtrancl_induct)
  case base
  then show ?case using assms(2,3) by (intro exI [of _ "[]"]) simp
next
  case (step y z)
  then obtain rs1 n where rs1: "live_refs registry info (rs1 @ rs)" "y \<in> lr_actor ` set (rs1 @ rs)"
    and slot: "key_slot registry info (y, n) z" by (auto simp: key_edge_slot)
  then obtain rs2 where rs2: "live_refs registry info (rs2 @ rs1 @ rs)"
    "\<exists>r \<in> set (rs2 @ rs1 @ rs). lr_via r = Some (y, n) \<and> lr_actor r = z"
    using live_borrow [OF assms(1) rs1(1), of "(y, n)" z] by auto
  then show ?case by (intro exI [of _ "rs2 @ rs1"]) force
qed

lemma meet_alias:
  assumes "keyed registry info" "keys_meet registry info"
  shows "\<exists>rs. live_refs registry info rs \<and> \<not> distinct (map lr_actor rs)"
proof -
  let ?E = "key_edges registry info"
  obtain root s s' j where meet: "s \<noteq> s'" "key_slot registry info s j" "key_slot registry info s' j"
    "(root, fst s) \<in> ?E\<^sup>*" "(root, fst s') \<in> ?E\<^sup>*"
    using assms(2) unfolding keys_meet_def by blast
  have "\<exists>a \<in> set (ca_actors info). aci_id a = root"
    using meet(4)
  proof (cases rule: converse_rtranclE)
    case base
    then show ?thesis using meet(2) by (auto simp: key_slot_def)
  next
    case (step y)
    then show ?thesis by (auto simp: key_edges_def)
  qed
  then obtain rs0 where rs0: "live_refs registry info rs0" "root \<in> lr_actor ` set rs0"
    using live_refs.handler by fastforce
  obtain rs1 where rs1: "live_refs registry info (rs1 @ rs0)" "fst s \<in> lr_actor ` set (rs1 @ rs0)"
    using live_reach [OF assms(1) rs0 meet(4)] by blast
  obtain rs2 where rs2: "live_refs registry info (rs2 @ rs1 @ rs0)"
    "\<exists>r \<in> set (rs2 @ rs1 @ rs0). lr_via r = Some s \<and> lr_actor r = j"
    using live_borrow [OF assms(1) rs1 meet(2)] by blast
  have "root \<in> lr_actor ` set (rs2 @ rs1 @ rs0)" using rs0(2) by auto
  from live_reach [OF assms(1) rs2(1) this meet(5)]
  obtain rs3 where rs3: "live_refs registry info (rs3 @ rs2 @ rs1 @ rs0)" "fst s' \<in> lr_actor ` set (rs3 @ rs2 @ rs1 @ rs0)"
    by blast
  obtain rs4 where rs4: "live_refs registry info (rs4 @ rs3 @ rs2 @ rs1 @ rs0)"
    "\<exists>r \<in> set (rs4 @ rs3 @ rs2 @ rs1 @ rs0). lr_via r = Some s' \<and> lr_actor r = j"
    using live_borrow [OF assms(1) rs3 meet(3)] by blast
  let ?rs = "rs4 @ rs3 @ rs2 @ rs1 @ rs0"
  obtain r r' where r: "r \<in> set ?rs" "r' \<in> set ?rs" "lr_via r = Some s" "lr_via r' = Some s'" "lr_actor r = j" "lr_actor r' = j"
    using rs2(2) rs4(2) by fastforce
  then have "r \<noteq> r'" using meet(1) by auto
  then have "\<not> distinct (map lr_actor ?rs)" using r by (metis distinct_map inj_onD)
  then show ?thesis using rs4(1) by blast
qed

lemma alias_meet:
  assumes "keyed registry info" "live_refs registry info rs" "\<not> distinct (map lr_actor rs)"
  shows "keys_meet registry info"
proof -
  let ?E = "key_edges registry info"
  obtain a where "a \<in> set (ca_actors info)" and a: "\<forall>r \<in> set rs. (aci_id a, lr_actor r) \<in> ?E\<^sup>* \<and>
      (case lr_via r of None \<Rightarrow> lr_actor r = aci_id a
       | Some s \<Rightarrow> key_slot registry info s (lr_actor r) \<and> (aci_id a, fst s) \<in> ?E\<^sup>*)"
    using live_origin [OF assms(2)] by blast
  obtain m n where mn: "m < length rs" "n < length rs" "m \<noteq> n" "lr_actor (rs ! m) = lr_actor (rs ! n)"
    using assms(3) by (auto simp: distinct_conv_nth)
  have vias: "lr_via (rs ! m) \<noteq> lr_via (rs ! n)"
    using live_vias [OF assms(2)] mn by (auto simp: distinct_conv_nth)
  have root: False if "r \<in> set rs" "lr_via r = Some s" "lr_actor r = aci_id a" for r s
  proof -
    have "(aci_id a, fst s) \<in> ?E\<^sup>*" "key_slot registry info s (aci_id a)" using a that by fastforce+
    then have "(aci_id a, aci_id a) \<in> ?E\<^sup>+"
      by (metis key_edge_slot prod.collapse rtrancl_into_trancl1)
    then show False using keyedD(2) [OF assms(1)] by (simp add: acyclic_def)
  qed
  have am: "case lr_via (rs ! m) of None \<Rightarrow> lr_actor (rs ! m) = aci_id a
      | Some s \<Rightarrow> key_slot registry info s (lr_actor (rs ! m)) \<and> (aci_id a, fst s) \<in> ?E\<^sup>*"
    and an: "case lr_via (rs ! n) of None \<Rightarrow> lr_actor (rs ! n) = aci_id a
      | Some s \<Rightarrow> key_slot registry info s (lr_actor (rs ! n)) \<and> (aci_id a, fst s) \<in> ?E\<^sup>*"
    using a mn(1,2) by auto
  show ?thesis
  proof (cases "lr_via (rs ! m)")
    case None
    then obtain s where "lr_via (rs ! n) = Some s" using vias by (cases "lr_via (rs ! n)") auto
    then show ?thesis using root [of "rs ! n" s] None am mn by auto
  next
    case m: (Some s)
    show ?thesis
    proof (cases "lr_via (rs ! n)")
      case None
      then show ?thesis using root [of "rs ! m" s] m an mn by auto
    next
      case (Some s')
      then show ?thesis unfolding keys_meet_def
        using m am an mn(4) vias by (intro exI [of _ "aci_id a"] exI [of _ s] exI [of _ s'] exI [of _ "lr_actor (rs ! n)"]) simp
    qed
  qed
qed

lemma live_actors:
  assumes "keyed registry info" "live_refs registry info rs"
  shows "\<exists>bs. map aci_id bs = map lr_actor rs \<and> set bs \<subseteq> set (ca_actors info) \<and>
    map (\<lambda>r. fst (lr_ref r)) rs = map (\<lambda>b. arena_offset (ca_arena info) (aci_offset b)) bs"
proof -
  have "\<forall>r \<in> set rs. \<exists>b \<in> set (ca_actors info). aci_id b = lr_actor r \<and>
      fst (lr_ref r) = arena_offset (ca_arena info) (aci_offset b)"
    using live_points [OF assms(2,1)] by blast
  then obtain f where "\<forall>r \<in> set rs. f r \<in> set (ca_actors info) \<and> aci_id (f r) = lr_actor r \<and>
      fst (lr_ref r) = arena_offset (ca_arena info) (aci_offset (f r))"
    by metis
  then show ?thesis by (intro exI [of _ "map f rs"]) auto
qed

lemma repeated_address:
  assumes "keyed registry info" "live_refs registry info rs" "\<not> distinct (map lr_actor rs)"
  shows "\<exists>m n. m < n \<and> n < length rs \<and> lr_actor (rs ! m) = lr_actor (rs ! n) \<and>
    fst (lr_ref (rs ! m)) = fst (lr_ref (rs ! n))"
proof -
  obtain bs where bs: "map aci_id bs = map lr_actor rs" "set bs \<subseteq> set (ca_actors info)"
    "map (\<lambda>r. fst (lr_ref r)) rs = map (\<lambda>b. arena_offset (ca_arena info) (aci_offset b)) bs"
    using live_actors [OF assms(1,2)] by blast
  have len: "length bs = length rs" using bs(1) by (metis length_map)
  obtain m n where mn: "m < n" "n < length rs" "lr_actor (rs ! m) = lr_actor (rs ! n)"
    using assms(3) by (auto simp: distinct_conv_nth) (metis linorder_neqE_nat)
  have nth: "aci_id (bs ! l) = lr_actor (rs ! l)" "bs ! l \<in> set (ca_actors info)"
    "fst (lr_ref (rs ! l)) = arena_offset (ca_arena info) (aci_offset (bs ! l))" if "l < length rs" for l
    using arg_cong [OF bs(1), of "\<lambda>xs. xs ! l"] arg_cong [OF bs(3), of "\<lambda>xs. xs ! l"] bs(2) that len by auto
  have "bs ! m = bs ! n"
    using keyedD(1) [OF assms(1)] nth(1,2) [of m] nth(1,2) [of n] mn by (metis distinct_map inj_onD order_less_trans)
  then show ?thesis using mn nth(3) [of m] nth(3) [of n] by (metis order_less_trans)
qed

text \<open>
  A context of two actors for the witnesses: the first one makes two keys to the second, with a
  query for its type each time.
\<close>

definition pair_type :: "nat \<Rightarrow> string \<Rightarrow> nat init_call list \<Rightarrow>
    (unit, unit, unit init_view, (nat, nat) init_outcome) actor_type" where
  "pair_type i name calls = \<lparr>at_type_id = TypeId i, at_ident = name, at_size = 8, at_align = 8,
     at_config_type = TypeId 0, at_deserialize = Some, at_init = (\<lambda>_ _. Some (calls, \<lambda>_ m. m))\<rparr>"

definition pair_holder :: "(unit, unit, unit init_view, (nat, nat) init_outcome) actor_type" where
  "pair_holder = pair_type 1 ''Holder'' [InitAcyclicLocalKey (QSized (TypeId 2)), InitAcyclicLocalKey (QSized (TypeId 2))]"

definition pair_target :: "(unit, unit, unit init_view, (nat, nat) init_outcome) actor_type" where
  "pair_target = pair_type 2 ''Target'' []"

definition pair_registry :: "(unit, unit, unit, nat, nat) object_registry" where
  "pair_registry = (case run_nodes [RegisterActor pair_holder [], RegisterActor pair_target []] builder_default
     of Ok r \<Rightarrow> r | Fault _ \<Rightarrow> builder_default)"

definition pair_config :: "unit config" where
  "pair_config = \<lparr>config_root = Scope None [] [demo_actor ''Holder'' 0, demo_actor ''Target'' 0] [],
     config_contexts = [\<lparr>cc_id = cid 0, cc_thread_affinity = None\<rparr>]\<rparr>"

definition pair_actors :: "(unit, unit, unit, nat, nat) actor_constructor_info list" where
  "pair_actors =
     [\<lparr>aci_id = aid 0, aci_offset = Offset 4, aci_vtable = create_vtable pair_holder, aci_cfg = demo_actor ''Holder'' 0\<rparr>,
      \<lparr>aci_id = aid (Suc 0), aci_offset = Offset 12, aci_vtable = create_vtable pair_target, aci_cfg = demo_actor ''Target'' 0\<rparr>]"

definition pair_args :: "(unit, unit, unit, nat, nat) context_constructor_args" where
  "pair_args = \<lparr>ca_id = cid 0, ca_actors = pair_actors, ca_rx = 0,
     ca_arena = \<lparr>arena_data = 4100, arena_capacity = 23\<rparr>, ca_links = [],
     ca_tree = Some \<lparr>tree_actors = actor_entries (cid 0) pair_actors\<rparr>, ca_make_tx = [0], ca_resource_map = Map.empty\<rparr>"

lemma pair_by_name:
  "by_name pair_registry ''Holder'' = Some (TypeId 1, create_vtable pair_holder)"
  "by_name pair_registry ''Target'' = Some (TypeId 2, create_vtable pair_target)"
  "resource_constructors pair_registry = Map.empty"
  by (simp_all add: pair_registry_def pair_holder_def pair_target_def pair_type_def init_actor_def builder_default_def
      uniquely_named_def Let_def by_name_def)

lemma pair_layout:
  "vtable_layout (create_vtable pair_holder) = Ok \<lparr>lay_size = 8, lay_align = 8\<rparr>"
  "vtable_layout (create_vtable pair_target) = Ok \<lparr>lay_size = 8, lay_align = 8\<rparr>"
  by (rule trans [OF create_vtable_layout];
      simp add: wf_actor_type_def pair_holder_def pair_target_def pair_type_def wf_layout_def)+

lemma pair_allocate:
  "allocate_actors pair_registry (demo_alloc 0) [(aid 0, demo_actor ''Holder'' 0), (aid (Suc 0), demo_actor ''Target'' 0)] =
    Ok (\<lparr>arena_data = 4100, arena_capacity = 23\<rparr>, pair_actors)"
proof -
  have "compute_space_required [\<lparr>lay_size = 8, lay_align = 8\<rparr>, \<lparr>lay_size = 8, lay_align = 8\<rparr>] = Ok 23"
    by (simp add: space_eval)
  then have "from_layouts (demo_alloc 0) [\<lparr>lay_size = 8, lay_align = 8\<rparr>, \<lparr>lay_size = 8, lay_align = 8\<rparr>] =
      Ok (\<lparr>arena_data = 4100, arena_capacity = 23\<rparr>, [Offset 4, Offset 12])"
    by (simp add: from_layouts_def alloc_call_def from_size_align_def wf_layout_def
        nonnull_new_def get_offsets_def align_offset_def offset_from_u32_def demo_alloc_def)
  then show ?thesis
    by (simp add: allocate_actors_def constructor_info_def demo_actor_def pair_by_name pair_layout pair_actors_def)
qed

lemma pair_startup:
  "\<exists>su. create_context_args pair_registry demo_alloc (\<lambda>_. 64) pair_config = Ok su \<and> su_args su = [pair_args]"
proof -
  have "assign_actors 0 (scope_actors (config_root pair_config)) (map (\<lambda>_. []) (config_contexts pair_config)) =
      Ok [[(aid 0, demo_actor ''Holder'' 0), (aid (Suc 0), demo_actor ''Target'' 0)]]"
    by (simp add: pair_config_def demo_actor_def demo_ids)
  moreover have "scope_children (config_root pair_config) = []" "imported_scopes (config_root pair_config) = []"
    "length (config_contexts pair_config) = 1"
    "list_all (\<lambda>(i, b). i = context_as_index (cc_id b)) (enumerate 0 (config_contexts pair_config))"
    by (simp_all add: pair_config_def)
  moreover have "links_for 1 0 = []" by (simp add: links_for_def)
  ultimately show ?thesis
    by (simp add: create_context_args_def pair_allocate demo_ids cb_new_def alloc_call_def pair_by_name
        cb_layout_def nonnull_new_def cb_clone_def fetch_add_def fetch_sub_def release_def pair_args_def)
qed

lemma pair_query:
  "tree_query pair_registry \<lparr>tree_actors = actor_entries (cid 0) pair_actors\<rparr> self (QSized (TypeId 2)) =
    [(aid (Suc 0), \<lparr>key_loc = \<lparr>loc_context = cid 0, loc_offset = Offset 12\<rparr>, key_meta = MetaUnit\<rparr>)]"
  by (simp add: tree_query_def lookup_sized_def actor_entries_def pair_actors_def create_vtable_def
      pair_holder_def pair_target_def pair_type_def)

lemma pair_vtables:
  "vt_deserialize (create_vtable pair_holder) v = Some (TypeId 0, v)"
  "vt_deserialize (create_vtable pair_target) v = Some (TypeId 0, v)"
  "vt_constructor (create_vtable pair_holder) view (4104, 8) (TypeId 0, v) =
    Ok (Some ([InitAcyclicLocalKey (QSized (TypeId 2)), InitAcyclicLocalKey (QSized (TypeId 2))], \<lambda>_ m. m))"
  "vt_constructor (create_vtable pair_target) view (4112, 8) (TypeId 0, v) = Ok (Some ([], \<lambda>_ m. m))"
  by (simp_all add: create_vtable_def vtable_deserialize_def actor_constructor_def pair_holder_def pair_target_def
      pair_type_def align_offset_def)

lemma pair_at:
  "at_offset \<lparr>arena_data = 4100, arena_capacity = 23\<rparr> (Offset 4) \<lparr>lay_size = 8, lay_align = 8\<rparr> = Ok (4104, 8)"
  "at_offset \<lparr>arena_data = 4100, arena_capacity = 23\<rparr> (Offset 12) \<lparr>lay_size = 8, lay_align = 8\<rparr> = Ok (4112, 8)"
  by (simp_all add: at_offset_def align_offset_def)

definition pair_key :: "actor_id \<times> acyclic_local_key" where
  "pair_key = (aid (Suc 0), \<lparr>alk_offset = Offset 12, alk_meta = MetaUnit\<rparr>)"

lemma pair_keys:
  "keys_of pair_registry pair_args (pair_actors ! 0) = [pair_key, pair_key]"
  by (simp add: keys_of_def init_calls_def pair_args_def pair_actors_def pair_vtables pair_layout pair_at
      pair_query [unfolded pair_actors_def] local_key_def pair_key_def)

lemma pair_create:
  "\<exists>c. create_context pair_registry id pair_args (5 :: nat) = Ok (5, c, [DropMakeTx])"
proof -
  have ids: "aid (Suc 0) \<noteq> aid 0" by simp
  have tree: "ca_tree pair_args = Some \<lparr>tree_actors = actor_entries (cid 0) pair_actors\<rparr>" by (simp add: pair_args_def)
  have "\<exists>d. construct_actors pair_registry \<lparr>tree_actors = actor_entries (cid 0) pair_actors\<rparr> (ca_resource_map pair_args)
      (ca_arena pair_args) (ca_actors pair_args) (5 :: nat)
      \<lparr>id_data = context_data_new (ca_id pair_args), id_relations = [], id_make_tx = ca_make_tx pair_args\<rparr> =
      Ok (5, d, []) \<and> relation_edges (id_relations d) = {(aid 0, aid (Suc 0))}"
    using ids by (simp add: pair_args_def pair_actors_def pair_vtables pair_layout pair_at
        pair_query [unfolded pair_actors_def] acyclic_local_key_def context_data_new_def relation_edges_def)
  then obtain d where d: "construct_actors pair_registry \<lparr>tree_actors = actor_entries (cid 0) pair_actors\<rparr> (ca_resource_map pair_args)
      (ca_arena pair_args) (ca_actors pair_args) (5 :: nat)
      \<lparr>id_data = context_data_new (ca_id pair_args), id_relations = [], id_make_tx = ca_make_tx pair_args\<rparr> =
      Ok (5, d, [])" "relation_edges (id_relations d) = {(aid 0, aid (Suc 0))}" by blast
  have "(n, n) \<notin> {(aid 0, aid (Suc 0))}\<^sup>+" for n
  proof
    assume "(n, n) \<in> {(aid 0, aid (Suc 0))}\<^sup>+"
    then have "n = aid 0 \<and> n = aid (Suc 0)" by (auto elim: tranclE converse_tranclE)
    then have "aid (Suc 0) = aid 0" by (elim conjE) (rule trans [OF sym])
    then show False using ids by (rule notE [rotated])
  qed
  then have "has_cycles id (id_relations d) = Ok False"
    using has_cycles_correct [of id "id_relations d"] d(2) by (simp add: reorders_def)
  then show ?thesis using d(1) tree by (simp add: create_context_def Let_def)
qed

subsection \<open>Properties\<close>





end
