(* ===== verification/Release.thy ===== *)
theory Release
  imports Shutdown
begin

text \<open>
  What becomes of the control block. \<open>run_thread\<close> has a copy of its shutdown for each kind of last
  event; the one for a dropped accessor frees the block, the one for a message does not.
\<close>

text \<open>
  The thread that stops the others frees the block, or not, as it was decided when it took the
  last event.
\<close>

definition stops_as :: "bool \<Rightarrow> nat \<Rightarrow> ('i, 'f, 'm) sys \<Rightarrow> bool" where
  "stops_as free k s \<longleftrightarrow>
     (\<exists>ls c. sys_threads s ! k = Running (PStop ls free) [] c \<and> sys_control s = Block 0) \<or>
     leaving k s \<and> sys_control s = (if free then Freed cb_layout else Block 0)"

lemma stops_as_step:
  assumes st: "stopping n ready k ls s" and "stops_as free k s" and step: "thread_step build user j s = Some (Ok s')"
  shows "stops_as free k s'"
proof -
  have sh: "shape n ready s" using st by (simp add: stopping_def)
  have len: "length (sys_threads s) = n" using sh by (simp add: shape_def)
  have j: "j < n" using step len by (simp add: thread_step_def split: if_splits)
  have other: "stops_as free k s'" if "sys_threads s' = (sys_threads s)[j := t]" "sys_control s' = sys_control s"
    "j = k \<Longrightarrow> leaving k s \<and> t = Finished" for t
    using assms(2) that len j by (cases "j = k") (auto simp: stops_as_def leaving_def)
  from st j show ?thesis
  proof (cases rule: stopping_cases)
    case (1 f c)
    then have f: "f = free" "sys_control s = Block 0" using assms(2) by (auto simp: stops_as_def leaving_def)
    have "stop_point k ls free c s = Ok s'" using step 1 f j len by (simp add: thread_step_def)
    then show ?thesis using 1 f j len
      by (cases ls) (auto simp: stops_as_def leaving_def cb_dealloc_def dealloc_call_def split: if_splits dest!: send_unwrap_Ok)
  next
    case (2 c)
    then have "exit_point j c s = Ok s'" using step j len by (simp add: thread_step_def)
    then have "sys_threads s' = (sys_threads s)[j := Finished]" "sys_control s' = sys_control s"
      by (auto simp: exit_point_def Let_def)
    moreover have "j = k \<Longrightarrow> leaving k s" using 2 by (auto simp: leaving_def)
    ultimately show ?thesis using other by blast
  next
    case 3
    then show ?thesis using step j len by (simp add: thread_step_def)
  next
    case (4 c)
    have c: "ctx_rx c = j" using shape_thread [OF sh j] 4 by simp
    have r: "recv_point user j c s = Some (Ok s')" using step 4 j len by (simp add: thread_step_def)
    then have "pending (sys_channels s ! j) = [Stop]" using 4 c
      by (auto simp: recv_point_def rx_recv_def split: if_splits)
    then have "sys_threads s' = (sys_threads s)[j := Running PExit [] c]" "sys_control s' = sys_control s"
      using r c by (auto simp: recv_point_def rx_recv_def)
    then show ?thesis using other 4(1) by blast
  qed
qed

lemma stops_as_reachable:
  assumes "reachable build user s0 s" "stopping n (builds n build) k ls s0" "senders_ok s0" "stops_as free k s0"
  shows "stops_as free k s \<and> senders_ok s \<and> (\<exists>ls'. stopping n (builds n build) k ls' s)"
  using assms
proof (induction rule: reachable.induct)
  case (step s j t)
  then obtain ls' where st: "stopping n (builds n build) k ls' s" "senders_ok s" "stops_as free k s" by blast
  have "shape n (builds n build) s" using st(1) by (simp add: stopping_def)
  then show ?case
    using stops_as_step [OF st(1,3) step.hyps(2)] stopping_step [OF st(1,2) step.hyps(2)] senders_ok_step [OF st(2) _ step.hyps(2)]
    by auto
next
  case (outside s e t)
  then obtain ls' where "stopping n (builds n build) k ls' s" by blast
  then have "outside_step e s = None" by (intro outside_quiet) (auto simp: stopping_def)
  then show ?case using outside.hyps(2) by simp
qed blast

lemma reachable_trans:
  assumes "reachable build user s0 s" "reachable build user s t"
  shows "reachable build user s0 t"
  using assms(2) by (induction rule: reachable.induct) (auto intro: assms(1) reachable.step reachable.outside)

subsection \<open>Properties\<close>

text \<open>
  C9. The control block is freed at the end exactly if the last event was the drop of an accessor.
  When the thread that handled the last event goes on to stop the others, and all threads have
  finished, the block is free if the event was such a drop; if it was a message, the block is
  leaked.
\<close>

theorem last_message_leaks_block:
  assumes "run registry alloc cb_alloc config mem = Ok s0" "length (config_contexts config) = n" "n + 1 < 2 ^ 32"
    and "reachable (create_context registry iter) user s0 s"
    and "k < n" "sys_threads s ! k = Running pt [] c" "pt = PDropped \<or> pt = PCount"
    and "thread_step (create_context registry iter) user k s = Some (Ok s1)"
    and "sys_threads s1 ! k = Running (PStop ls free) [] c1"
    and "reachable (create_context registry iter) user s1 t" "\<forall>j<n. sys_threads t ! j = Finished"
  shows "sys_control t = (if pt = PDropped then Freed cb_layout else Block 0)"
proof -
  let ?build = "create_context registry iter"
  have small: "total s1 < 2 ^ 32" using assms(10) by (induction rule: reachable.induct) auto
  have r1: "reachable ?build user s0 s1" by (rule reachable.step [OF assms(4,8) small])
  have inv: "sys_inv n (builds n ?build) s1" and snd: "senders_ok s1"
    using run_reachable [OF assms(1-3) r1] by (auto simp: sys_inv_def)
  have len: "length (sys_threads s) = n"
    using sys_inv_shape [OF run_reachable(1) [OF assms(1-4)]] by (simp add: shape_def)
  have ended: "ended (sys_threads s1 ! k)" by (simp add: assms(9))
  obtain i ls' where st: "stopping n (builds n ?build) i ls' s1"
    using sys_inv_stopping [OF inv assms(5)] ended by blast
  have "i = k"
  proof (rule ccontr)
    assume "i \<noteq> k"
    then have "follower k ls' s1" using st assms(5) by (simp add: stopping_def)
    then show False using assms(9) by (auto simp: follower_def idle_def leaving_def)
  qed
  moreover have "sys_control s1 = Block 0" using st assms(9) \<open>i = k\<close> by (auto simp: stopping_def stopper_def leaving_def)
  moreover have "free \<longleftrightarrow> pt = PDropped"
  proof -
    have "point_step user k pt c s = Some (Ok s1)" using assms(5,6,8) len by (simp add: thread_step_def)
    then show ?thesis using assms(5,7,9) len
      by (auto simp: handled_point_def count_point_def split: list.splits if_splits)
  qed
  ultimately have "stops_as (pt = PDropped) k s1" using assms(9) by (auto simp: stops_as_def)
  then have "stops_as (pt = PDropped) k t"
    using stops_as_reachable [OF assms(10) _ snd] st \<open>i = k\<close> by blast
  then show ?thesis using assms(5,11) by (auto simp: stops_as_def split: if_splits)
qed

text \<open>
  The first actor handles a message by sending one to the second; the accessor is dropped
  meanwhile. The message (which reaches the third context) is the last event.
\<close>

definition relay :: "(nat, nat) user" where
  "relay f p mem = Ok (mem + 1, if f = 1
     then [CmdSend \<lparr>key_loc = \<lparr>loc_context = cid (Suc 0), loc_offset = Offset 4\<rparr>, key_meta = MetaUnit\<rparr> 0] else [])"

definition relayed_state where
  "relayed_state = (ready_state)\<lparr>sys_threads := [waiting lone_accessor 0, waiting lone_accessor (Suc 0),
       Running PCount [] (demo_ctx lone_accessor (Suc (Suc 0)))],
     sys_channels := [remote_channel\<lparr>senders := 2\<rparr>, remote_channel\<lparr>senders := 2\<rparr>, remote_channel\<lparr>senders := 2\<rparr>],
     sys_control := Block 1, sys_live := [], sys_mem := 2\<rparr>"

lemma relay_route: "route [Suc 0, Suc (Suc 0)] (cid 0) (cid (Suc 0)) = Ok (Suc (Suc 0))"
  using route_outcome [of 0 3 "Suc 0"] by simp

lemma relayed_run:
  "run_counted (demo_build lone_accessor) relay
      ([Out (OutSend acc0 1), Out (OutStep 0), Out (OutStep 0), Out (OutDrop acc0), Out (OutStep 0)] @
       map Th [0, 0, 0, 0, 0, 0, 2, 2]) ready_state = Some relayed_state"
  by (simp add: run_simps ready_state_def relayed_state_def relay_def send_msg_def key_closure_def clear_unsent_def
      relay_route) (simp add: context_data_new_def)

lemma relayed_reached: "reachable (demo_build lone_accessor) relay (demo_start lone_accessor) relayed_state"
  by (rule run_counted_reachable [OF run_counted_reachable [OF demo_here ready_run] relayed_run])

definition relayed_stop where
  "relayed_stop = (relayed_state)\<lparr>sys_threads := [waiting lone_accessor 0, waiting lone_accessor (Suc 0),
       Running (PStop [0, Suc 0] False) [] (demo_ctx lone_accessor (Suc (Suc 0)))], sys_control := Block 0\<rparr>"

definition relayed_end where
  "relayed_end = (all_finished 2)\<lparr>sys_control := Block 0\<rparr>"

lemma relayed_step:
  "thread_step (demo_build lone_accessor) relay (Suc (Suc 0)) relayed_state = Some (Ok relayed_stop)"
  by (simp add: run_simps relayed_state_def relayed_stop_def ready_state_def)

lemma relayed_stop_reached: "reachable (demo_build lone_accessor) relay relayed_stop relayed_end"
proof -
  have "total relayed_stop = 0" by (simp add: run_simps relayed_state_def relayed_stop_def ready_state_def)
  then have "reachable (demo_build lone_accessor) relay relayed_stop relayed_stop" by (intro reachable.here) simp
  moreover have "run_counted (demo_build lone_accessor) relay (map Th [2, 2, 2, 2, 0, 0, 1, 1]) relayed_stop = Some relayed_end"
    by (simp add: run_simps relayed_state_def relayed_stop_def ready_state_def relayed_end_def all_finished_def)
  ultimately show ?thesis by (rule run_counted_reachable)
qed

theorem last_message_leaks_block_witness:
  "reachable (demo_build lone_accessor) relay (demo_start lone_accessor) relayed_end \<and>
    set (sys_threads relayed_end) = {Finished} \<and> sys_control relayed_end = Block 0"
proof -
  have fin: "\<forall>j<3. sys_threads relayed_end ! j = Finished"
    by (auto simp: relayed_end_def all_finished_def less_Suc_eq numeral_3_eq_3)
  have "total relayed_stop < 2 ^ 32" by (simp add: run_simps relayed_state_def relayed_stop_def ready_state_def)
  then have "reachable (demo_build lone_accessor) relay (demo_start lone_accessor) relayed_stop"
    by (rule reachable.step [OF relayed_reached relayed_step])
  from this relayed_stop_reached have reached: "reachable (demo_build lone_accessor) relay (demo_start lone_accessor) relayed_end"
    by (rule reachable_trans)
  have stop: "sys_threads relayed_stop ! 2 = Running (PStop [0, Suc 0] False) [] (demo_ctx lone_accessor (Suc (Suc 0)))"
    by (simp add: relayed_stop_def)
  have "sys_control relayed_end = (if (PCount :: nat point) = PDropped then Freed cb_layout else Block 0)"
    by (rule last_message_leaks_block [OF demo_run refl _ relayed_reached _ _ _ relayed_step stop [unfolded numeral_2_eq_2] relayed_stop_reached])
      (use fin in \<open>simp_all add: demo_config_def relayed_state_def relayed_stop_def ready_state_def\<close>)
  then have "sys_control relayed_end = Block 0" by simp
  moreover have "set (sys_threads relayed_end) = {Finished}" by (simp add: relayed_end_def all_finished_def)
  ultimately show ?thesis using reached by blast
qed

end
