(* ===== verification/Spec2Isabelle.thy ===== *)
theory Spec2Isabelle
  imports Prelude Alloc Ids Arena Graph Queues Object Registry Lookup Context Init Control Runtime System Counting Senders Invariant Runs Shutdown
    Delivery Resources Producer Synchronizer Tokio Replay App AppRuns AppMain Startup Panic Overflow Borrows Release
begin

text \<open>
  A verification library for \<open>dytor\<close>, an actor runtime in Rust (\<open>src/crates/core/dytor\<close>), and for
  the event-replay example built on it (\<open>src/crates/examples\<close>).

  \<^bold>\<open>The program.\<close> Actors and resources register themselves before \<open>main\<close> in a lock-free list, from
  which a registry is built. \<open>run\<close> reads a configuration, places the actors of each context in an
  arena, connects the contexts by channels, and runs a thread for each context. A thread builds
  its context: it calls the \<open>init\<close> of its actors, which may query the tree of all actors, make
  accessors, and send messages. Then it handles the messages of its channel. Messages to actors of
  the same context go through a local queue that is drained after every message; messages to
  other contexts are collected and sent afterwards. A shared control block counts the events that
  are not handled yet; the thread that handles the last one tells the others to stop. Accessors
  let any thread send messages to an actor; one keeps the runtime alive until it is dropped.

  \<^bold>\<open>Theories\<close>, with the files under \<open>src/crates/core/dytor/src\<close> that they model:

  \<^item> \<open>Prelude\<close>: faults and the result type; checked machine arithmetic; lists and maps.
  \<^item> \<open>Alloc\<close>, \<open>Ids\<close>: \<open>Layout\<close> and the allocator of the standard library, as far as they are used;
    \<open>ActorId\<close> and \<open>ContextId\<close> (\<open>context.rs\<close>).
  \<^item> \<open>Arena\<close> (\<open>arena.rs\<close>): \<open>compute_space_required\<close>, \<open>get_offsets\<close>, \<open>from_layouts\<close>, \<open>at_offset\<close>.
    Properties: placement is sound for every start address, the capacity is the least that
    suffices, and which in-bounds actors \<open>at_offset\<close> rejects.
  \<^item> \<open>Graph\<close> (\<open>runtime/graph.rs\<close>): \<open>has_cycles\<close> decides cyclicity, for every hash order.
  \<^item> \<open>Queues\<close> (\<open>queue/local.rs\<close>, \<open>queue/remote.rs\<close>): both queues as interpretations of one locale
    of message buffers; only the remote one is a first-in first-out buffer.
  \<^item> \<open>Object\<close> (\<open>object\<close>), \<open>Registry\<close> (\<open>registry.rs\<close>): vtables; the registry; the concurrent list
    of registrations, as steps of the threads that push.
  \<^item> \<open>Lookup\<close> (\<open>lookup.rs\<close>), \<open>Init\<close> (\<open>context.rs\<close>, \<open>lookup.rs\<close>): queries, keys, broadcast groups;
    what an actor can do while it is initialised, \<open>grab\<close> included.
  \<^item> \<open>Borrows\<close> (\<open>lookup.rs\<close>): keys to actors of the same context in use. For actors that use the
    keys that their \<open>init\<close> made, nested calls hold references to distinct, disjoint actors, since the
    dependences that \<open>Init\<close> records have no cycle; borrows that one call holds at the same time
    alias exactly if two of its keys meet.
  \<^item> \<open>Resources\<close> (\<open>context.rs\<close>, \<open>runtime/mod.rs\<close>): the lazy cells that all threads share, with
    the interleavings of the threads that force them.
  \<^item> \<open>Context\<close> (\<open>context.rs\<close>): messages, accessors, broadcasts, the draining of the local queue, and
    the drop of a context. \<open>Control\<close> (\<open>context.rs\<close>): the control block.
  \<^item> \<open>Runtime\<close> (\<open>runtime/mod.rs\<close>, \<open>config.rs\<close>): \<open>create_context_args\<close>, \<open>allocate_actors\<close>,
    \<open>create_context\<close>, and the routing of messages between contexts.
  \<^item> \<open>System\<close> (\<open>runtime/mod.rs\<close>): \<open>run\<close> and \<open>run_thread\<close> on all threads. A thread is at a point of
    \<open>run_thread\<close> and has the shared accesses that its last handler made still to do; a step is
    one shared access. Threads outside the runtime use accessors too.
  \<^item> \<open>Counting\<close>, \<open>Senders\<close>, \<open>Invariant\<close>, \<open>Runs\<close>: the invariant of \<open>System\<close>. Every unhandled event
    is a token that a thread, an accessor, a pending access or a channel holds, and the counter
    is the number of tokens. The runtime is in one of three phases: running, stuck or stopping.
  \<^item> \<open>Shutdown\<close>, \<open>Delivery\<close>: the properties of runs. The counter counts events; no fault is
    the runtime's own, except those named; when a thread stops, no event is left, and all threads
    finish within a bound; every message is delivered once and in order. Also what goes wrong:
    messages sent in \<open>init\<close> that are lost, and a last release that strands all threads.
  \<^item> \<open>Release\<close>: the last thread frees the control block if the last event was the drop of an
    accessor, and leaks it if it was a message.
  \<^item> \<open>Startup\<close>: exactly which configurations \<open>run\<close> starts; \<open>Panic\<close>: threads that panic unwind while the
    others go on, by a simulation with the machine in which they stand still, and why the runtime
    then never stops; a panic in \<open>init\<close> aborts the process instead; \<open>Overflow\<close>: what happens beyond \<open>2 ^ 32\<close> unhandled events.

  and with the files under \<open>src/crates/examples\<close>:

  \<^item> \<open>Producer\<close> (\<open>replay/src/producer.rs\<close>, \<open>replay/src/lib.rs\<close>): events, and the erasure of their
    types through leaked boxes, which is a round trip.
  \<^item> \<open>Synchronizer\<close> (\<open>replay/src/synchronizer.rs\<close>): the order of heap entries and the background
    task, as the sequence of its calls on accessors: each producer is served, in which order, and
    that the task merges descending streams but does not interleave ascending ones.
  \<^item> \<open>Tokio\<close> (\<open>replay/src/tokio_wrapper.rs\<close>): the event loop as steps among those of its handles and
    of interrupts; every submitted task is accounted for, and the thread ends after its tasks.
  \<^item> \<open>Replay\<close> (\<open>replay/src/synchronizer.rs\<close>, \<open>replay_mock/src/lib.rs\<close>): the background task from one
    \<open>await\<close> to the next, among the producers and the tasks that feed their streams through bounded
    channels. It refines the task of \<open>Synchronizer\<close>, and has no deadlock.
  \<^item> \<open>App\<close>, \<open>AppRuns\<close>, \<open>AppMain\<close> (\<open>replay_mock/src/lib.rs\<close>, \<open>app/src/main.rs\<close>): the example application
    on \<open>System\<close>, from \<open>main\<close>, which loads the library that registers its actors, to the end of all
    threads. \<open>AppRuns\<close> follows all its runs by a simulation with a small abstract machine.

  The unit tests of \<open>arena.rs\<close> and \<open>graph.rs\<close> are the lemmas \<open>arena_tests\<close> and \<open>graph_tests\<close>.

  \<^bold>\<open>Modelling.\<close>

  \<^item> Arithmetic is that of a debug build on a 64-bit target: an overflow is a fault. The atomic
    counter wraps, as \<open>fetch_add\<close> does.
  \<^item> A panic, an \<open>unwrap\<close> of nothing and an \<open>unsafe\<close> call outside its contract are faults, values
    of the result type; in \<open>System\<close> a fault ends the modelled run, in \<open>Panic\<close> the thread unwinds, as
    in the dev profile; the release profile aborts.
  \<^item> Closures are the data that they capture: a message is the targets and the function it calls,
    and what the functions do is user code, a parameter (\<open>user\<close>); so are \<open>init\<close> and
    \<open>deserialize\<close>, fields of an actor's type. User code sees its context only through what the
    arguments offer, as the types of the source ensure.
  \<^item> The iteration orders of hash maps, the addresses that the allocator returns, and the entry that
    \<open>BinaryHeap\<close> pops among equal ones are parameters, with their contracts as hypotheses.
  \<^item> Memory accesses are sequentially consistent, one at a time, in any order of the threads. An
    accessor is owned by one thread: \<open>available\<close> keeps a second use of it apart from a running
    \<open>send\<close>.
  \<^item> Runs are followed while fewer than \<open>2 ^ 32\<close> events are unhandled (\<open>reachable\<close>), since then the
    counter does not wrap. Beyond that it can reach zero early: \<open>Overflow\<close> has such a run.
  \<^item> \<open>tokio\<close> and the dynamic linker are not under \<open>src/\<close>. Of the first, what the code relies on is
    stated as steps: the order of a \<open>biased\<close> \<open>select!\<close>, a \<open>LocalSet\<close> that is done when its tasks are,
    channels that drop what is queued with the receiver, and receives that may be put off. A poll
    may come at any time, so the delays of tasks are arbitrary. The second is a parameter.
  \<^item> No definition needs fuel: loops are by structural recursion or have a measure, except the
    draining of the local queue, which may not end and is a partial function; that it ends is
    proved for programs whose chains of local messages are bounded.

  \<^bold>\<open>Not modelled.\<close> Weak memory orders (the \<open>Relaxed\<close> accesses of the counter); the order in which
  a message that is dropped unhandled drops an accessor that its closure owns, which is one of the
  drops that may come at any time; the steps of tasks other than the background task and those that
  feed streams; the unloading of libraries, which their flags prevent; \<open>serde\<close>, whose values are
  opaque; the crate roots, which only declare modules and re-export names; the derive macros beyond
  the name that \<open>UniquelyNamed\<close> returns.
\<close>

end
